(* ===== verification/Prelude.thy ===== *)
theory Prelude
  imports Main "HOL-Library.Word"
begin

text \<open>
  What every component shares: the machine types of the C++ code, the collections of
  facts the component proofs use, little-endian images of integers (the memory images
  that the code copies with \<open>memcpy\<close> and \<open>ofstream::write\<close>), and a few facts about
  lists, words and masks.
\<close>

unbundle bit_operations_syntax

section \<open>Machine types\<close>

type_synonym u8 = "8 word"
type_synonym u16 = "16 word"
type_synonym u32 = "32 word"
type_synonym u64 = "64 word"

text \<open>
  \<open>i64\<close> and \<open>i32\<close> are the signed types: the same bit patterns, read with
  \<open>sint\<close> and compared with the signed orders. \<open>size_t\<close> is 64 bits wide on the
  platforms the build files target.
\<close>

type_synonym i64 = "64 word"
type_synonym i32 = "32 word"
type_synonym size_t = "64 word"

text \<open>Object addresses. The null pointer is address 0.\<close>

type_synonym ptr = nat

abbreviation (input) nullptr :: ptr where
  "nullptr \<equiv> 0"

text \<open>Signed numbers that stay within 63 bits behave like integers.\<close>

lemma sint_of_int_i64: "0 \<le> v \<Longrightarrow> v < 2 ^ 63 \<Longrightarrow> sint (word_of_int v :: i64) = v"
  by (simp add: sint_sbintrunc' signed_take_bit_int_eq_self)

lemma sint_of_nat_i64: "n < 2 ^ 63 \<Longrightarrow> sint (of_nat n :: i64) = int n"
  by (simp add: signed_of_nat signed_take_bit_int_eq_self)

lemma sint_add_i64:
  fixes a b :: i64
  assumes "0 \<le> sint a" "0 \<le> sint b" "sint a + sint b < 2 ^ 63"
  shows "sint (a + b) = sint a + sint b"
  using assms by (simp add: sint_word_ariths(1) signed_take_bit_int_eq_self)

section \<open>Collections\<close>

named_theorems byte_simps \<open>lengths and round trips of byte images\<close>
named_theorems ring_simps \<open>facts about ring indices\<close>
named_theorems inv_intros \<open>invariants that operations keep\<close>

section \<open>Words and masks\<close>

lemma unat_and_mask [ring_simps]:
  "unat (x AND mask k) = unat (x :: 'a::len word) mod 2 ^ k"
proof -
  have "unat (x AND mask k) = take_bit k (unat x)"
    by (simp only: flip: take_bit_eq_mask) (simp add: unsigned_take_bit_eq)
  then show ?thesis by (simp only: take_bit_eq_mod)
qed

lemma of_nat_pow2_minus_1: "(of_nat (2 ^ k) - 1 :: 'a::len word) = mask k"
  by (simp add: mask_eq_exp_minus_1)

lemma ucast_u8_drop_bit_take:
  "take_bit 8 (x :: 'a::len word) = ucast (ucast x :: u8)"
  by (rule bit_word_eqI) (auto simp: bit_simps)

lemma xor_eq_0_iff_eq: "x XOR y = 0 \<longleftrightarrow> x = (y :: 'a::len word)"
  by (metis xor.assoc xor.left_neutral xor.right_neutral xor_self_eq)

lemma xor_left_inject [simp]: "s XOR x = s XOR y \<longleftrightarrow> x = (y :: 'a::len word)"
proof
  assume "s XOR x = s XOR y"
  then have "s XOR (s XOR x) = s XOR (s XOR y)" by simp
  then show "x = y" by (simp flip: xor.assoc)
qed simp

lemma xor_right_inject [simp]: "x XOR s = y XOR s \<longleftrightarrow> x = (y :: 'a::len word)"
  by (simp add: xor.commute [of _ s])

section \<open>Little-endian memory images\<close>

text \<open>
  The object representation of an \<open>n\<close>-byte unsigned integer on a little-endian
  machine, and the integer that a run of bytes represents.
\<close>

primrec le_bytes :: "nat \<Rightarrow> 'a::len word \<Rightarrow> u8 list" where
  "le_bytes 0 w = []"
| "le_bytes (Suc n) w = ucast w # le_bytes n (drop_bit 8 w)"

primrec of_le :: "u8 list \<Rightarrow> 'a::len word" where
  "of_le [] = 0"
| "of_le (b # bs) = ucast b OR push_bit 8 (of_le bs)"

lemma length_le_bytes [simp, byte_simps]: "length (le_bytes n w) = n"
  by (induction n arbitrary: w) simp_all

lemma of_le_le_bytes: "of_le (le_bytes n w) = take_bit (8 * n) (w :: 'a::len word)"
proof (induction n arbitrary: w)
  case 0
  then show ?case by simp
next
  case (Suc n)
  show ?case
    by (rule bit_word_eqI) (auto simp: Suc bit_simps)
qed

lemma of_le_le_bytes_full [simp, byte_simps]:
  "LENGTH('a) \<le> 8 * n \<Longrightarrow> of_le (le_bytes n w) = (w :: 'a::len word)"
  by (simp add: of_le_le_bytes take_bit_word_eq_self)

lemma bit_of_le_length: "bit (of_le bs :: 'a::len word) i \<Longrightarrow> i < 8 * length bs"
proof (induction bs arbitrary: i)
  case Nil
  then show ?case by simp
next
  case (Cons b bs)
  show ?case
  proof (cases "i < 8")
    case False
    with Cons.prems have "bit (of_le bs :: 'a word) (i - 8)"
      by (auto simp: bit_simps dest: bit_imp_le_length)
    then have "i - 8 < 8 * length bs"
      by (rule Cons.IH)
    with False show ?thesis by simp
  qed simp
qed

lemma le_bytes_of_le:
  "8 * length bs \<le> LENGTH('a) \<Longrightarrow> le_bytes (length bs) (of_le bs :: 'a::len word) = bs"
proof (induction bs)
  case Nil
  then show ?case by simp
next
  case (Cons b bs)
  have hd: "ucast (of_le (b # bs) :: 'a word) = b"
    using Cons.prems by (intro bit_word_eqI) (auto simp: bit_simps)
  have tl: "drop_bit 8 (of_le (b # bs) :: 'a word) = of_le bs"
  proof (rule bit_word_eqI)
    fix m
    assume "m < LENGTH('a)"
    then show "bit (drop_bit 8 (of_le (b # bs) :: 'a word)) m = bit (of_le bs :: 'a word) m"
      using Cons.prems
      by (auto simp: bit_simps not_less dest: bit_imp_le_length bit_of_le_length)
  qed
  show ?case
    using Cons hd tl by simp
qed

lemma le_bytes_of_le_eq [byte_simps]:
  "length bs = n \<Longrightarrow> 8 * n \<le> LENGTH('a) \<Longrightarrow> le_bytes n (of_le bs :: 'a::len word) = bs"
  using le_bytes_of_le by blast

lemma le_bytes_inject:
  "LENGTH('a) \<le> 8 * n \<Longrightarrow> le_bytes n v = le_bytes n w \<longleftrightarrow> v = (w :: 'a::len word)"
  by (metis of_le_le_bytes_full)

section \<open>Interface: fixed-width encodings\<close>

text \<open>
  What a fixed-width encoding promises its users: an image of exactly \<open>width\<close> bytes
  that decodes to the value encoded, also when other bytes follow it.
\<close>

locale fixed_codec =
  fixes enc :: "'v \<Rightarrow> u8 list" and dec :: "u8 list \<Rightarrow> 'v" and width :: nat
  assumes length_enc: "length (enc v) = width"
    and dec_enc: "dec (enc v) = v"
begin

lemma dec_take: "dec (take width (enc v @ rest)) = v"
  by (simp add: length_enc dec_enc)

lemma drop_enc: "drop width (enc v @ rest) = rest"
  by (simp add: length_enc)

lemma enc_inject: "enc v = enc w \<longleftrightarrow> v = w"
  by (metis dec_enc)

lemma enc_append_inject: "enc v @ xs = enc w @ ys \<longleftrightarrow> v = w \<and> xs = ys"
  by (metis append_eq_append_conv enc_inject length_enc)

end

interpretation u16_codec: fixed_codec "le_bytes 2 :: u16 \<Rightarrow> u8 list" of_le 2
  by unfold_locales simp_all

interpretation u32_codec: fixed_codec "le_bytes 4 :: u32 \<Rightarrow> u8 list" of_le 4
  by unfold_locales simp_all

interpretation u64_codec: fixed_codec "le_bytes 8 :: u64 \<Rightarrow> u8 list" of_le 8
  by unfold_locales simp_all

section \<open>Lists\<close>

lemma length_overlay [byte_simps]:
  "k \<le> length bs \<Longrightarrow> length xs = k \<Longrightarrow> length (xs @ drop k bs) = length bs"
  by simp

end
