(* ===== verification/Ring.thy ===== *)
theory Ring
  imports Prelude
begin

text \<open>
  What the two lock-free queues share: index arithmetic modulo a power of two, the content
  of a ring as a list, and the contract of a bounded first-in first-out queue.
\<close>

section \<open>Sizes that are powers of two\<close>

text \<open>\<open>static_assert((Size & (Size - 1)) == 0)\<close>, for a positive size that is a \<open>size_t\<close>.\<close>

definition size_is_pow2 :: "nat \<Rightarrow> bool" where
  "size_is_pow2 n \<longleftrightarrow> 0 < n \<and> n < 2 ^ 64 \<and> n AND (n - 1) = 0"

lemma and_pred_eq_0_pow2: "0 < n \<Longrightarrow> n AND (n - 1) = (0 :: nat) \<Longrightarrow> \<exists>k. n = 2 ^ k"
proof (induction n rule: less_induct)
  case (less n)
  show ?case
  proof (cases "even n")
    case True
    then obtain m where m: "n = 2 * m" by blast
    with less.prems(1) have pos: "0 < m" by simp
    have pred: "(n - 1) div 2 = m - 1"
      using m pos by simp
    have "n AND (n - 1) = 2 * (m AND (m - 1))"
      using and_rec [of n "n - 1"] m pred by simp
    with less.prems(2) have "m AND (m - 1) = 0" by simp
    with less.IH [of m] m pos obtain k where "m = 2 ^ k" by auto
    with m have "n = 2 ^ Suc k" by simp
    then show ?thesis ..
  next
    case False
    then have pred: "even (n - 1)" "(n - 1) div 2 = n div 2"
      by (auto elim: oddE)
    have "n AND (n - 1) = 2 * (n div 2 AND n div 2)"
      using and_rec [of n "n - 1"] pred by simp
    with less.prems(2) have "n div 2 = 0" by simp
    with less.prems(1) have "n = 2 ^ 0" by simp
    then show ?thesis ..
  qed
qed

lemma size_is_pow2_cases:
  assumes "size_is_pow2 n"
  obtains k where "n = 2 ^ k" and "k < 64"
proof -
  from assms obtain k where k: "n = 2 ^ k"
    using and_pred_eq_0_pow2 by (auto simp: size_is_pow2_def)
  with assms have "(2 :: nat) ^ k < 2 ^ 64"
    by (simp add: size_is_pow2_def)
  then have "k < 64"
    by (rule power_less_imp_less_exp [rotated]) simp
  with k show thesis by (rule that)
qed

lemma size_is_pow2_pos: "size_is_pow2 n \<Longrightarrow> 0 < n"
  by (simp add: size_is_pow2_def)

text \<open>The mask \<open>Size - 1\<close> computes the remainder, also after an index has wrapped around.\<close>

lemma unat_and_size_minus_1 [ring_simps]:
  assumes "size_is_pow2 n"
  shows "unat (x AND (of_nat n - 1) :: size_t) = unat x mod n"
proof -
  obtain k where "n = 2 ^ k" and "k < 64"
    using assms by (rule size_is_pow2_cases)
  then show ?thesis
    by (simp add: of_nat_pow2_minus_1 unat_and_mask flip: of_nat_power)
qed

lemma size_is_pow2_dvd:
  assumes "size_is_pow2 n"
  shows "n dvd 2 ^ 64"
proof -
  obtain k where k: "n = 2 ^ k" and "k < 64"
    using assms by (rule size_is_pow2_cases)
  show ?thesis
    unfolding k using \<open>k < 64\<close> by (intro le_imp_power_dvd) simp
qed

lemma unat_next_index [ring_simps]:
  assumes "size_is_pow2 n"
  shows "unat ((x + 1) AND (of_nat n - 1) :: size_t) = (unat x + 1) mod n"
proof -
  have "unat (x + 1) = (unat x + 1) mod 2 ^ 64"
    by (simp add: unat_word_ariths)
  then show ?thesis
    by (simp only: unat_and_size_minus_1 [OF assms] mod_mod_cancel [OF size_is_pow2_dvd [OF assms]])
qed

lemma unat_index_diff [ring_simps]:
  assumes "size_is_pow2 n" and "unat h < n"
  shows "unat ((t - h) AND (of_nat n - 1) :: size_t) = (unat t + n - unat h) mod n"
proof -
  have dvd: "int n dvd 2 ^ 64"
    using size_is_pow2_dvd [OF assms(1)] by (metis of_nat_dvd_iff of_nat_numeral of_nat_power)
  have "int (unat (t - h)) = (uint t - uint h) mod 2 ^ 64"
    by (simp add: uint_word_ariths)
  then have "int (unat (t - h) mod n) = (uint t - uint h) mod int n"
    by (simp only: zmod_int mod_mod_cancel [OF dvd])
  also have "\<dots> = (uint t - uint h + int n) mod int n"
    by simp
  also have "\<dots> = int ((unat t + n - unat h) mod n)"
    using assms(2) by (simp add: zmod_int of_nat_diff algebra_simps)
  finally show ?thesis
    using assms(1) by (simp add: unat_and_size_minus_1 del: of_nat_mod)
qed

lemma mod_below_twice: "x < 2 * n \<Longrightarrow> x mod n = (if x < n then x else x - (n :: nat))"
  by (simp add: le_mod_geq)

section \<open>The content of a ring\<close>

definition ring_count :: "nat \<Rightarrow> nat \<Rightarrow> nat \<Rightarrow> nat" where
  "ring_count n h t = (t + n - h) mod n"

definition ring_list :: "'a list \<Rightarrow> nat \<Rightarrow> nat \<Rightarrow> 'a list" where
  "ring_list sl h t = map (\<lambda>j. sl ! ((h + j) mod length sl)) [0..<ring_count (length sl) h t]"

lemma length_ring_list [simp]: "length (ring_list sl h t) = ring_count (length sl) h t"
  by (simp add: ring_list_def)

lemma ring_count_alt:
  "h < n \<Longrightarrow> t < n \<Longrightarrow> ring_count n h t = (if h \<le> t then t - h else n - h + t)"
  by (auto simp: ring_count_def mod_below_twice)

lemma ring_count_less [ring_simps]: "0 < n \<Longrightarrow> ring_count n h t < n"
  by (simp add: ring_count_def)

lemma ring_count_eq_0_iff [ring_simps]: "h < n \<Longrightarrow> t < n \<Longrightarrow> ring_count n h t = 0 \<longleftrightarrow> h = t"
  by (auto simp: ring_count_alt)

lemma ring_full_iff [ring_simps]:
  "h < n \<Longrightarrow> t < n \<Longrightarrow> (t + 1) mod n = h \<longleftrightarrow> ring_count n h t = n - 1"
  by (cases "t + 1 = n") (auto simp: ring_count_alt)

lemma ring_count_enq [ring_simps]:
  "h < n \<Longrightarrow> t < n \<Longrightarrow> (t + 1) mod n \<noteq> h \<Longrightarrow> ring_count n h ((t + 1) mod n) = ring_count n h t + 1"
  by (cases "t + 1 = n") (auto simp: ring_count_alt)

lemma ring_count_deq [ring_simps]:
  "h < n \<Longrightarrow> t < n \<Longrightarrow> h \<noteq> t \<Longrightarrow> ring_count n ((h + 1) mod n) t = ring_count n h t - 1"
  by (cases "h + 1 = n") (auto simp: ring_count_alt)

lemma ring_index_neq_tail:
  assumes "h < n" and "t < n" and "j < ring_count n h t"
  shows "(h + j) mod n \<noteq> t"
  using assms mod_below_twice [of "h + j" n]
  by (auto simp: ring_count_alt split: if_splits)

lemma ring_index_neq_head:
  assumes "h < n" and "t < n" and "0 < j" and "j < ring_count n h t"
  shows "(h + j) mod n \<noteq> h"
  using assms mod_below_twice [of "h + j" n]
  by (auto simp: ring_count_alt split: if_splits)

lemma ring_index_last:
  assumes "h < n" and "t < n"
  shows "(h + ring_count n h t) mod n = t"
  using assms mod_below_twice [of "h + ring_count n h t" n]
  by (auto simp: ring_count_alt split: if_splits)

lemma ring_list_empty [simp]: "h < length sl \<Longrightarrow> ring_list sl h h = []"
  by (simp add: ring_list_def ring_count_alt)

text \<open>The three updates of the queues.\<close>

lemma ring_list_enq:
  assumes "h < length sl" and "t < length sl" and "(t + 1) mod length sl \<noteq> h"
  shows "ring_list (sl[t := x]) h ((t + 1) mod length sl) = ring_list sl h t @ [x]"
proof (rule nth_equalityI)
  show "length (ring_list (sl[t := x]) h ((t + 1) mod length sl)) = length (ring_list sl h t @ [x])"
    using assms ring_count_enq by simp
next
  fix j
  assume "j < length (ring_list (sl[t := x]) h ((t + 1) mod length sl))"
  then have j: "j < ring_count (length sl) h t + 1"
    using assms ring_count_enq by simp
  show "ring_list (sl[t := x]) h ((t + 1) mod length sl) ! j = (ring_list sl h t @ [x]) ! j"
  proof (cases "j < ring_count (length sl) h t")
    case True
    then show ?thesis
      using assms j ring_index_neq_tail [OF assms(1,2) True] ring_count_enq [OF assms]
      by (simp add: ring_list_def nth_append)
  next
    case False
    with j have "j = ring_count (length sl) h t" by simp
    then show ?thesis
      using assms ring_index_last [OF assms(1,2)] ring_count_enq [OF assms]
      by (simp add: ring_list_def nth_append)
  qed
qed

lemma ring_list_deq:
  assumes "h < length sl" and "t < length sl" and "h \<noteq> t"
  shows "ring_list sl h t = sl ! h # ring_list sl ((h + 1) mod length sl) t"
proof -
  obtain c where c: "ring_count (length sl) h t = Suc c"
    using assms ring_count_eq_0_iff not0_implies_Suc by blast
  have "[0..<Suc c] = 0 # map Suc [0..<c]"
    by (simp only: map_Suc_upt) (simp add: upt_rec)
  then show ?thesis
    using assms c ring_count_deq [OF assms]
    by (simp add: ring_list_def mod_add_left_eq del: upt_Suc)
qed

lemma tl_ring_list_update_head:
  assumes "h < length sl" and "t < length sl"
  shows "tl (ring_list (sl[h := x]) h t) = tl (ring_list sl h t)"
proof (rule nth_equalityI)
  fix j
  assume "j < length (tl (ring_list (sl[h := x]) h t))"
  then have "Suc j < ring_count (length sl) h t" by simp
  then show "tl (ring_list (sl[h := x]) h t) ! j = tl (ring_list sl h t) ! j"
    using ring_index_neq_head [OF assms(1,2), of "Suc j"]
    by (simp add: nth_tl ring_list_def)
qed simp

lemma ring_list_clear:
  assumes "h < length sl" and "t < length sl" and "h \<noteq> t"
  shows "ring_list (sl[h := x]) ((h + 1) mod length sl) t = ring_list sl ((h + 1) mod length sl) t"
  using ring_list_deq [of h "sl[h := x]" t] ring_list_deq [of h sl t]
    tl_ring_list_update_head [of h sl t x] assms by simp

text \<open>A store to the tail slot is invisible until the tail moves.\<close>

lemma ring_list_update_tail:
  assumes "h < length sl" and "t < length sl"
  shows "ring_list (sl[t := x]) h t = ring_list sl h t"
  using ring_index_neq_tail [OF assms, THEN not_sym]
  by (intro nth_equalityI) (simp_all add: ring_list_def)

lemma ring_list_advance_tail:
  assumes "h < length sl" and "t < length sl" and "(t + 1) mod length sl \<noteq> h"
  shows "ring_list sl h ((t + 1) mod length sl) = ring_list sl h t @ [sl ! t]"
  using ring_list_enq [OF assms, of "sl ! t"] by simp

section \<open>Interface: a bounded first-in first-out queue\<close>

text \<open>
  What the threads of the subscriber rely on when they hand items over. An operation
  sequence is run against the queue with \<open>fifo_run\<close>, which collects the items accepted and
  the items delivered.
\<close>

datatype 'a fifo_op = Enqueue 'a | Dequeue

primrec fifo_run ::
  "('q \<Rightarrow> 'a \<Rightarrow> bool \<times> 'q) \<Rightarrow> ('q \<Rightarrow> 'a option \<times> 'q) \<Rightarrow> 'a fifo_op list \<Rightarrow> 'q
     \<Rightarrow> 'a list \<times> 'a list \<times> 'q" where
  "fifo_run enq deq [] q = ([], [], q)"
| "fifo_run enq deq (x # xs) q =
     (case x of
        Enqueue a \<Rightarrow>
          (case enq q a of (ok, q1) \<Rightarrow>
             case fifo_run enq deq xs q1 of (ins, outs, q2) \<Rightarrow>
               (if ok then a # ins else ins, outs, q2))
      | Dequeue \<Rightarrow>
          (case deq q of (r, q1) \<Rightarrow>
             case fifo_run enq deq xs q1 of (ins, outs, q2) \<Rightarrow>
               (ins, case r of None \<Rightarrow> outs | Some a \<Rightarrow> a # outs, q2)))"

locale bounded_fifo =
  fixes enq :: "'q \<Rightarrow> 'a \<Rightarrow> bool \<times> 'q"
    and deq :: "'q \<Rightarrow> 'a option \<times> 'q"
    and contents :: "'q \<Rightarrow> 'a list"
    and invar :: "'q \<Rightarrow> bool"
    and cap :: "'q \<Rightarrow> nat"
    and admits :: "'a \<Rightarrow> bool"
  assumes enq_accepts: "invar q \<Longrightarrow> fst (enq q x) \<longleftrightarrow> admits x \<and> length (contents q) < cap q"
    and enq_contents: "invar q \<Longrightarrow>
      contents (snd (enq q x)) = (if fst (enq q x) then contents q @ [x] else contents q)"
    and deq_result: "invar q \<Longrightarrow> fst (deq q) = (if contents q = [] then None else Some (hd (contents q)))"
    and deq_contents: "invar q \<Longrightarrow> contents (snd (deq q)) = tl (contents q)"
    and invar_enq: "invar q \<Longrightarrow> invar (snd (enq q x))"
    and invar_deq: "invar q \<Longrightarrow> invar (snd (deq q))"
    and cap_enq: "invar q \<Longrightarrow> cap (snd (enq q x)) = cap q"
    and cap_deq: "invar q \<Longrightarrow> cap (snd (deq q)) = cap q"
    and bounded: "invar q \<Longrightarrow> length (contents q) \<le> cap q"
begin

lemmas fifo_laws =
  enq_accepts enq_contents deq_result deq_contents invar_enq invar_deq cap_enq cap_deq

text \<open>Nothing is lost, duplicated or reordered in any sequence of operations.\<close>

lemma fifo_run_fifo:
  assumes "invar q" and "fifo_run enq deq xs q = (ins, outs, q')"
  shows "contents q @ ins = outs @ contents q' \<and> invar q' \<and> cap q' = cap q"
  using assms
proof (induction xs arbitrary: q ins outs q')
  case Nil
  then show ?case by simp
next
  case (Cons x xs)
  show ?case
  proof (cases x)
    case (Enqueue a)
    obtain ok q1 where e: "enq q a = (ok, q1)" by fastforce
    obtain ins1 outs1 q2 where r: "fifo_run enq deq xs q1 = (ins1, outs1, q2)"
      by (metis prod_cases3)
    have laws: "invar q1" "cap q1 = cap q" "contents q1 = (if ok then contents q @ [a] else contents q)"
      using e Cons.prems(1) invar_enq [of q a] cap_enq [of q a] enq_contents [of q a] by simp_all
    show ?thesis
      using Cons.IH [OF laws(1) r] Cons.prems(2) Enqueue e r laws by (cases ok) auto
  next
    case Dequeue
    obtain d q1 where e: "deq q = (d, q1)" by fastforce
    obtain ins1 outs1 q2 where r: "fifo_run enq deq xs q1 = (ins1, outs1, q2)"
      by (metis prod_cases3)
    have laws: "invar q1" "cap q1 = cap q" "contents q1 = tl (contents q)"
      "d = (if contents q = [] then None else Some (hd (contents q)))"
      using e Cons.prems(1) invar_deq [of q] cap_deq [of q] deq_contents [of q] deq_result [of q]
      by simp_all
    show ?thesis
      using Cons.IH [OF laws(1) r] Cons.prems(2) Dequeue e r laws
      by (cases "contents q") auto
  qed
qed

lemma fifo_run_bounded:
  assumes "invar q" and "fifo_run enq deq xs q = (ins, outs, q')"
  shows "length (contents q') \<le> cap q"
  using fifo_run_fifo [OF assms] bounded [of q'] by simp

text \<open>An item that was accepted into an empty queue is the next one out.\<close>

lemma enq_deq_empty:
  assumes "invar q" and "contents q = []" and "fst (enq q x)"
  shows "fst (deq (snd (enq q x))) = Some x"
  using assms deq_result [OF invar_enq [OF assms(1)]] enq_contents [OF assms(1)] by simp

end

end
