(* ===== verification/Spsc_Queue.thy ===== *)
theory Spsc_Queue
  imports Complex_Main Ring
begin

text \<open>
  \<open>subscriber/include/SPSCQueue.h\<close>: the ring buffer of values between the worker and the
  monitoring thread, one operation at a time, and the statistics record it carries.
\<close>

section \<open>The queue\<close>

text \<open>The template parameter \<open>Size\<close> is the length of the buffer.\<close>

record 'a SPSCQueue =
  sq_buffer :: "'a list"
  sq_head :: size_t
  sq_tail :: size_t

definition sq_Size :: "'a SPSCQueue \<Rightarrow> nat" where
  "sq_Size q = length (sq_buffer q)"

text \<open>The buffer holds default-constructed items; \<open>dflt\<close> is one.\<close>

definition new_SPSCQueue :: "nat \<Rightarrow> 'a \<Rightarrow> 'a SPSCQueue" where
  "new_SPSCQueue n dflt = \<lparr>sq_buffer = replicate n dflt, sq_head = 0, sq_tail = 0\<rparr>"

definition sq_increment :: "'a SPSCQueue \<Rightarrow> size_t \<Rightarrow> size_t" where
  "sq_increment q idx = (idx + 1) AND (of_nat (sq_Size q) - 1)"

definition sq_enqueue :: "'a SPSCQueue \<Rightarrow> 'a \<Rightarrow> bool \<times> 'a SPSCQueue" where
  "sq_enqueue q item =
     (let current_tail = sq_tail q;
          next_tail = sq_increment q current_tail
      in if next_tail = sq_head q then (False, q)
         else (True, q\<lparr>sq_buffer := (sq_buffer q)[unat current_tail := item], sq_tail := next_tail\<rparr>))"

text \<open>
  \<open>None\<close> is the return value \<open>false\<close>, which leaves the out parameter alone; \<open>Some x\<close> is
  \<open>true\<close> with \<open>x\<close> stored there.
\<close>

definition sq_dequeue :: "'a SPSCQueue \<Rightarrow> 'a option \<times> 'a SPSCQueue" where
  "sq_dequeue q =
     (let current_head = sq_head q
      in if current_head = sq_tail q then (None, q)
         else (Some (sq_buffer q ! unat current_head), q\<lparr>sq_head := sq_increment q current_head\<rparr>))"

definition sq_size :: "'a SPSCQueue \<Rightarrow> size_t" where
  "sq_size q =
     (let current_head = sq_head q; current_tail = sq_tail q
      in if current_tail \<ge> current_head then current_tail - current_head
         else of_nat (sq_Size q) - current_head + current_tail)"

definition sq_empty :: "'a SPSCQueue \<Rightarrow> bool" where
  "sq_empty q \<longleftrightarrow> sq_head q = sq_tail q"

definition sq_capacity :: "'a SPSCQueue \<Rightarrow> nat" where
  "sq_capacity q = sq_Size q - 1"

section \<open>Invariant and abstraction\<close>

definition sq_inv :: "'a SPSCQueue \<Rightarrow> bool" where
  "sq_inv q \<longleftrightarrow> size_is_pow2 (sq_Size q) \<and> unat (sq_head q) < sq_Size q \<and> unat (sq_tail q) < sq_Size q"

definition sq_contents :: "'a SPSCQueue \<Rightarrow> 'a list" where
  "sq_contents q = ring_list (sq_buffer q) (unat (sq_head q)) (unat (sq_tail q))"

lemma sq_Size_simps [simp]:
  "sq_Size (q\<lparr>sq_head := h\<rparr>) = sq_Size q" "sq_Size (q\<lparr>sq_tail := t\<rparr>) = sq_Size q"
  "sq_Size (q\<lparr>sq_buffer := (sq_buffer q)[i := x]\<rparr>) = sq_Size q"
  "sq_Size (q\<lparr>sq_buffer := (sq_buffer q)[i := x], sq_tail := t\<rparr>) = sq_Size q"
  by (simp_all add: sq_Size_def)

lemma unat_sq_increment:
  "sq_inv q \<Longrightarrow> unat (sq_increment q x) = (unat x + 1) mod sq_Size q"
  by (simp add: sq_increment_def sq_inv_def unat_next_index)

lemma sq_new_inv [inv_intros]: "size_is_pow2 n \<Longrightarrow> sq_inv (new_SPSCQueue n d)"
  by (simp add: sq_inv_def new_SPSCQueue_def sq_Size_def size_is_pow2_def)

lemma sq_full_iff:
  assumes "sq_inv q"
  shows "sq_increment q (sq_tail q) = sq_head q \<longleftrightarrow> length (sq_contents q) = sq_capacity q"
proof -
  have "sq_increment q (sq_tail q) = sq_head q
      \<longleftrightarrow> (unat (sq_tail q) + 1) mod sq_Size q = unat (sq_head q)"
    using unat_sq_increment [OF assms] by (metis word_unat_eq_iff)
  then show ?thesis
    using assms ring_full_iff [of "unat (sq_head q)" "sq_Size q" "unat (sq_tail q)"]
    by (simp add: sq_inv_def sq_contents_def sq_capacity_def sq_Size_def)
qed

lemma sq_length_contents:
  "sq_inv q \<Longrightarrow> length (sq_contents q) \<le> sq_capacity q"
  using ring_count_less [of "sq_Size q" "unat (sq_head q)" "unat (sq_tail q)"]
  by (simp add: sq_contents_def sq_inv_def sq_capacity_def sq_Size_def size_is_pow2_def
      del: length_greater_0_conv)

lemma sq_enqueue_accepts:
  "sq_inv q \<Longrightarrow> fst (sq_enqueue q x) \<longleftrightarrow> length (sq_contents q) < sq_capacity q"
  using sq_full_iff [of q] sq_length_contents [of q]
  by (auto simp: sq_enqueue_def Let_def)

lemma sq_enqueue_inv [inv_intros]: "sq_inv q \<Longrightarrow> sq_inv (snd (sq_enqueue q x))"
  using unat_sq_increment [of q "sq_tail q"]
  by (auto simp: sq_enqueue_def Let_def sq_inv_def size_is_pow2_pos)

lemma sq_dequeue_inv [inv_intros]: "sq_inv q \<Longrightarrow> sq_inv (snd (sq_dequeue q))"
  using unat_sq_increment [of q "sq_head q"]
  by (auto simp: sq_dequeue_def Let_def sq_inv_def size_is_pow2_pos)

lemma sq_enqueue_contents:
  assumes "sq_inv q"
  shows "sq_contents (snd (sq_enqueue q x)) =
    (if fst (sq_enqueue q x) then sq_contents q @ [x] else sq_contents q)"
proof (cases "sq_increment q (sq_tail q) = sq_head q")
  case True
  then show ?thesis by (simp add: sq_enqueue_def)
next
  case False
  then have "(unat (sq_tail q) + 1) mod sq_Size q \<noteq> unat (sq_head q)"
    using unat_sq_increment [OF assms] by (metis word_unat_eq_iff)
  with False assms show ?thesis
    using ring_list_enq [of "unat (sq_head q)" "sq_buffer q" "unat (sq_tail q)" x]
    by (simp add: sq_enqueue_def Let_def sq_contents_def unat_sq_increment)
       (simp add: sq_inv_def sq_Size_def)
qed

lemma sq_dequeue_cases:
  assumes "sq_inv q"
  shows "fst (sq_dequeue q) = (if sq_contents q = [] then None else Some (hd (sq_contents q)))
     \<and> sq_contents (snd (sq_dequeue q)) = tl (sq_contents q)"
proof (cases "sq_head q = sq_tail q")
  case True
  then show ?thesis
    using assms by (simp add: sq_dequeue_def sq_contents_def sq_inv_def sq_Size_def)
next
  case False
  then have "unat (sq_head q) \<noteq> unat (sq_tail q)"
    by (metis word_unat_eq_iff)
  with False assms show ?thesis
    using ring_list_deq [of "unat (sq_head q)" "sq_buffer q" "unat (sq_tail q)"]
    by (simp add: sq_dequeue_def Let_def sq_contents_def unat_sq_increment)
       (simp add: sq_inv_def sq_Size_def)
qed

lemma sq_capacity_ops:
  "sq_capacity (snd (sq_enqueue q x)) = sq_capacity q" "sq_capacity (snd (sq_dequeue q)) = sq_capacity q"
  by (simp_all add: sq_enqueue_def sq_dequeue_def sq_capacity_def Let_def)

interpretation sq: bounded_fifo sq_enqueue sq_dequeue sq_contents sq_inv sq_capacity "\<lambda>_. True"
  by unfold_locales
     (simp_all add: sq_enqueue_accepts sq_enqueue_contents sq_dequeue_cases sq_enqueue_inv
        sq_dequeue_inv sq_capacity_ops sq_length_contents)

section \<open>The size\<close>

lemma sq_size_contents:
  assumes "sq_inv q"
  shows "unat (sq_size q) = length (sq_contents q)"
proof -
  let ?h = "sq_head q" and ?t = "sq_tail q" and ?n = "sq_Size q"
  have bounds: "unat ?h < ?n" "unat ?t < ?n" "?n < 2 ^ 64"
    using assms by (simp_all add: sq_inv_def size_is_pow2_def)
  have len: "length (sq_contents q) = (if unat ?h \<le> unat ?t then unat ?t - unat ?h else ?n - unat ?h + unat ?t)"
    using bounds by (simp add: sq_contents_def sq_Size_def ring_count_alt)
  show ?thesis
  proof (cases "?h \<le> ?t")
    case True
    then show ?thesis
      using len by (simp add: sq_size_def word_le_nat_alt unat_sub)
  next
    case False
    have n: "unat (of_nat ?n :: size_t) = ?n"
      using bounds by (simp add: unat_of_nat)
    then have "unat (of_nat ?n - ?h :: size_t) = ?n - unat ?h"
      using bounds by (simp add: unat_sub word_le_nat_alt)
    moreover have "?n - unat ?h + unat ?t < 2 ^ 64"
      using False bounds by (simp add: word_le_nat_alt)
    ultimately have "unat (of_nat ?n - ?h + ?t :: size_t) = ?n - unat ?h + unat ?t"
      by (simp add: unat_word_ariths)
    with False len show ?thesis
      by (simp add: sq_size_def word_le_nat_alt)
  qed
qed

lemma sq_contents_new [simp]: "0 < n \<Longrightarrow> sq_contents (new_SPSCQueue n d) = []"
  by (simp add: sq_contents_def new_SPSCQueue_def)

lemma sq_empty_iff: "sq_inv q \<Longrightarrow> sq_empty q \<longleftrightarrow> sq_contents q = []"
  using ring_count_eq_0_iff [of "unat (sq_head q)" "sq_Size q" "unat (sq_tail q)"]
  by (simp add: sq_empty_def sq_contents_def sq_inv_def sq_Size_def word_unat_eq_iff
      flip: length_0_conv)

section \<open>Statistics records\<close>

record MessageStats =
  message_number :: i64
  send_timestamp :: i64
  recv_timestamp :: i64
  position :: i64

definition default_MessageStats :: MessageStats where
  "default_MessageStats =
     \<lparr>message_number = -1, send_timestamp = 0, recv_timestamp = 0, position = 0\<rparr>"

text \<open>The microseconds as an exact quotient; the rounding of \<open>double\<close> is not modelled.\<close>

definition latency_us :: "MessageStats \<Rightarrow> real" where
  "latency_us m =
     (if sint (send_timestamp m) > 0 \<and> sint (recv_timestamp m) > sint (send_timestamp m)
      then real_of_int (sint (recv_timestamp m) - sint (send_timestamp m)) / 1000
      else 0)"

section \<open>Properties\<close>

text \<open>First in, first out: whatever sequence of \<open>enqueue\<close> and \<open>dequeue\<close> calls is made on a new
  queue whose size is a power of two, the items accepted are the items delivered followed by
  those still queued, in order; \<open>size()\<close> counts the latter and never exceeds \<open>capacity()\<close>.\<close>

theorem sq_fifo:
  assumes "size_is_pow2 n"
    and "fifo_run sq_enqueue sq_dequeue ops (new_SPSCQueue n d) = (ins, outs, q)"
  shows "ins = outs @ sq_contents q \<and> unat (sq_size q) = length (sq_contents q)
     \<and> length (sq_contents q) \<le> n - 1"
proof -
  have n: "sq_inv (new_SPSCQueue n d)" "0 < n"
    using assms(1) by (simp_all add: sq_new_inv size_is_pow2_pos)
  have cap: "sq_capacity (new_SPSCQueue n d) = n - 1"
    by (simp add: sq_capacity_def sq_Size_def new_SPSCQueue_def)
  from sq.fifo_run_fifo [OF n(1) assms(2)] sq.fifo_run_bounded [OF n(1) assms(2)]
  show ?thesis
    using n(2) by (simp add: sq_size_contents cap)
qed

theorem sq_fifo_witness:
  "\<exists>q. fifo_run sq_enqueue sq_dequeue
        [Enqueue 1, Enqueue 2, Dequeue, Enqueue 3, Enqueue 4, Enqueue 5, Dequeue]
        (new_SPSCQueue 4 (0 :: int)) = ([1, 2, 3, 4], [1, 2], q)
     \<and> sq_contents q = [3, 4]"
proof -
  let ?ops = "[Enqueue 1, Enqueue 2, Dequeue, Enqueue 3, Enqueue 4, Enqueue 5, Dequeue]"
  have pow: "size_is_pow2 4"
    by (simp add: size_is_pow2_def)
  have run: "fifo_run sq_enqueue sq_dequeue ?ops (new_SPSCQueue 4 (0 :: int)) =
      ([1, 2, 3, 4], [1, 2], \<lparr>sq_buffer = [1, 2, 3, 4], sq_head = 2, sq_tail = 0\<rparr>)"
    by code_simp
  from sq_fifo [OF pow run] run show ?thesis by auto
qed

end
