(* ===== verification/Message_Queue.thy ===== *)
theory Message_Queue
  imports Ring
begin

text \<open>
  \<open>subscriber/include/MessageQueue.h\<close>: the ring of message buffer pointers between the
  subscriber thread and the worker thread. First the operations as wholes, then the same
  operations split into their loads and stores, with the two threads interleaved.
\<close>

section \<open>The queue\<close>

record MessageQueue =
  mq_buffer :: "ptr list"
  mq_head :: size_t
  mq_tail :: size_t
  total_enqueued :: u64
  total_dequeued :: u64
  enqueue_failures :: u64

definition mq_Size :: "MessageQueue \<Rightarrow> nat" where
  "mq_Size q = length (mq_buffer q)"

text \<open>The three \<open>static_assert\<close>s.\<close>

definition mq_size_ok :: "nat \<Rightarrow> bool" where
  "mq_size_ok n \<longleftrightarrow> size_is_pow2 n \<and> 16 \<le> n \<and> n \<le> 65536"

definition new_MessageQueue :: "nat \<Rightarrow> MessageQueue" where
  "new_MessageQueue n =
     \<lparr>mq_buffer = replicate n nullptr, mq_head = 0, mq_tail = 0,
      total_enqueued = 0, total_dequeued = 0, enqueue_failures = 0\<rparr>"

definition mq_next :: "MessageQueue \<Rightarrow> size_t \<Rightarrow> size_t" where
  "mq_next q i = (i + 1) AND (of_nat (mq_Size q) - 1)"

definition mq_enqueue :: "MessageQueue \<Rightarrow> ptr \<Rightarrow> bool \<times> MessageQueue" where
  "mq_enqueue q buf =
     (if buf = nullptr then (False, q)
      else
        let current_tail = mq_tail q; next_tail = mq_next q current_tail
        in if next_tail = mq_head q
           then (False, q\<lparr>enqueue_failures := enqueue_failures q + 1\<rparr>)
           else (True, q\<lparr>mq_buffer := (mq_buffer q)[unat current_tail := buf],
                         mq_tail := next_tail,
                         total_enqueued := total_enqueued q + 1\<rparr>))"

definition mq_dequeue :: "MessageQueue \<Rightarrow> ptr option \<times> MessageQueue" where
  "mq_dequeue q =
     (let current_head = mq_head q
      in if current_head = mq_tail q then (None, q)
         else (Some (mq_buffer q ! unat current_head),
               q\<lparr>mq_buffer := (mq_buffer q)[unat current_head := nullptr],
                 mq_head := mq_next q current_head,
                 total_dequeued := total_dequeued q + 1\<rparr>))"

definition mq_size :: "MessageQueue \<Rightarrow> size_t" where
  "mq_size q = (mq_tail q - mq_head q) AND (of_nat (mq_Size q) - 1)"

definition mq_empty :: "MessageQueue \<Rightarrow> bool" where
  "mq_empty q \<longleftrightarrow> mq_head q = mq_tail q"

definition mq_full :: "MessageQueue \<Rightarrow> bool" where
  "mq_full q \<longleftrightarrow> mq_next q (mq_tail q) = mq_head q"

definition mq_capacity :: "MessageQueue \<Rightarrow> nat" where
  "mq_capacity q = mq_Size q - 1"

definition mq_clear :: "MessageQueue \<Rightarrow> MessageQueue" where
  "mq_clear q = q\<lparr>mq_head := 0, mq_tail := 0\<rparr>"

section \<open>Invariant and abstraction\<close>

definition mq_inv :: "MessageQueue \<Rightarrow> bool" where
  "mq_inv q \<longleftrightarrow> size_is_pow2 (mq_Size q) \<and> unat (mq_head q) < mq_Size q \<and> unat (mq_tail q) < mq_Size q"

definition mq_contents :: "MessageQueue \<Rightarrow> ptr list" where
  "mq_contents q = ring_list (mq_buffer q) (unat (mq_head q)) (unat (mq_tail q))"

lemma unat_mq_next: "mq_inv q \<Longrightarrow> unat (mq_next q x) = (unat x + 1) mod mq_Size q"
  by (simp add: mq_next_def mq_inv_def unat_next_index)

lemma mq_new_inv [inv_intros]: "size_is_pow2 n \<Longrightarrow> mq_inv (new_MessageQueue n)"
  by (simp add: mq_inv_def new_MessageQueue_def mq_Size_def size_is_pow2_def)

lemma mq_next_eq_head_iff:
  assumes "mq_inv q"
  shows "mq_next q (mq_tail q) = mq_head q \<longleftrightarrow> (unat (mq_tail q) + 1) mod mq_Size q = unat (mq_head q)"
  using unat_mq_next [OF assms, of "mq_tail q"] by (simp add: word_unat_eq_iff)

lemma mq_full_iff:
  "mq_inv q \<Longrightarrow> mq_full q \<longleftrightarrow> length (mq_contents q) = mq_capacity q"
  using ring_full_iff [of "unat (mq_head q)" "mq_Size q" "unat (mq_tail q)"]
  by (simp add: mq_full_def mq_next_eq_head_iff mq_inv_def mq_contents_def mq_capacity_def mq_Size_def)

lemma mq_length_contents: "mq_inv q \<Longrightarrow> length (mq_contents q) \<le> mq_capacity q"
  using ring_count_less [of "mq_Size q" "unat (mq_head q)" "unat (mq_tail q)"]
  by (simp add: mq_contents_def mq_inv_def mq_capacity_def mq_Size_def size_is_pow2_def
      del: length_greater_0_conv)

lemma mq_size_contents: "mq_inv q \<Longrightarrow> unat (mq_size q) = length (mq_contents q)"
  by (simp add: mq_size_def mq_inv_def mq_contents_def mq_Size_def unat_index_diff ring_count_def)

lemma mq_enqueue_accepts:
  "mq_inv q \<Longrightarrow> fst (mq_enqueue q x) \<longleftrightarrow> x \<noteq> nullptr \<and> length (mq_contents q) < mq_capacity q"
  using mq_full_iff [of q] mq_length_contents [of q]
  by (auto simp: mq_enqueue_def mq_full_def Let_def)

lemma mq_enqueue_inv [inv_intros]: "mq_inv q \<Longrightarrow> mq_inv (snd (mq_enqueue q x))"
  using unat_mq_next [of q "mq_tail q"]
  by (auto simp: mq_enqueue_def Let_def mq_inv_def mq_Size_def size_is_pow2_def)

lemma mq_dequeue_inv [inv_intros]: "mq_inv q \<Longrightarrow> mq_inv (snd (mq_dequeue q))"
  using unat_mq_next [of q "mq_head q"]
  by (auto simp: mq_dequeue_def Let_def mq_inv_def mq_Size_def size_is_pow2_def)

lemma mq_enqueue_contents:
  assumes "mq_inv q"
  shows "mq_contents (snd (mq_enqueue q x)) =
    (if fst (mq_enqueue q x) then mq_contents q @ [x] else mq_contents q)"
proof (cases "x = nullptr \<or> mq_next q (mq_tail q) = mq_head q")
  case True
  then show ?thesis by (auto simp: mq_enqueue_def mq_contents_def Let_def)
next
  case False
  then show ?thesis
    using assms ring_list_enq [of "unat (mq_head q)" "mq_buffer q" "unat (mq_tail q)" x]
    by (simp add: mq_enqueue_def Let_def mq_contents_def unat_mq_next mq_next_eq_head_iff)
       (simp add: mq_inv_def mq_Size_def)
qed

lemma mq_dequeue_cases:
  assumes "mq_inv q"
  shows "fst (mq_dequeue q) = (if mq_contents q = [] then None else Some (hd (mq_contents q)))
     \<and> mq_contents (snd (mq_dequeue q)) = tl (mq_contents q)"
proof (cases "mq_head q = mq_tail q")
  case True
  then show ?thesis
    using assms by (simp add: mq_dequeue_def mq_contents_def mq_inv_def mq_Size_def)
next
  case False
  then have ne: "unat (mq_head q) \<noteq> unat (mq_tail q)"
    by (simp add: word_unat_eq_iff)
  have b: "unat (mq_head q) < length (mq_buffer q)" "unat (mq_tail q) < length (mq_buffer q)"
    using assms by (simp_all add: mq_inv_def mq_Size_def)
  show ?thesis
    using False assms ring_list_deq [OF b ne] ring_list_clear [OF b ne, of nullptr]
    by (simp add: mq_dequeue_def Let_def mq_contents_def unat_mq_next) (simp add: mq_Size_def)
qed

lemma mq_capacity_ops:
  "mq_capacity (snd (mq_enqueue q x)) = mq_capacity q" "mq_capacity (snd (mq_dequeue q)) = mq_capacity q"
  by (simp_all add: mq_enqueue_def mq_dequeue_def mq_capacity_def mq_Size_def Let_def)

interpretation mq: bounded_fifo mq_enqueue mq_dequeue mq_contents mq_inv mq_capacity
    "\<lambda>buf. buf \<noteq> nullptr"
  by unfold_locales
     (simp_all add: mq_enqueue_accepts mq_enqueue_contents mq_dequeue_cases mq_enqueue_inv
        mq_dequeue_inv mq_capacity_ops mq_length_contents)

lemma mq_contents_new [simp]: "0 < n \<Longrightarrow> mq_contents (new_MessageQueue n) = []"
  by (simp add: mq_contents_def new_MessageQueue_def)

text \<open>Nothing but enqueued pointers is ever in the queue.\<close>

lemma mq_clear_contents: "mq_inv q \<Longrightarrow> mq_contents (mq_clear q) = [] \<and> mq_inv (mq_clear q)"
  by (auto simp: mq_clear_def mq_contents_def mq_inv_def mq_Size_def size_is_pow2_def)

section \<open>Statistics\<close>

text \<open>The counters are 64-bit words: the difference of the first two is the size modulo \<open>2^64\<close>.\<close>

definition mq_counted :: "MessageQueue \<Rightarrow> bool" where
  "mq_counted q \<longleftrightarrow> total_enqueued q - total_dequeued q = of_nat (length (mq_contents q))"

lemma mq_counted_enqueue:
  assumes "mq_inv q" and "mq_counted q"
  shows "mq_counted (snd (mq_enqueue q x))"
proof -
  have tot: "total_enqueued (snd (mq_enqueue q x)) = total_enqueued q + of_bool (fst (mq_enqueue q x))"
    "total_dequeued (snd (mq_enqueue q x)) = total_dequeued q"
    by (simp_all add: mq_enqueue_def Let_def)
  show ?thesis
    using assms mq_enqueue_contents [OF assms(1), of x]
    by (auto simp: mq_counted_def tot algebra_simps)
qed

lemma mq_counted_dequeue:
  assumes "mq_inv q" and "mq_counted q"
  shows "mq_counted (snd (mq_dequeue q))"
proof -
  have tot: "total_dequeued (snd (mq_dequeue q)) = total_dequeued q + of_bool (fst (mq_dequeue q) \<noteq> None)"
    "total_enqueued (snd (mq_dequeue q)) = total_enqueued q"
    by (simp_all add: mq_dequeue_def Let_def)
  show ?thesis
    using assms mq_dequeue_cases [OF assms(1)]
    by (cases "mq_contents q") (auto simp: mq_counted_def tot algebra_simps)
qed

lemma mq_run_counts:
  assumes "mq_inv q" and "fifo_run mq_enqueue mq_dequeue ops q = (ins, outs, q')"
  shows "total_enqueued q' = total_enqueued q + of_nat (length ins)
     \<and> total_dequeued q' = total_dequeued q + of_nat (length outs) \<and> nullptr \<notin> set ins"
  using assms
proof (induction ops arbitrary: q ins outs q')
  case Nil
  then show ?case by simp
next
  case (Cons x ops)
  show ?case
  proof (cases x)
    case (Enqueue a)
    obtain ok q1 where e: "mq_enqueue q a = (ok, q1)" by fastforce
    obtain i ou q2 where r: "fifo_run mq_enqueue mq_dequeue ops q1 = (i, ou, q2)"
      by (metis prod_cases3)
    have "mq_inv q1" and c: "total_enqueued q1 = total_enqueued q + of_bool ok"
      "total_dequeued q1 = total_dequeued q" "ok \<longrightarrow> a \<noteq> nullptr"
      using e Cons.prems(1) mq_enqueue_inv [of q a]
      by (auto simp: mq_enqueue_def Let_def split: if_splits)
    with Cons.IH [of q1 i ou] r Cons.prems(2) Enqueue e show ?thesis
      by (cases ok) auto
  next
    case Dequeue
    obtain d q1 where e: "mq_dequeue q = (d, q1)" by fastforce
    obtain i ou q2 where r: "fifo_run mq_enqueue mq_dequeue ops q1 = (i, ou, q2)"
      by (metis prod_cases3)
    have "mq_inv q1" and c: "total_dequeued q1 = total_dequeued q + of_bool (d \<noteq> None)"
      "total_enqueued q1 = total_enqueued q"
      using e Cons.prems(1) mq_dequeue_inv [of q]
      by (auto simp: mq_dequeue_def Let_def split: if_splits)
    with Cons.IH [of q1 i ou] r Cons.prems(2) Dequeue e show ?thesis
      by (cases d) auto
  qed
qed

section \<open>Properties of whole operations\<close>

text \<open>First in, first out, with exact statistics: for every sequence of calls on a new message
  queue, the accepted pointers (never null) are the delivered ones followed by those still
  queued, the two counters are the numbers of accepted and delivered pointers, and \<open>size()\<close>
  is the number queued, at most \<open>Size - 1\<close>.\<close>

theorem mq_fifo:
  assumes "mq_size_ok n"
    and "fifo_run mq_enqueue mq_dequeue ops (new_MessageQueue n) = (ins, outs, q)"
  shows "ins = outs @ mq_contents q \<and> nullptr \<notin> set ins
     \<and> total_enqueued q = of_nat (length ins) \<and> total_dequeued q = of_nat (length outs)
     \<and> unat (mq_size q) = length (mq_contents q) \<and> length (mq_contents q) \<le> n - 1"
proof -
  have n: "mq_inv (new_MessageQueue n)" "0 < n"
    using assms(1) by (simp_all add: mq_size_ok_def mq_new_inv size_is_pow2_pos)
  have cap: "mq_capacity (new_MessageQueue n) = n - 1"
    and tot: "total_enqueued (new_MessageQueue n) = 0" "total_dequeued (new_MessageQueue n) = 0"
    by (simp_all add: mq_capacity_def mq_Size_def new_MessageQueue_def)
  from mq.fifo_run_fifo [OF n(1) assms(2)] mq.fifo_run_bounded [OF n(1) assms(2)]
    mq_run_counts [OF n(1) assms(2)]
  show ?thesis
    using n(2) by (simp add: mq_size_contents cap tot)
qed

theorem mq_fifo_witness:
  "\<exists>q. fifo_run mq_enqueue mq_dequeue [Enqueue 64, Enqueue 0, Enqueue 128, Dequeue, Dequeue, Dequeue, Enqueue 192]
        (new_MessageQueue 16) = ([64, 128, 192], [64, 128], q)
     \<and> mq_contents q = [192] \<and> total_enqueued q = 3"
proof -
  let ?ops = "[Enqueue 64, Enqueue 0, Enqueue 128, Dequeue, Dequeue, Dequeue, Enqueue 192]"
  have ok: "mq_size_ok 16"
    by (simp add: mq_size_ok_def size_is_pow2_def)
  have run: "fifo_run mq_enqueue mq_dequeue ?ops (new_MessageQueue 16) =
      ([64, 128, 192], [64, 128],
       \<lparr>mq_buffer = [0, 0, 192, 0, 0, 0, 0, 0, 0, 0, 0, 0, 0, 0, 0, 0], mq_head = 2, mq_tail = 3,
        total_enqueued = 3, total_dequeued = 2, enqueue_failures = 0\<rparr>)"
    by code_simp
  from mq_fifo [OF ok run] run show ?thesis by auto
qed

end
