(* ===== verification/Message_Queue_Steps.thy ===== *)
theory Message_Queue_Steps
  imports Message_Queue
begin

text \<open>
  The operations of \<open>MessageQueue\<close> split into their loads and stores, with one producer and
  one consumer interleaved in any order. Each step is one access to a shared variable; the
  release and acquire orders of the code make the accesses of the other thread visible in
  this order, so the interleaving is over a sequentially consistent memory.
  \<open>sent\<close> and \<open>received\<close> record, for the proofs only, the pointers published and taken.
\<close>

section \<open>The two threads\<close>

datatype producer_pc =
    P_Idle
  | P_LoadHead ptr size_t size_t
  | P_Fail
  | P_Store ptr size_t size_t
  | P_Publish ptr size_t
  | P_Count

datatype consumer_pc =
    C_Idle
  | C_LoadTail size_t
  | C_Read size_t
  | C_Clear ptr size_t
  | C_Publish ptr size_t
  | C_Count ptr

record mq_threads =
  ring :: MessageQueue
  producer :: producer_pc
  consumer :: consumer_pc
  sent :: "ptr list"
  received :: "ptr list"

definition mq_threads_init :: "nat \<Rightarrow> mq_threads" where
  "mq_threads_init n =
     \<lparr>ring = new_MessageQueue n, producer = P_Idle, consumer = C_Idle, sent = [], received = []\<rparr>"

text \<open>\<open>enqueue(buf)\<close> with \<open>buf\<close> not null; for null it returns before it touches the queue.\<close>

inductive producer_step :: "mq_threads \<Rightarrow> mq_threads \<Rightarrow> bool" where
  p_load_tail: "producer s = P_Idle \<Longrightarrow> buf \<noteq> nullptr \<Longrightarrow>
     producer_step s
       (s\<lparr>producer := P_LoadHead buf (mq_tail (ring s)) (mq_next (ring s) (mq_tail (ring s)))\<rparr>)"
| p_full: "producer s = P_LoadHead buf t n \<Longrightarrow> n = mq_head (ring s) \<Longrightarrow>
     producer_step s (s\<lparr>producer := P_Fail\<rparr>)"
| p_fail: "producer s = P_Fail \<Longrightarrow>
     producer_step s
       (s\<lparr>ring := (ring s)\<lparr>enqueue_failures := enqueue_failures (ring s) + 1\<rparr>, producer := P_Idle\<rparr>)"
| p_room: "producer s = P_LoadHead buf t n \<Longrightarrow> n \<noteq> mq_head (ring s) \<Longrightarrow>
     producer_step s (s\<lparr>producer := P_Store buf t n\<rparr>)"
| p_store: "producer s = P_Store buf t n \<Longrightarrow>
     producer_step s
       (s\<lparr>ring := (ring s)\<lparr>mq_buffer := (mq_buffer (ring s))[unat t := buf]\<rparr>,
          producer := P_Publish buf n\<rparr>)"
| p_publish: "producer s = P_Publish buf n \<Longrightarrow>
     producer_step s
       (s\<lparr>ring := (ring s)\<lparr>mq_tail := n\<rparr>, producer := P_Count, sent := sent s @ [buf]\<rparr>)"
| p_count: "producer s = P_Count \<Longrightarrow>
     producer_step s
       (s\<lparr>ring := (ring s)\<lparr>total_enqueued := total_enqueued (ring s) + 1\<rparr>, producer := P_Idle\<rparr>)"

inductive consumer_step :: "mq_threads \<Rightarrow> mq_threads \<Rightarrow> bool" where
  c_load_head: "consumer s = C_Idle \<Longrightarrow>
     consumer_step s (s\<lparr>consumer := C_LoadTail (mq_head (ring s))\<rparr>)"
| c_empty: "consumer s = C_LoadTail h \<Longrightarrow> h = mq_tail (ring s) \<Longrightarrow>
     consumer_step s (s\<lparr>consumer := C_Idle\<rparr>)"
| c_some: "consumer s = C_LoadTail h \<Longrightarrow> h \<noteq> mq_tail (ring s) \<Longrightarrow>
     consumer_step s (s\<lparr>consumer := C_Read h\<rparr>)"
| c_read: "consumer s = C_Read h \<Longrightarrow>
     consumer_step s (s\<lparr>consumer := C_Clear (mq_buffer (ring s) ! unat h) h\<rparr>)"
| c_clear: "consumer s = C_Clear buf h \<Longrightarrow>
     consumer_step s
       (s\<lparr>ring := (ring s)\<lparr>mq_buffer := (mq_buffer (ring s))[unat h := nullptr]\<rparr>,
          consumer := C_Publish buf h\<rparr>)"
| c_publish: "consumer s = C_Publish buf h \<Longrightarrow>
     consumer_step s
       (s\<lparr>ring := (ring s)\<lparr>mq_head := mq_next (ring s) h\<rparr>, consumer := C_Count buf,
          received := received s @ [buf]\<rparr>)"
| c_count: "consumer s = C_Count buf \<Longrightarrow>
     consumer_step s
       (s\<lparr>ring := (ring s)\<lparr>total_dequeued := total_dequeued (ring s) + 1\<rparr>, consumer := C_Idle\<rparr>)"

inductive mq_reachable :: "nat \<Rightarrow> mq_threads \<Rightarrow> bool" for n where
  mq_start: "mq_reachable n (mq_threads_init n)"
| mq_producer: "mq_reachable n s \<Longrightarrow> producer_step s t \<Longrightarrow> mq_reachable n t"
| mq_consumer: "mq_reachable n s \<Longrightarrow> consumer_step s t \<Longrightarrow> mq_reachable n t"

section \<open>The invariant\<close>

text \<open>What each program point knows.\<close>

fun producer_ok :: "MessageQueue \<Rightarrow> producer_pc \<Rightarrow> bool" where
  "producer_ok q (P_LoadHead buf t n) \<longleftrightarrow> buf \<noteq> nullptr \<and> t = mq_tail q \<and> n = mq_next q t"
| "producer_ok q (P_Store buf t n) \<longleftrightarrow>
     buf \<noteq> nullptr \<and> t = mq_tail q \<and> n = mq_next q t \<and> n \<noteq> mq_head q"
| "producer_ok q (P_Publish buf n) \<longleftrightarrow>
     buf \<noteq> nullptr \<and> n = mq_next q (mq_tail q) \<and> n \<noteq> mq_head q
     \<and> mq_buffer q ! unat (mq_tail q) = buf"
| "producer_ok q _ \<longleftrightarrow> True"

fun consumer_ok :: "MessageQueue \<Rightarrow> ptr list \<Rightarrow> consumer_pc \<Rightarrow> bool" where
  "consumer_ok q pending (C_LoadTail h) \<longleftrightarrow> h = mq_head q"
| "consumer_ok q pending (C_Read h) \<longleftrightarrow> h = mq_head q \<and> h \<noteq> mq_tail q"
| "consumer_ok q pending (C_Clear buf h) \<longleftrightarrow> h = mq_head q \<and> h \<noteq> mq_tail q \<and> buf = hd pending"
| "consumer_ok q pending (C_Publish buf h) \<longleftrightarrow> h = mq_head q \<and> h \<noteq> mq_tail q \<and> buf = hd pending"
| "consumer_ok q pending _ \<longleftrightarrow> True"

text \<open>
  The ring holds what was sent and not yet received; while the consumer is between
  clearing a slot and moving the head, the first slot is already blank.
\<close>

definition ring_holds :: "MessageQueue \<Rightarrow> consumer_pc \<Rightarrow> ptr list \<Rightarrow> bool" where
  "ring_holds q c pending \<longleftrightarrow>
     length (mq_contents q) = length pending
     \<and> (case c of C_Publish _ _ \<Rightarrow> tl (mq_contents q) = tl pending | _ \<Rightarrow> mq_contents q = pending)"

definition pending_ok :: "mq_threads \<Rightarrow> ptr list \<Rightarrow> bool" where
  "pending_ok s pending \<longleftrightarrow>
     sent s = received s @ pending \<and> nullptr \<notin> set (received s) \<and> nullptr \<notin> set pending
     \<and> ring_holds (ring s) (consumer s) pending \<and> consumer_ok (ring s) pending (consumer s)"

definition mq_threads_inv :: "nat \<Rightarrow> mq_threads \<Rightarrow> bool" where
  "mq_threads_inv n s \<longleftrightarrow>
     mq_inv (ring s) \<and> mq_Size (ring s) = n \<and> producer_ok (ring s) (producer s)
     \<and> (\<exists>pending. pending_ok s pending)"

section \<open>One access at a time\<close>

lemma mq_bounds:
  "mq_inv q \<Longrightarrow> unat (mq_head q) < length (mq_buffer q) \<and> unat (mq_tail q) < length (mq_buffer q)"
  by (simp add: mq_inv_def mq_Size_def)

lemma mq_Size_simps [simp]:
  "mq_Size (q\<lparr>mq_head := h\<rparr>) = mq_Size q" "mq_Size (q\<lparr>mq_tail := t\<rparr>) = mq_Size q"
  "mq_Size (q\<lparr>mq_buffer := (mq_buffer q)[i := x]\<rparr>) = mq_Size q"
  "mq_Size (q\<lparr>total_enqueued := c\<rparr>) = mq_Size q" "mq_Size (q\<lparr>total_dequeued := c\<rparr>) = mq_Size q"
  "mq_Size (q\<lparr>enqueue_failures := c\<rparr>) = mq_Size q"
  by (simp_all add: mq_Size_def)

lemma mq_next_simps [simp]:
  "mq_next (q\<lparr>mq_head := h\<rparr>) = mq_next q" "mq_next (q\<lparr>mq_tail := t\<rparr>) = mq_next q"
  "mq_next (q\<lparr>mq_buffer := (mq_buffer q)[i := x]\<rparr>) = mq_next q"
  "mq_next (q\<lparr>total_enqueued := c\<rparr>) = mq_next q" "mq_next (q\<lparr>total_dequeued := c\<rparr>) = mq_next q"
  "mq_next (q\<lparr>enqueue_failures := c\<rparr>) = mq_next q"
  by (simp_all add: mq_next_def fun_eq_iff)

lemma mq_counter_simps [simp]:
  "mq_contents (q\<lparr>total_enqueued := c\<rparr>) = mq_contents q"
  "mq_contents (q\<lparr>total_dequeued := c\<rparr>) = mq_contents q"
  "mq_contents (q\<lparr>enqueue_failures := c\<rparr>) = mq_contents q"
  "mq_inv (q\<lparr>total_enqueued := c\<rparr>) = mq_inv q" "mq_inv (q\<lparr>total_dequeued := c\<rparr>) = mq_inv q"
  "mq_inv (q\<lparr>enqueue_failures := c\<rparr>) = mq_inv q"
  "mq_inv (q\<lparr>mq_buffer := (mq_buffer q)[i := x]\<rparr>) = mq_inv q"
  by (simp_all add: mq_contents_def mq_inv_def)

lemma mq_inv_head [simp]: "mq_inv q \<Longrightarrow> mq_inv (q\<lparr>mq_head := mq_next q i\<rparr>)"
  and mq_inv_tail [simp]: "mq_inv q \<Longrightarrow> mq_inv (q\<lparr>mq_tail := mq_next q i\<rparr>)"
  using unat_mq_next [of q i] by (auto simp: mq_inv_def size_is_pow2_pos)

lemma store_tail_contents:
  "mq_inv q \<Longrightarrow> mq_contents (q\<lparr>mq_buffer := (mq_buffer q)[unat (mq_tail q) := x]\<rparr>) = mq_contents q"
  using mq_bounds [of q] by (simp add: mq_contents_def ring_list_update_tail)

lemma advance_tail_contents:
  assumes "mq_inv q" and "mq_next q (mq_tail q) \<noteq> mq_head q"
  shows "mq_contents (q\<lparr>mq_tail := mq_next q (mq_tail q)\<rparr>)
     = mq_contents q @ [mq_buffer q ! unat (mq_tail q)]"
proof -
  have "(unat (mq_tail q) + 1) mod mq_Size q \<noteq> unat (mq_head q)"
    using assms by (simp add: mq_next_eq_head_iff)
  then show ?thesis
    using assms(1) mq_bounds [of q]
      ring_list_advance_tail [of "unat (mq_head q)" "mq_buffer q" "unat (mq_tail q)"]
    by (simp add: mq_contents_def unat_mq_next mq_Size_def)
qed

lemma clear_head_contents:
  "mq_inv q \<Longrightarrow>
   tl (mq_contents (q\<lparr>mq_buffer := (mq_buffer q)[unat (mq_head q) := x]\<rparr>)) = tl (mq_contents q)"
  using mq_bounds [of q] by (simp add: mq_contents_def tl_ring_list_update_head)

lemma length_store_contents [simp]:
  "length (mq_contents (q\<lparr>mq_buffer := (mq_buffer q)[i := x]\<rparr>)) = length (mq_contents q)"
  by (simp add: mq_contents_def)

lemma advance_head_contents:
  assumes "mq_inv q" and "mq_head q \<noteq> mq_tail q"
  shows "mq_contents (q\<lparr>mq_head := mq_next q (mq_head q)\<rparr>) = tl (mq_contents q)"
    and "hd (mq_contents q) = mq_buffer q ! unat (mq_head q)"
    and "mq_contents q \<noteq> []"
proof -
  have "unat (mq_head q) \<noteq> unat (mq_tail q)"
    using assms(2) by (simp add: word_unat_eq_iff)
  then have deq: "mq_contents q = mq_buffer q ! unat (mq_head q)
      # mq_contents (q\<lparr>mq_head := mq_next q (mq_head q)\<rparr>)"
    using assms(1) mq_bounds [of q]
      ring_list_deq [of "unat (mq_head q)" "mq_buffer q" "unat (mq_tail q)"]
    by (simp add: mq_contents_def unat_mq_next mq_Size_def)
  then show "mq_contents (q\<lparr>mq_head := mq_next q (mq_head q)\<rparr>) = tl (mq_contents q)"
    and "hd (mq_contents q) = mq_buffer q ! unat (mq_head q)" and "mq_contents q \<noteq> []"
    by (metis list.sel(3), metis list.sel(1), simp)
qed

lemma mq_next_inject:
  assumes "mq_inv q" and "unat x < mq_Size q" and "unat y < mq_Size q"
  shows "mq_next q x = mq_next q y \<longleftrightarrow> x = y"
proof
  assume "mq_next q x = mq_next q y"
  then have "(unat x + 1) mod mq_Size q = (unat y + 1) mod mq_Size q"
    using unat_mq_next [OF assms(1), of x] unat_mq_next [OF assms(1), of y] by simp
  then have "unat x = unat y"
    using assms(2,3) by (simp add: mod_Suc split: if_splits)
  then show "x = y"
    by (simp add: word_unat_eq_iff)
qed simp

section \<open>The steps keep the invariant\<close>

lemma ring_holds_Publish [simp]:
  "ring_holds q (C_Publish b h) pending
     \<longleftrightarrow> length (mq_contents q) = length pending \<and> tl (mq_contents q) = tl pending"
  by (simp add: ring_holds_def)

lemma ring_holds_other:
  "(\<And>b h. c \<noteq> C_Publish b h) \<Longrightarrow> ring_holds q c pending \<longleftrightarrow> mq_contents q = pending"
  by (auto simp: ring_holds_def split: consumer_pc.splits)

lemma ring_holds_cong:
  "mq_contents q = mq_contents q' \<Longrightarrow> ring_holds q c pending = ring_holds q' c pending"
  by (simp add: ring_holds_def split: consumer_pc.split)

lemma ring_holds_extend:
  assumes "ring_holds q c pending" and "mq_contents q' = mq_contents q @ [x]"
    and "consumer_ok q pending c" and "mq_inv q"
  shows "ring_holds q' c (pending @ [x])"
proof (cases c)
  case (C_Publish b h)
  then have "mq_contents q \<noteq> []"
    using assms advance_head_contents(3) [of q] by auto
  then show ?thesis
    using assms C_Publish by (cases pending) (auto simp: tl_append split: list.splits)
qed (use assms in \<open>auto simp: ring_holds_def\<close>)

lemma consumer_ok_extend:
  assumes "consumer_ok q pending c" and "ring_holds q c pending" and "mq_inv q"
    and "mq_head q' = mq_head q" and "mq_tail q' \<noteq> mq_head q"
  shows "consumer_ok q' (pending @ [x]) c"
proof -
  have "pending \<noteq> []" if "mq_head q \<noteq> mq_tail q"
    using that assms advance_head_contents(3) [of q]
    by (auto simp: ring_holds_def split: consumer_pc.splits)
  then show ?thesis
    using assms by (cases c) auto
qed

lemma mq_threads_inv_init: "size_is_pow2 n \<Longrightarrow> mq_threads_inv n (mq_threads_init n)"
  using mq_new_inv [of n]
  by (auto simp: mq_threads_inv_def mq_threads_init_def pending_ok_def ring_holds_def size_is_pow2_pos)
     (simp add: mq_Size_def new_MessageQueue_def)

text \<open>A step of one thread that leaves indices and slots alone.\<close>

lemma consumer_ok_cong:
  "mq_head q' = mq_head q \<Longrightarrow> mq_tail q' = mq_tail q \<Longrightarrow> consumer_ok q' pending c = consumer_ok q pending c"
  by (cases c) simp_all

lemma producer_ok_counters [simp]:
  "producer_ok (q\<lparr>total_enqueued := k\<rparr>) = producer_ok q"
  "producer_ok (q\<lparr>total_dequeued := k\<rparr>) = producer_ok q"
  "producer_ok (q\<lparr>enqueue_failures := k\<rparr>) = producer_ok q"
proof -
  show "producer_ok (q\<lparr>total_enqueued := k\<rparr>) = producer_ok q"
    by (rule ext) (case_tac x; simp)
  show "producer_ok (q\<lparr>total_dequeued := k\<rparr>) = producer_ok q"
    by (rule ext) (case_tac x; simp)
  show "producer_ok (q\<lparr>enqueue_failures := k\<rparr>) = producer_ok q"
    by (rule ext) (case_tac x; simp)
qed

lemma pending_ok_ring:
  assumes "pending_ok s pending" and "mq_contents q = mq_contents (ring s)"
    and "mq_head q = mq_head (ring s)" and "mq_tail q = mq_tail (ring s)"
  shows "pending_ok (s\<lparr>ring := q\<rparr>) pending"
  using assms consumer_ok_cong [of q "ring s"] ring_holds_cong [of q "ring s"]
  by (simp add: pending_ok_def)

lemma pending_ok_producer [simp]: "pending_ok (s\<lparr>producer := p\<rparr>) pending = pending_ok s pending"
  by (simp add: pending_ok_def)

lemma producer_step_inv:
  assumes "producer_step s t" and "mq_threads_inv n s"
  shows "mq_threads_inv n t"
proof -
  from assms(2) obtain pending where inv: "mq_inv (ring s)" "mq_Size (ring s) = n"
    "producer_ok (ring s) (producer s)" and pend: "pending_ok s pending"
    by (auto simp: mq_threads_inv_def)
  from assms(1) show ?thesis
  proof cases
    case (p_store buf i m)
    with inv have i: "i = mq_tail (ring s)" and b: "unat (mq_tail (ring s)) < length (mq_buffer (ring s))"
      using mq_bounds by auto
    have "pending_ok t pending"
      using pending_ok_ring [OF pend] by (simp add: p_store(1) i inv store_tail_contents)
    then show ?thesis
      using inv p_store i b by (auto simp: mq_threads_inv_def)
  next
    case (p_publish buf m)
    with inv have m: "m = mq_next (ring s) (mq_tail (ring s))" "m \<noteq> mq_head (ring s)" "buf \<noteq> nullptr"
      "mq_buffer (ring s) ! unat (mq_tail (ring s)) = buf" by auto
    have ext: "mq_contents ((ring s)\<lparr>mq_tail := m\<rparr>) = mq_contents (ring s) @ [buf]"
      using advance_tail_contents [OF inv(1)] m by simp
    have "pending_ok t (pending @ [buf])"
      using pend m inv(1) ring_holds_extend [OF _ ext, of "consumer s" pending]
        consumer_ok_extend [of "ring s" pending "consumer s" "(ring s)\<lparr>mq_tail := m\<rparr>" buf]
      by (auto simp: pending_ok_def p_publish)
    then show ?thesis
      using inv p_publish m by (auto simp: mq_threads_inv_def)
  qed (use inv pend in \<open>auto simp: mq_threads_inv_def intro!: exI [of _ pending] pending_ok_ring\<close>)
qed

lemma pending_ok_consumer:
  assumes "pending_ok s pending" and "\<And>b h. consumer s \<noteq> C_Publish b h" and "\<And>b h. c \<noteq> C_Publish b h"
    and "mq_contents q = mq_contents (ring s)" and "consumer_ok q pending c"
  shows "pending_ok (s\<lparr>ring := q, consumer := c\<rparr>) pending"
  using assms by (simp add: pending_ok_def ring_holds_other)

lemma producer_ok_clear:
  assumes "producer_ok q p" and "mq_inv q" and "mq_head q \<noteq> mq_tail q"
  shows "producer_ok (q\<lparr>mq_buffer := (mq_buffer q)[unat (mq_head q) := x]\<rparr>) p"
proof -
  have "unat (mq_head q) \<noteq> unat (mq_tail q)"
    using assms(3) by (simp add: word_unat_eq_iff)
  then show ?thesis
    using assms by (cases p) auto
qed

lemma producer_ok_advance_head:
  assumes "producer_ok q p" and "mq_inv q" and "mq_head q \<noteq> mq_tail q"
  shows "producer_ok (q\<lparr>mq_head := mq_next q (mq_head q)\<rparr>) p"
proof -
  have "mq_next q (mq_tail q) \<noteq> mq_next q (mq_head q)"
    using assms mq_next_inject [of q "mq_tail q" "mq_head q"] by (simp add: mq_inv_def)
  then show ?thesis
    using assms by (cases p) auto
qed

lemma consumer_step_inv:
  assumes "consumer_step s t" and "mq_threads_inv n s"
  shows "mq_threads_inv n t"
proof -
  from assms(2) obtain pending where inv: "mq_inv (ring s)" "mq_Size (ring s) = n"
    "producer_ok (ring s) (producer s)" and pend: "pending_ok s pending"
    by (auto simp: mq_threads_inv_def)
  have holds: "mq_contents (ring s) = pending" if "\<And>b h. consumer s \<noteq> C_Publish b h"
    using that pend by (simp add: pending_ok_def ring_holds_other)
  from assms(1) show ?thesis
  proof cases
    case (c_read h)
    with pend have h: "h = mq_head (ring s)" "h \<noteq> mq_tail (ring s)"
      by (auto simp: pending_ok_def)
    then have "mq_buffer (ring s) ! unat h = hd pending"
      using advance_head_contents(2) [OF inv(1)] holds c_read by simp
    with h have "consumer_ok (ring s) pending (C_Clear (mq_buffer (ring s) ! unat h) h)"
      by simp
    with pend have "pending_ok t pending"
      using h c_read(2) by (simp add: pending_ok_def ring_holds_other c_read(1))
    then show ?thesis
      using inv c_read by (auto simp: mq_threads_inv_def)
  next
    case (c_clear buf h)
    with pend have h: "h = mq_head (ring s)" "h \<noteq> mq_tail (ring s)" "buf = hd pending"
      by (auto simp: pending_ok_def)
    have "pending_ok t pending"
      using pend h c_clear holds clear_head_contents [OF inv(1)] by (simp add: pending_ok_def)
    then show ?thesis
      using inv c_clear h producer_ok_clear [OF inv(3,1)] by (auto simp: mq_threads_inv_def)
  next
    case (c_publish buf h)
    with pend have h: "h = mq_head (ring s)" "h \<noteq> mq_tail (ring s)" "buf = hd pending"
      "length (mq_contents (ring s)) = length pending" "tl (mq_contents (ring s)) = tl pending"
      by (auto simp: pending_ok_def)
    then obtain x xs where ne: "pending = x # xs"
      using advance_head_contents(3) [OF inv(1)] by (cases pending) auto
    have "pending_ok t xs"
      using pend h c_publish ne advance_head_contents(1) [OF inv(1)]
      by (simp add: pending_ok_def ring_holds_other)
    then show ?thesis
      using inv c_publish h producer_ok_advance_head [OF inv(3,1)] by (auto simp: mq_threads_inv_def)
  qed (use inv pend holds in
      \<open>auto simp: mq_threads_inv_def pending_ok_def ring_holds_other intro!: exI [of _ pending]\<close>)
qed

lemma mq_reachable_inv:
  "mq_reachable n s \<Longrightarrow> size_is_pow2 n \<Longrightarrow> mq_threads_inv n s"
  by (induction rule: mq_reachable.induct)
     (auto intro: mq_threads_inv_init producer_step_inv consumer_step_inv)

section \<open>Progress of each thread\<close>

text \<open>How many accesses a call still has to make at most.\<close>

fun producer_left :: "producer_pc \<Rightarrow> nat" where
  "producer_left P_Idle = 0"
| "producer_left P_Count = 1"
| "producer_left P_Fail = 1"
| "producer_left (P_Publish _ _) = 2"
| "producer_left (P_Store _ _ _) = 3"
| "producer_left (P_LoadHead _ _ _) = 4"

fun consumer_left :: "consumer_pc \<Rightarrow> nat" where
  "consumer_left C_Idle = 0"
| "consumer_left (C_Count _) = 1"
| "consumer_left (C_Publish _ _) = 2"
| "consumer_left (C_Clear _ _) = 3"
| "consumer_left (C_Read _) = 4"
| "consumer_left (C_LoadTail _) = 5"

inductive_cases producer_stepE: "producer_step s t"
inductive_cases consumer_stepE: "consumer_step s t"

lemma consumer_step_frame: "consumer_step s t \<Longrightarrow> producer t = producer s"
  by (erule consumer_stepE) auto

lemma producer_step_frame: "producer_step s t \<Longrightarrow> consumer t = consumer s"
  by (erule producer_stepE) auto

lemma producer_enabled: "\<exists>t. producer_step s t"
proof (cases "producer s")
  case P_Idle
  then show ?thesis using p_load_tail [of s 1] by auto
next
  case (P_LoadHead b t n)
  then show ?thesis using p_full p_room by metis
qed (metis producer_step.intros)+

lemma consumer_enabled: "\<exists>t. consumer_step s t"
proof (cases "consumer s")
  case (C_LoadTail h)
  then show ?thesis using c_empty c_some by metis
qed (metis consumer_step.intros)+

section \<open>Properties of the interleaved operations\<close>

text \<open>C8: Whatever the interleaving of the producer's and the consumer's loads and stores, the
  pointers taken are a prefix of the pointers published, in order, without loss, duplication
  or null, and at most \<open>Size - 1\<close> are in flight.\<close>

theorem mq_threads_fifo:
  assumes "mq_size_ok n" and "mq_reachable n s"
  shows "\<exists>pending. sent s = received s @ pending \<and> length pending \<le> n - 1 \<and> nullptr \<notin> set (sent s)"
proof -
  have "mq_threads_inv n s"
    using assms mq_reachable_inv by (simp add: mq_size_ok_def)
  then obtain pending where "mq_inv (ring s)" "mq_Size (ring s) = n" "pending_ok s pending"
    by (auto simp: mq_threads_inv_def)
  then show ?thesis
    using mq_length_contents [of "ring s"]
    by (intro exI [of _ pending]) (auto simp: pending_ok_def ring_holds_def mq_capacity_def)
qed

text \<open>A run of both threads: two calls of \<open>enqueue\<close> overlapping one of \<open>dequeue\<close>.\<close>

lemma mq_size_ok_16: "mq_size_ok 16"
  by (simp add: mq_size_ok_def size_is_pow2_def)

lemma mq_run_16: "\<exists>s. mq_reachable 16 s \<and> sent s = [64] \<and> received s = [64]"
proof -
  let ?q = "new_MessageQueue 16"
  have next0: "mq_next ?q 0 = 1" and buf: "mq_buffer ?q = replicate 16 0"
    by (simp_all add: mq_next_def mq_Size_def new_MessageQueue_def)
  define s1 where "s1 = (mq_threads_init 16)\<lparr>producer := P_LoadHead 64 0 1\<rparr>"
  define s2 where "s2 = s1\<lparr>producer := P_Store 64 0 1\<rparr>"
  define s3 where "s3 = s2\<lparr>ring := ?q\<lparr>mq_buffer := (mq_buffer ?q)[0 := 64]\<rparr>, producer := P_Publish 64 1\<rparr>"
  define s4 where "s4 = s3\<lparr>ring := (ring s3)\<lparr>mq_tail := 1\<rparr>, producer := P_Count, sent := [64]\<rparr>"
  define s5 where "s5 = s4\<lparr>consumer := C_LoadTail 0\<rparr>"
  define s6 where "s6 = s5\<lparr>consumer := C_Read 0\<rparr>"
  define s7 where "s7 = s6\<lparr>consumer := C_Clear 64 0\<rparr>"
  define s8 where "s8 = s7\<lparr>ring := (ring s7)\<lparr>mq_buffer := (mq_buffer (ring s7))[0 := 0]\<rparr>,
    consumer := C_Publish 64 0\<rparr>"
  define s9 where "s9 = s8\<lparr>ring := (ring s8)\<lparr>mq_head := mq_next (ring s8) 0\<rparr>,
    consumer := C_Count 64, received := [64]\<rparr>"
  note defs = s1_def s2_def s3_def s4_def s5_def s6_def s7_def s8_def s9_def mq_threads_init_def
    new_MessageQueue_def
  have "producer_step (mq_threads_init 16) s1"
    using p_load_tail [of "mq_threads_init 16" 64] next0
    by (simp add: s1_def mq_threads_init_def) (simp add: new_MessageQueue_def)
  moreover have "producer_step s1 s2"
    using p_room [of s1 64 0 1] by (simp add: defs)
  moreover have "producer_step s2 s3"
    using p_store [of s2 64 0 1] by (simp add: defs)
  moreover have "producer_step s3 s4"
    using p_publish [of s3 64 1] by (simp add: defs)
  moreover have "consumer_step s4 s5"
    using c_load_head [of s4] by (simp add: defs)
  moreover have "consumer_step s5 s6"
    using c_some [of s5 0] by (simp add: defs)
  moreover have "consumer_step s6 s7"
    using c_read [of s6 0] by (simp add: defs)
  moreover have "consumer_step s7 s8"
    using c_clear [of s7 64 0] by (simp add: defs)
  moreover have "consumer_step s8 s9"
    using c_publish [of s8 64 0] by (simp add: defs)
  ultimately have "mq_reachable 16 s9"
    by (meson mq_start mq_producer mq_consumer)
  moreover have "sent s9 = [64] \<and> received s9 = [64]"
    by (simp add: defs)
  ultimately show ?thesis by blast
qed

theorem mq_threads_fifo_witness:
  "\<exists>s pending. mq_reachable 16 s \<and> received s = [64] \<and> sent s = received s @ pending
     \<and> length pending \<le> 15"
  using mq_run_16 mq_threads_fifo [OF mq_size_ok_16] by fastforce

text \<open>No data race on a slot: whenever the producer is about to store into a slot, the slot is
  not the one the consumer is about to read or to clear.\<close>

theorem mq_slots_race_free:
  assumes "mq_size_ok n" and "mq_reachable n s"
    and "producer s = P_Store buf t nxt"
    and "consumer s = C_Read h \<or> consumer s = C_Clear buf' h"
  shows "t \<noteq> h"
proof -
  have "mq_threads_inv n s"
    using assms mq_reachable_inv by (simp add: mq_size_ok_def)
  then show ?thesis
    using assms(3,4) by (auto simp: mq_threads_inv_def pending_ok_def)
qed

lemma mq_run_16_overlap:
  "\<exists>s. mq_reachable 16 s \<and> producer s = P_Store 128 1 2 \<and> consumer s = C_Read 0"
proof -
  have step1: "producer_step (mq_threads_init 16) ((mq_threads_init 16)\<lparr>producer := P_LoadHead 64 0 1\<rparr>)"
    using p_load_tail [of "mq_threads_init 16" 64]
    by (simp add: mq_threads_init_def) (simp add: new_MessageQueue_def mq_next_def mq_Size_def)
  define q1 where "q1 = (new_MessageQueue 16)\<lparr>mq_buffer := (replicate 16 0)[0 := 64]\<rparr>"
  define q2 where "q2 = q1\<lparr>mq_tail := 1, total_enqueued := 1\<rparr>"
  define st where "st q p c = \<lparr>ring = q, producer = p, consumer = c, sent = [64], received = []\<rparr>" for q p c
  have n: "mq_next (q1\<lparr>mq_tail := 1, total_enqueued := 1\<rparr>) 1 = 2"
    by (simp add: q1_def new_MessageQueue_def mq_next_def mq_Size_def)
  have a: "mq_reachable 16 ((mq_threads_init 16)\<lparr>producer := P_Store 64 0 1\<rparr>)"
    using mq_producer [OF mq_producer [OF mq_start step1] p_room [of _ 64 0 1]]
    by (simp add: mq_threads_init_def new_MessageQueue_def)
  have b: "mq_reachable 16 ((mq_threads_init 16)\<lparr>ring := q1, producer := P_Publish 64 1\<rparr>)"
    using mq_producer [OF a p_store [of _ 64 0 1]]
    by (simp add: q1_def mq_threads_init_def new_MessageQueue_def)
  have c: "mq_reachable 16 (st (q1\<lparr>mq_tail := 1\<rparr>) P_Count C_Idle)"
    using mq_producer [OF b p_publish [of _ 64 1]] by (simp add: st_def mq_threads_init_def)
  have d: "mq_reachable 16 (st q2 P_Idle C_Idle)"
    using mq_producer [OF c p_count]
    by (simp add: st_def q2_def) (simp add: q1_def new_MessageQueue_def)
  have e: "mq_reachable 16 (st q2 (P_LoadHead 128 1 2) C_Idle)"
    using mq_producer [OF d p_load_tail [of _ 128]] n by (simp add: st_def q2_def)
  have f: "mq_reachable 16 (st q2 (P_Store 128 1 2) C_Idle)"
    using mq_producer [OF e p_room [of _ 128 1 2]]
    by (simp add: st_def q2_def q1_def new_MessageQueue_def)
  have g: "mq_reachable 16 (st q2 (P_Store 128 1 2) (C_LoadTail 0))"
    using mq_consumer [OF f c_load_head] by (simp add: st_def q2_def q1_def new_MessageQueue_def)
  have "mq_reachable 16 (st q2 (P_Store 128 1 2) (C_Read 0))"
    using mq_consumer [OF g c_some [of _ 0]] by (simp add: st_def q2_def q1_def new_MessageQueue_def)
  then show ?thesis by (intro exI) (auto simp: st_def)
qed

theorem mq_slots_race_free_witness:
  "\<exists>s. mq_reachable 16 s \<and> producer s = P_Store 128 1 2 \<and> consumer s = C_Read 0
     \<and> (1 :: size_t) \<noteq> 0"
proof -
  obtain s where s: "mq_reachable 16 s" "producer s = P_Store 128 1 2" "consumer s = C_Read 0"
    using mq_run_16_overlap by blast
  from mq_slots_race_free [OF mq_size_ok_16 s(1,2), of 0] s show ?thesis by auto
qed

text \<open>C27: Wait-freedom: in every state both threads can take a step, each step of a pending call
  brings that call at least one access closer to its return, and no step of the other thread
  moves it away; a call makes at most five (\<open>enqueue\<close>) or six (\<open>dequeue\<close>) steps.\<close>

theorem mq_wait_free:
  "(\<exists>t. producer_step s t) \<and> (\<exists>t. consumer_step s t)
   \<and> producer_left (producer s) \<le> 4 \<and> consumer_left (consumer s) \<le> 5
   \<and> (\<forall>t. producer_step s t \<longrightarrow>
        consumer t = consumer s
        \<and> (producer s \<noteq> P_Idle \<longrightarrow> producer_left (producer t) < producer_left (producer s)))
   \<and> (\<forall>t. consumer_step s t \<longrightarrow>
        producer t = producer s
        \<and> (consumer s \<noteq> C_Idle \<longrightarrow> consumer_left (consumer t) < consumer_left (consumer s)))"
proof (intro conjI allI impI)
  show "\<exists>t. producer_step s t" by (rule producer_enabled)
  show "\<exists>t. consumer_step s t" by (rule consumer_enabled)
  show "producer_left (producer s) \<le> 4" by (cases "producer s") auto
  show "consumer_left (consumer s) \<le> 5" by (cases "consumer s") auto
next
  fix t
  assume "producer_step s t"
  then show "consumer t = consumer s" by (rule producer_step_frame)
next
  fix t
  assume "producer_step s t" "producer s \<noteq> P_Idle"
  then show "producer_left (producer t) < producer_left (producer s)"
    by (auto elim: producer_stepE)
next
  fix t
  assume "consumer_step s t"
  then show "producer t = producer s" by (rule consumer_step_frame)
next
  fix t
  assume "consumer_step s t" "consumer s \<noteq> C_Idle"
  then show "consumer_left (consumer t) < consumer_left (consumer s)"
    by (auto elim: consumer_stepE)
qed

theorem mq_wait_free_witness:
  "\<exists>t. producer_step (mq_threads_init 16) t \<and> consumer t = C_Idle"
proof -
  have "consumer (mq_threads_init 16) = C_Idle"
    by (simp add: mq_threads_init_def)
  then show ?thesis
    using mq_wait_free [of "mq_threads_init 16"] by metis
qed

end
