(* ===== verification/Crc32.thy ===== *)
theory Crc32
  imports Prelude
begin

text \<open>
  The CRC32 of \<open>common/include/MessageBuffer.h\<close>: the compile-time table, the byte loop,
  and the two facts that make it a checksum. The table-driven step is the eight bitwise
  steps it stands for, and the step is injective in the register and in the data, so a
  corruption that is confined to four consecutive bytes always changes the result.
\<close>

section \<open>The code\<close>

definition CRC32_POLYNOMIAL :: u32 where
  "CRC32_POLYNOMIAL = 0xEDB88320"

text \<open>One round of the loop of \<open>generateCRC32Entry\<close>.\<close>

definition crc_shift :: "u32 \<Rightarrow> u32" where
  "crc_shift crc = drop_bit 1 crc XOR (if crc AND 1 \<noteq> 0 then CRC32_POLYNOMIAL else 0)"

definition generateCRC32Entry :: "u8 \<Rightarrow> u32" where
  "generateCRC32Entry index = (crc_shift ^^ 8) (ucast index)"

definition CRC32_TABLE :: "u32 list" where
  "CRC32_TABLE = map (\<lambda>i. generateCRC32Entry (of_nat i)) [0..<256]"

text \<open>The body of the byte loops of \<open>calculateCRC32\<close> and \<open>calculateMessageCRC32\<close>.\<close>

definition crc_update :: "u32 \<Rightarrow> u8 \<Rightarrow> u32" where
  "crc_update crc b =
     (let index = ucast ((crc XOR ucast b) AND 0xFF) :: u8
      in drop_bit 8 crc XOR CRC32_TABLE ! unat index)"

text \<open>
  The first \<open>n\<close> bytes of \<open>data\<close> are read; the caller owns at least that many.
\<close>

definition calculateCRC32 :: "u8 list \<Rightarrow> nat \<Rightarrow> u32" where
  "calculateCRC32 data n = NOT (foldl crc_update 0xFFFFFFFF (take n data))"

section \<open>The bitwise reference\<close>

definition crc_bit_update :: "u32 \<Rightarrow> u8 \<Rightarrow> u32" where
  "crc_bit_update crc b = (crc_shift ^^ 8) (crc XOR ucast b)"

lemma and_1_neq_0_iff: "(x AND 1 \<noteq> 0) = bit (x :: 'a::len word) 0"
  by (simp add: and_one_eq odd_iff_mod_2_eq_one bit_0)

lemma crc_shift_alt:
  "crc_shift crc = drop_bit 1 crc XOR (if bit crc 0 then CRC32_POLYNOMIAL else 0)"
  by (simp only: crc_shift_def and_1_neq_0_iff)

lemma crc_shift_xor: "crc_shift (x XOR y) = crc_shift x XOR crc_shift y"
  by (rule bit_word_eqI) (auto simp: crc_shift_alt bit_simps)

lemma crc_shift_0 [simp]: "crc_shift 0 = 0"
  by (simp add: crc_shift_def)

lemma crc_shift_pow_xor: "(crc_shift ^^ n) (x XOR y) = (crc_shift ^^ n) x XOR (crc_shift ^^ n) y"
  by (induction n) (simp_all add: crc_shift_xor)

lemma crc_shift_pow_0 [simp]: "(crc_shift ^^ n) 0 = 0"
  by (induction n) simp_all

text \<open>The polynomial has its top bit set, so the bit that is shifted out can be read back.\<close>

lemma bit_31_crc_shift: "bit (crc_shift x) 31 = bit x 0"
proof -
  have "\<not> bit x 32"
    using bit_imp_le_length [of x 32] by auto
  then show ?thesis
    by (simp add: crc_shift_alt CRC32_POLYNOMIAL_def bit_simps)
qed

lemma crc_shift_eq_0_iff [simp]: "crc_shift x = 0 \<longleftrightarrow> x = 0"
proof
  assume z: "crc_shift x = 0"
  then have b0: "\<not> bit x 0"
    using bit_31_crc_shift [of x] by simp
  with z have d: "drop_bit 1 x = 0"
    by (simp add: crc_shift_alt)
  show "x = 0"
  proof (rule bit_word_eqI)
    fix i
    show "bit x i = bit (0 :: u32) i"
    proof (cases i)
      case 0
      with b0 show ?thesis by simp
    next
      case (Suc j)
      have "bit (drop_bit 1 x) j = bit (0 :: u32) j"
        by (simp only: d)
      with Suc show ?thesis
        by (simp add: bit_drop_bit_eq)
    qed
  qed
qed simp

lemma inj_crc_shift: "inj crc_shift"
proof (rule injI)
  fix x y
  assume "crc_shift x = crc_shift y"
  then have "crc_shift (x XOR y) = 0"
    by (simp add: crc_shift_xor)
  then show "x = y"
    by (simp add: xor_eq_0_iff_eq)
qed

lemma inj_crc_shift_pow: "inj (crc_shift ^^ n)"
proof (induction n)
  case 0
  then show ?case by simp
next
  case (Suc n)
  then show ?case
    by (simp only: funpow.simps) (rule inj_compose [OF inj_crc_shift])
qed

text \<open>Zero bits are shifted out one by one, without the polynomial.\<close>

lemma crc_shift_pow_low_zero:
  "take_bit n x = 0 \<Longrightarrow> (crc_shift ^^ n) x = drop_bit n x"
proof (induction n)
  case 0
  then show ?case by simp
next
  case (Suc n)
  have tz: "take_bit n x = 0"
    using Suc.prems by (metis take_bit_take_bit min.absorb1 lessI less_imp_le take_bit_of_0)
  have "\<not> bit (take_bit (Suc n) x) n"
    using Suc.prems by simp
  then have "\<not> bit x n"
    by (simp add: bit_take_bit_iff)
  then have "\<not> bit (drop_bit n x) 0"
    by (simp add: bit_simps)
  then have "crc_shift (drop_bit n x) = drop_bit 1 (drop_bit n x)"
    by (simp add: crc_shift_alt)
  then show ?case
    using Suc.IH [OF tz] by simp
qed

section \<open>The table step is the bitwise step\<close>

lemma nth_CRC32_TABLE:
  "CRC32_TABLE ! unat i = generateCRC32Entry i"
proof -
  have "unat i < 256"
    using unsigned_less [of i, where ?'a = nat] by simp
  then show ?thesis
    by (simp add: CRC32_TABLE_def)
qed

lemma length_CRC32_TABLE: "length CRC32_TABLE = 256"
  by (simp add: CRC32_TABLE_def)

lemma xor_split_low: "x = (push_bit 8 (drop_bit 8 x)) XOR take_bit 8 (x :: u32)"
  by (rule bit_word_eqI) (auto simp: bit_simps)

lemma and_FF: "x AND 0xFF = take_bit 8 (x :: u32)"
  by (simp add: take_bit_eq_mask mask_numeral)

lemma crc_update_eq_bitwise: "crc_update crc b = crc_bit_update crc b"
proof -
  let ?x = "crc XOR ucast b :: u32"
  have low: "take_bit 8 (push_bit 8 (drop_bit 8 ?x)) = 0"
    by (rule bit_word_eqI) (auto simp: bit_simps)
  have "crc_bit_update crc b = (crc_shift ^^ 8) (push_bit 8 (drop_bit 8 ?x) XOR take_bit 8 ?x)"
    by (simp only: crc_bit_update_def flip: xor_split_low)
  also have "\<dots> = drop_bit 8 (push_bit 8 (drop_bit 8 ?x)) XOR (crc_shift ^^ 8) (take_bit 8 ?x)"
    by (simp only: crc_shift_pow_xor crc_shift_pow_low_zero [OF low])
  also have "drop_bit 8 (push_bit 8 (drop_bit 8 ?x)) = drop_bit 8 crc"
    by (rule bit_word_eqI) (auto simp: bit_simps dest: bit_imp_le_length)
  also have "take_bit 8 ?x = ucast (ucast (take_bit 8 ?x) :: u8)"
    by (rule bit_word_eqI) (auto simp: bit_simps)
  finally show ?thesis
    by (simp only: crc_update_def Let_def nth_CRC32_TABLE generateCRC32Entry_def and_FF)
qed

section \<open>Interface: a checksum register\<close>

text \<open>
  What the users of a checksum rely on. A register whose step never merges two register
  values keeps every difference it has seen; one that moreover tells apart any two equally
  long runs of at most \<open>width\<close> bytes detects every corruption inside such a run.
\<close>

locale checksum_register =
  fixes step :: "'s \<Rightarrow> 'b \<Rightarrow> 's"
  assumes step_state_inject: "step s b = step t b \<Longrightarrow> s = t"
begin

lemma fold_state_inject: "foldl step s xs = foldl step t xs \<longleftrightarrow> s = t"
  by (induction xs arbitrary: s t) (auto dest: step_state_inject)

end

locale burst_register = checksum_register +
  fixes width :: nat
  assumes burst_inject:
    "length xs = length ys \<Longrightarrow> length xs \<le> width \<Longrightarrow> foldl step s xs = foldl step s ys \<Longrightarrow> xs = ys"
begin

lemma burst_detected:
  assumes "length xs = length ys" and "length xs \<le> width"
  shows "foldl step s (pre @ xs @ post) = foldl step s (pre @ ys @ post) \<longleftrightarrow> xs = ys"
proof
  assume "foldl step s (pre @ xs @ post) = foldl step s (pre @ ys @ post)"
  then have "foldl step (foldl step s pre) xs = foldl step (foldl step s pre) ys"
    by (simp add: fold_state_inject)
  with assms show "xs = ys"
    by (rule burst_inject)
qed simp

end

section \<open>CRC32 is a burst register of width four\<close>

lemma crc_update_state_inject: "crc_update s b = crc_update t b \<Longrightarrow> s = t"
proof -
  assume "crc_update s b = crc_update t b"
  then have "s XOR ucast b = t XOR ucast b"
    by (simp add: crc_update_eq_bitwise crc_bit_update_def inj_eq [OF inj_crc_shift_pow])
  then show "s = t"
    by simp
qed

lemma crc_shift_push_8:
  assumes bound: "\<And>i. bit (v :: u32) i \<Longrightarrow> i < 24"
  shows "(crc_shift ^^ 8) (push_bit 8 v) = v"
proof -
  have low: "take_bit 8 (push_bit 8 v) = 0"
    by (rule bit_word_eqI) (auto simp: bit_simps)
  have "drop_bit 8 (push_bit 8 v) = v"
    by (intro bit_word_eqI) (auto simp: bit_simps dest: bound)
  then show ?thesis
    by (simp only: crc_shift_pow_low_zero [OF low])
qed

text \<open>Up to four bytes enter the register together, as one little-endian integer.\<close>

lemma foldl_crc_update_short:
  "length bs \<le> 4 \<Longrightarrow> foldl crc_update s bs = (crc_shift ^^ (8 * length bs)) (s XOR of_le bs)"
proof (induction bs arbitrary: s)
  case Nil
  then show ?case by simp
next
  case (Cons b bs)
  have tb: "bit (of_le bs :: u32) i \<Longrightarrow> i < 24" for i
    using Cons.prems bit_of_le_length [of bs i, where ?'a = 32] by auto
  have disj: "of_le (b # bs) = (ucast b XOR push_bit 8 (of_le bs) :: u32)"
    by (rule bit_word_eqI) (auto simp: bit_simps dest: bit_imp_le_length)
  have "foldl crc_update s (b # bs) =
      (crc_shift ^^ (8 * length bs)) ((crc_shift ^^ 8) (s XOR ucast b) XOR of_le bs)"
    using Cons.IH [of "(crc_shift ^^ 8) (s XOR ucast b)"] Cons.prems
    by (simp add: crc_update_eq_bitwise [of s] crc_bit_update_def)
  also have "(crc_shift ^^ 8) (s XOR ucast b) XOR of_le bs =
      (crc_shift ^^ 8) (s XOR of_le (b # bs))"
    by (simp only: disj crc_shift_pow_xor crc_shift_push_8 [OF tb] flip: xor.assoc)
  finally show ?case
    by (simp add: add.commute flip: funpow_add [THEN fun_cong, unfolded comp_apply])
qed

lemma crc_burst_inject:
  assumes len: "length xs = length ys" and le: "length xs \<le> 4"
    and eq: "foldl crc_update s xs = foldl crc_update s ys"
  shows "xs = ys"
proof -
  have "(crc_shift ^^ (8 * length xs)) (s XOR of_le xs) =
      (crc_shift ^^ (8 * length xs)) (s XOR of_le ys)"
    using eq le len by (simp add: foldl_crc_update_short)
  then have "s XOR of_le xs = s XOR of_le ys"
    by (simp add: inj_eq [OF inj_crc_shift_pow])
  then have "of_le xs = (of_le ys :: u32)"
    by simp
  then have "le_bytes (length xs) (of_le xs :: u32) = le_bytes (length ys) (of_le ys :: u32)"
    by (simp only: len)
  moreover have "8 * length xs \<le> LENGTH(32)" and "8 * length ys \<le> LENGTH(32)"
    using le len by simp_all
  ultimately show ?thesis
    by (simp only: le_bytes_of_le)
qed

interpretation crc: burst_register crc_update 4
  by unfold_locales (erule crc_update_state_inject, rule crc_burst_inject)

section \<open>Linearity\<close>

text \<open>
  The register is linear over exclusive or: the difference between the registers of two
  equally long inputs depends on the difference of the inputs only.
\<close>

lemma crc_update_xor: "crc_update (s XOR t) (a XOR b) = crc_update s a XOR crc_update t b"
proof -
  have "(s XOR t) XOR ucast (a XOR b) = (s XOR ucast a) XOR (t XOR ucast b)"
    by (rule bit_word_eqI) (auto simp: bit_simps)
  then show ?thesis
    by (simp only: crc_update_eq_bitwise crc_bit_update_def crc_shift_pow_xor)
qed

lemma foldl_crc_update_xor:
  "length xs = length ys \<Longrightarrow>
   foldl crc_update (s XOR t) (map2 (XOR) xs ys) = foldl crc_update s xs XOR foldl crc_update t ys"
  by (induction xs ys arbitrary: s t rule: list_induct2) (simp_all add: crc_update_xor)

lemma crc_update_0_0 [simp]: "crc_update 0 0 = 0"
  by (simp add: crc_update_eq_bitwise crc_bit_update_def)

lemma foldl_crc_update_zeros [simp]: "foldl crc_update 0 (replicate n 0) = 0"
  by (induction n) simp_all

section \<open>Evaluation\<close>

lemma le_bytes_8:
  "le_bytes 8 w =
     [ucast w, ucast (drop_bit 8 w), ucast (drop_bit 16 w), ucast (drop_bit 24 w),
      ucast (drop_bit 32 w), ucast (drop_bit 40 w), ucast (drop_bit 48 w), ucast (drop_bit 56 w)]"
  by (simp add: eval_nat_numeral)

lemma crc_shift_8:
  "(crc_shift ^^ 8) x =
     crc_shift (crc_shift (crc_shift (crc_shift (crc_shift (crc_shift (crc_shift (crc_shift x)))))))"
  by (simp add: eval_nat_numeral)

lemmas crc_eval =
  crc_update_eq_bitwise crc_bit_update_def crc_shift_8 crc_shift_def CRC32_POLYNOMIAL_def

text \<open>The check value of the standard: the CRC32 of the digits 1 to 9.\<close>

lemma crc32_check_value:
  "calculateCRC32 [0x31, 0x32, 0x33, 0x34, 0x35, 0x36, 0x37, 0x38, 0x39] 9 = 0xCBF43926"
  by (simp add: calculateCRC32_def crc_eval)

text \<open>What eight bytes of a timestamp of November 2023, in nanoseconds, leave in the register.\<close>

lemma crc_register_2023:
  "foldl crc_update 0 (le_bytes 8 (1700000000000000000 :: u64)) \<noteq> 0"
proof -
  have "le_bytes 8 (1700000000000000000 :: u64) = [0, 0, 0x2A, 0x36, 0xFE, 0x9C, 0x97, 0x17]"
    by (simp add: le_bytes_8)
  then show ?thesis
    by (simp add: crc_eval)
qed

section \<open>Properties\<close>

text \<open>C19: The table-driven loop of \<open>calculateCRC32\<close> computes the bitwise CRC32 of IEEE 802.3:
  eight shift-and-reduce rounds per byte on the reflected polynomial, complemented at both ends.\<close>

theorem calculateCRC32_is_bitwise:
  "calculateCRC32 data n = NOT (foldl crc_bit_update 0xFFFFFFFF (take n data))"
proof -
  have "crc_update = crc_bit_update"
    by (intro ext) (rule crc_update_eq_bitwise)
  then show ?thesis
    by (simp add: calculateCRC32_def)
qed

text \<open>Error detection: two messages that differ only inside a run of at most four consecutive
  bytes have different checksums.\<close>

theorem calculateCRC32_detects_burst:
  assumes "length xs = length ys" and "length xs \<le> 4" and "xs \<noteq> ys"
  shows "calculateCRC32 (pre @ xs @ post) (length (pre @ xs @ post))
       \<noteq> calculateCRC32 (pre @ ys @ post) (length (pre @ ys @ post))"
  using assms by (simp add: calculateCRC32_def crc.burst_detected del: foldl_append)

theorem calculateCRC32_detects_burst_witness:
  "calculateCRC32 ([1, 2] @ [3] @ [4]) (length [1, 2, 3, 4 :: u8])
     \<noteq> calculateCRC32 ([1, 2] @ [7] @ [4]) (length [1, 2, 7, 4 :: u8])"
  using calculateCRC32_detects_burst [of "[3]" "[7]" "[1, 2]" "[4]"] by simp

end
