(* ===== verification/Message_Header.thy ===== *)
theory Message_Header
  imports Crc32
begin

text \<open>
  The 64-byte packed message header of \<open>common/include/MessageBuffer.h\<close>: the struct, its
  memory image on a little-endian machine, the helper methods, and the message checksum.
\<close>

section \<open>Constants\<close>

definition MAX_PAYLOAD_SIZE :: nat where
  "MAX_PAYLOAD_SIZE = 4096"

definition HEADER_SIZE :: nat where
  "HEADER_SIZE = 64"

text \<open>\<open>enum MessageType\<close>\<close>

definition MSG_ORDER_NEW :: u16 where "MSG_ORDER_NEW = 1"
definition MSG_ORDER_EXECUTION :: u16 where "MSG_ORDER_EXECUTION = 2"
definition MSG_ORDER_MODIFY :: u16 where "MSG_ORDER_MODIFY = 3"
definition MSG_ORDER_CANCEL :: u16 where "MSG_ORDER_CANCEL = 4"
definition MSG_QUOTE_UPDATE :: u16 where "MSG_QUOTE_UPDATE = 5"
definition MSG_HEARTBEAT :: u16 where "MSG_HEARTBEAT = 6"
definition MSG_TEST :: u16 where "MSG_TEST = 99"

text \<open>\<open>enum MessageFlags\<close>\<close>

definition FLAG_NONE :: u8 where "FLAG_NONE = 0"
definition FLAG_CHECKSUM_ENABLED :: u8 where "FLAG_CHECKSUM_ENABLED = 1"

section \<open>The struct and its memory image\<close>

record MessageHeader =
  magic :: "u8 list"
  version :: u16
  message_type :: u16
  sequence_number :: u64
  event_time_ns :: u64
  publish_time_ns :: u64
  recv_time_ns :: u64
  message_length :: u32
  publisher_id :: u16
  priority :: u8
  flags :: u8
  session_id :: u64
  checksum :: u32
  reserved :: u32

text \<open>\<open>magic\<close> is an array of four bytes.\<close>

definition wf_header :: "MessageHeader \<Rightarrow> bool" where
  "wf_header h \<longleftrightarrow> length (magic h) = 4"

text \<open>The fields in the order of the packed struct.\<close>

definition header_bytes :: "MessageHeader \<Rightarrow> u8 list" where
  "header_bytes h =
     magic h @ le_bytes 2 (version h) @ le_bytes 2 (message_type h)
     @ le_bytes 8 (sequence_number h)
     @ le_bytes 8 (event_time_ns h) @ le_bytes 8 (publish_time_ns h) @ le_bytes 8 (recv_time_ns h)
     @ le_bytes 4 (message_length h) @ le_bytes 2 (publisher_id h)
     @ [priority h] @ [flags h] @ le_bytes 8 (session_id h)
     @ le_bytes 4 (checksum h) @ le_bytes 4 (reserved h)"

definition field_at :: "nat \<Rightarrow> nat \<Rightarrow> u8 list \<Rightarrow> u8 list" where
  "field_at off n bs = take n (drop off bs)"

text \<open>Reading the struct from 64 bytes of memory.\<close>

definition bytes_header :: "u8 list \<Rightarrow> MessageHeader" where
  "bytes_header bs =
     \<lparr> magic = field_at 0 4 bs,
       version = of_le (field_at 4 2 bs),
       message_type = of_le (field_at 6 2 bs),
       sequence_number = of_le (field_at 8 8 bs),
       event_time_ns = of_le (field_at 16 8 bs),
       publish_time_ns = of_le (field_at 24 8 bs),
       recv_time_ns = of_le (field_at 32 8 bs),
       message_length = of_le (field_at 40 4 bs),
       publisher_id = of_le (field_at 44 2 bs),
       priority = of_le (field_at 46 1 bs),
       flags = of_le (field_at 47 1 bs),
       session_id = of_le (field_at 48 8 bs),
       checksum = of_le (field_at 56 4 bs),
       reserved = of_le (field_at 60 4 bs) \<rparr>"

lemma length_header_bytes [byte_simps]: "wf_header h \<Longrightarrow> length (header_bytes h) = HEADER_SIZE"
  by (simp add: header_bytes_def wf_header_def HEADER_SIZE_def)

lemma of_le_single [simp, byte_simps]: "of_le [b] = (b :: u8)"
  by (rule bit_word_eqI) (auto simp: bit_simps)

text \<open>\<open>static_assert(sizeof(MessageHeader) == 64)\<close>, and reading back what was written.\<close>

lemma bytes_header_header_bytes:
  assumes "wf_header h"
  shows "bytes_header (header_bytes h @ rest) = h"
  using assms
  by (simp add: bytes_header_def header_bytes_def wf_header_def field_at_def)

lemma field_at_append [byte_simps]: "field_at off m bs @ field_at (off + m) n bs = field_at off (m + n) bs"
  by (simp add: field_at_def take_add add.commute)

lemma length_field_at [byte_simps]: "off + n \<le> length bs \<Longrightarrow> length (field_at off n bs) = n"
  by (simp add: field_at_def)

lemma wf_bytes_header [inv_intros]: "4 \<le> length bs \<Longrightarrow> wf_header (bytes_header bs)"
  by (simp add: wf_header_def bytes_header_def field_at_def)

lemma le_bytes_field [byte_simps]:
  assumes "off + n \<le> length bs" and "8 * n \<le> LENGTH('a)"
  shows "le_bytes n (of_le (field_at off n bs) :: 'a::len word) = field_at off n bs"
  using assms by (intro le_bytes_of_le_eq) (simp_all add: length_field_at)

lemma byte_field [byte_simps]:
  assumes "off < length bs"
  shows "[of_le (field_at off 1 bs) :: u8] = field_at off 1 bs"
  using le_bytes_field [of off 1 bs, where ?'a = 8] assms by simp

lemma field_at_append_eq:
  "off + m = off' \<Longrightarrow> field_at off m bs @ field_at off' n bs = field_at off (m + n) bs"
  using field_at_append by blast

lemma header_bytes_bytes_header:
  assumes len: "length bs = HEADER_SIZE"
  shows "header_bytes (bytes_header bs) = bs"
proof -
  have "header_bytes (bytes_header bs) =
      field_at 0 4 bs @ field_at 4 2 bs @ field_at 6 2 bs @ field_at 8 8 bs @ field_at 16 8 bs
      @ field_at 24 8 bs @ field_at 32 8 bs @ field_at 40 4 bs @ field_at 44 2 bs
      @ field_at 46 1 bs @ field_at 47 1 bs @ field_at 48 8 bs @ field_at 56 4 bs @ field_at 60 4 bs"
    using len
    by (simp add: header_bytes_def bytes_header_def HEADER_SIZE_def le_bytes_field byte_field
        del: One_nat_def)
  also have "\<dots> = field_at 0 64 bs"
    by (simp add: field_at_append_eq)
  also have "\<dots> = bs"
    using len by (simp add: field_at_def HEADER_SIZE_def)
  finally show ?thesis .
qed

text \<open>The image determines the header, so equal images mean equal headers.\<close>

lemma header_bytes_inject:
  "wf_header h \<Longrightarrow> wf_header k \<Longrightarrow> header_bytes h = header_bytes k \<longleftrightarrow> h = k"
  by (metis append_Nil2 bytes_header_header_bytes)

section \<open>Helper methods\<close>

text \<open>\<open>"SEKR"\<close>\<close>

definition SEKR :: "u8 list" where
  "SEKR = [0x53, 0x45, 0x4B, 0x52]"

definition isValid :: "MessageHeader \<Rightarrow> bool" where
  "isValid h \<longleftrightarrow> magic h = SEKR"

definition setMagic :: "MessageHeader \<Rightarrow> MessageHeader" where
  "setMagic h = h\<lparr>magic := SEKR\<rparr>"

definition hasChecksum :: "MessageHeader \<Rightarrow> bool" where
  "hasChecksum h \<longleftrightarrow> flags h AND FLAG_CHECKSUM_ENABLED \<noteq> 0"

text \<open>\<open>memset(header, 0, sizeof(MessageHeader))\<close>\<close>

definition zero_header :: MessageHeader where
  "zero_header = bytes_header (replicate 64 0)"

lemma of_le_replicate_0 [simp]: "of_le (replicate n 0) = (0 :: 'a::len word)"
  by (induction n) simp_all

lemma field_at_replicate: "field_at off n (replicate k x) = replicate (min n (k - off)) x"
  by (simp add: field_at_def)

lemma zero_header_eq [byte_simps]:
  "zero_header = \<lparr> magic = [0, 0, 0, 0], version = 0, message_type = 0, sequence_number = 0,
     event_time_ns = 0, publish_time_ns = 0, recv_time_ns = 0, message_length = 0,
     publisher_id = 0, priority = 0, flags = 0, session_id = 0, checksum = 0, reserved = 0 \<rparr>"
  by (simp add: zero_header_def bytes_header_def field_at_replicate)
     (simp add: numeral_eq_Suc)

lemma wf_zero_header [inv_intros]: "wf_header zero_header"
  by (simp add: zero_header_eq wf_header_def)

lemma header_bytes_zero_header: "header_bytes zero_header = replicate 64 0"
  by (simp add: zero_header_def header_bytes_bytes_header HEADER_SIZE_def)

section \<open>The message checksum\<close>

text \<open>
  The header copy with \<open>checksum = 0\<close>, then the first \<open>payload_length\<close> payload bytes.
\<close>

definition calculateMessageCRC32 :: "MessageHeader \<Rightarrow> u8 list \<Rightarrow> u32 \<Rightarrow> u32" where
  "calculateMessageCRC32 h payload payload_length =
     (let temp_header = h\<lparr>checksum := 0\<rparr>;
          crc = foldl crc_update 0xFFFFFFFF (header_bytes temp_header);
          crc' = foldl crc_update crc (take (unat payload_length) payload)
      in NOT crc')"

lemma calculateMessageCRC32_alt:
  "calculateMessageCRC32 h p n =
     NOT (foldl crc_update 0xFFFFFFFF (header_bytes (h\<lparr>checksum := 0\<rparr>) @ take (unat n) p))"
  by (simp add: calculateMessageCRC32_def)

text \<open>The stored checksum is not part of what is summed.\<close>

lemma calculateMessageCRC32_checksum [simp]:
  "calculateMessageCRC32 (h\<lparr>checksum := c\<rparr>) p n = calculateMessageCRC32 h p n"
  by (simp add: calculateMessageCRC32_def)

lemma not_inject: "NOT x = NOT y \<longleftrightarrow> x = (y :: 'a::len word)"
  by simp

text \<open>
  What an overwritten receive time does to the register: the difference is the register
  that the eight changed bytes alone leave behind, moved on by the rest of the message.
\<close>

lemma foldl_crc_update_prefix_diff:
  assumes "length xs = length ys"
  shows "foldl crc_update s (pre @ xs @ post) = foldl crc_update s (pre @ ys @ post)
     \<longleftrightarrow> foldl crc_update 0 (map2 (XOR) xs ys) = 0"
proof -
  let ?s = "foldl crc_update s pre"
  have "foldl crc_update s (pre @ xs @ post) = foldl crc_update s (pre @ ys @ post)
     \<longleftrightarrow> foldl crc_update ?s xs = foldl crc_update ?s ys"
    by (simp add: crc.fold_state_inject)
  also have "\<dots> \<longleftrightarrow> foldl crc_update ?s xs XOR foldl crc_update ?s ys = 0"
    by (simp add: xor_eq_0_iff_eq)
  also have "foldl crc_update ?s xs XOR foldl crc_update ?s ys = foldl crc_update 0 (map2 (XOR) xs ys)"
    using foldl_crc_update_xor [OF assms, of ?s ?s] by simp
  finally show ?thesis .
qed

end
