(* ===== verification/Message_Buffer.thy ===== *)
theory Message_Buffer
  imports Message_Header
begin

text \<open>
  \<open>struct MessageBuffer\<close> of \<open>common/include/MessageBuffer.h\<close>: the header and payload of a
  message with the pool's metadata, the copy from the transport's buffer, and the
  integrity check. The padding array is not modelled: nothing reads it.
\<close>

section \<open>The buffer\<close>

record MessageBuffer =
  header :: MessageHeader
  payload :: "u8 list"
  in_use :: bool
  actual_payload_length :: u32
  worker_dequeue_time_ns :: i64

text \<open>\<open>sizeof(MessageBuffer)\<close>: 64 + 4096 + 1, padded to 4164, + 4 + 8 + 12, padded to a multiple of 8.\<close>

definition MESSAGE_BUFFER_SIZE :: nat where
  "MESSAGE_BUFFER_SIZE = 4192"

definition wf_buffer :: "MessageBuffer \<Rightarrow> bool" where
  "wf_buffer b \<longleftrightarrow> wf_header (header b) \<and> length (payload b) = MAX_PAYLOAD_SIZE
     \<and> unat (actual_payload_length b) \<le> MAX_PAYLOAD_SIZE"

definition reset :: "MessageBuffer \<Rightarrow> MessageBuffer" where
  "reset b = b\<lparr>header := zero_header, actual_payload_length := 0, worker_dequeue_time_ns := 0\<rparr>"

text \<open>
  The constructor; the payload array is left as the memory was, which \<open>junk\<close> stands for.
\<close>

definition new_MessageBuffer :: "u8 list \<Rightarrow> MessageBuffer" where
  "new_MessageBuffer junk =
     reset \<lparr>header = zero_header, payload = junk, in_use = False, actual_payload_length = 0,
            worker_dequeue_time_ns = 0\<rparr>"

definition wireSize :: "MessageBuffer \<Rightarrow> nat" where
  "wireSize b = HEADER_SIZE + unat (actual_payload_length b)"

definition getPayload :: "MessageBuffer \<Rightarrow> u8 list" where
  "getPayload b = payload b"

text \<open>
  \<open>memcpy(&header, src, n)\<close> overwrites the first \<open>n\<close> bytes of the header's image. The
  transport's pointer and length are the list of the bytes they delimit.
\<close>

definition memcpy_header :: "MessageHeader \<Rightarrow> u8 list \<Rightarrow> nat \<Rightarrow> MessageHeader" where
  "memcpy_header h src n = bytes_header (take n src @ drop n (header_bytes h))"

definition memcpy_payload :: "u8 list \<Rightarrow> u8 list \<Rightarrow> nat \<Rightarrow> u8 list" where
  "memcpy_payload p src n = take n src @ drop n p"

definition copyFromAeron :: "MessageBuffer \<Rightarrow> u8 list \<Rightarrow> MessageBuffer" where
  "copyFromAeron b aeron_buffer =
     (let n = length aeron_buffer;
          header_size = min n HEADER_SIZE;
          b1 = b\<lparr>header := memcpy_header (header b) aeron_buffer header_size\<rparr>
      in if n > HEADER_SIZE then
           let payload_size = min (n - HEADER_SIZE) MAX_PAYLOAD_SIZE
           in b1\<lparr>payload := memcpy_payload (payload b) (drop HEADER_SIZE aeron_buffer) payload_size,
                 actual_payload_length := of_nat payload_size\<rparr>
         else b1\<lparr>actual_payload_length := 0\<rparr>)"

definition validate :: "MessageBuffer \<Rightarrow> bool" where
  "validate b =
     (if \<not> isValid (header b) then False
      else if version (header b) = 0 \<or> version (header b) > 100 then False
      else if unat (message_length (header b)) > HEADER_SIZE + MAX_PAYLOAD_SIZE then False
      else if hasChecksum (header b)
           \<and> checksum (header b)
               \<noteq> calculateMessageCRC32 (header b) (payload b) (actual_payload_length b)
      then False
      else True)"

text \<open>The bytes of the message that the buffer holds.\<close>

definition wire_bytes :: "MessageBuffer \<Rightarrow> u8 list" where
  "wire_bytes b = header_bytes (header b) @ take (unat (actual_payload_length b)) (payload b)"

section \<open>Well-formedness\<close>

lemma wf_reset [inv_intros]: "wf_buffer b \<Longrightarrow> wf_buffer (reset b)"
  by (simp add: wf_buffer_def reset_def wf_zero_header)

lemma wf_new_MessageBuffer [inv_intros]:
  "length junk = MAX_PAYLOAD_SIZE \<Longrightarrow> wf_buffer (new_MessageBuffer junk)"
  by (simp add: wf_buffer_def new_MessageBuffer_def reset_def wf_zero_header)

lemma in_use_reset [simp]: "in_use (reset b) = in_use b"
  by (simp add: reset_def)

lemma in_use_copyFromAeron [simp]: "in_use (copyFromAeron b d) = in_use b"
  by (simp add: copyFromAeron_def Let_def)

lemma length_header_overlay:
  "wf_header h \<Longrightarrow> n \<le> HEADER_SIZE \<Longrightarrow> n \<le> length src
     \<Longrightarrow> length (take n src @ drop n (header_bytes h)) = HEADER_SIZE"
  by (simp add: length_header_bytes)

lemma header_bytes_memcpy_header [byte_simps]:
  "wf_header h \<Longrightarrow> n \<le> HEADER_SIZE \<Longrightarrow> n \<le> length src
     \<Longrightarrow> header_bytes (memcpy_header h src n) = take n src @ drop n (header_bytes h)"
  unfolding memcpy_header_def
  by (rule header_bytes_bytes_header) (rule length_header_overlay)

lemma wf_memcpy_header [inv_intros]:
  "wf_header h \<Longrightarrow> n \<le> HEADER_SIZE \<Longrightarrow> n \<le> length src \<Longrightarrow> wf_header (memcpy_header h src n)"
  unfolding memcpy_header_def
  by (rule wf_bytes_header, subst length_header_overlay) (simp_all add: HEADER_SIZE_def)

lemma unat_payload_size [simp]:
  "n \<le> MAX_PAYLOAD_SIZE \<Longrightarrow> unat (of_nat n :: u32) = n"
  by (simp add: MAX_PAYLOAD_SIZE_def unat_of_nat)

lemma header_copyFromAeron:
  "header (copyFromAeron b d) = memcpy_header (header b) d (min (length d) HEADER_SIZE)"
  by (simp add: copyFromAeron_def Let_def)

lemma actual_payload_length_copyFromAeron:
  "unat (actual_payload_length (copyFromAeron b d)) = min (length d - HEADER_SIZE) MAX_PAYLOAD_SIZE"
  by (simp add: copyFromAeron_def Let_def)

lemma payload_copyFromAeron:
  "payload (copyFromAeron b d) =
     memcpy_payload (payload b) (drop HEADER_SIZE d) (min (length d - HEADER_SIZE) MAX_PAYLOAD_SIZE)"
  by (simp add: copyFromAeron_def Let_def memcpy_payload_def)

lemma wf_copyFromAeron [inv_intros]: "wf_buffer b \<Longrightarrow> wf_buffer (copyFromAeron b d)"
  by (simp add: wf_buffer_def header_copyFromAeron actual_payload_length_copyFromAeron
      payload_copyFromAeron memcpy_payload_def wf_memcpy_header)

lemma take_payload_copyFromAeron:
  "take (min (length d - HEADER_SIZE) MAX_PAYLOAD_SIZE) (payload (copyFromAeron b d)) =
     take MAX_PAYLOAD_SIZE (drop HEADER_SIZE d)"
  by (simp add: payload_copyFromAeron memcpy_payload_def) (simp add: take_all_iff min_def)

lemma wire_bytes_copyFromAeron:
  assumes "wf_buffer b" and "HEADER_SIZE \<le> length d"
  shows "wire_bytes (copyFromAeron b d) = take (HEADER_SIZE + MAX_PAYLOAD_SIZE) d"
proof -
  have wf: "wf_header (header b)"
    using assms by (simp add: wf_buffer_def)
  have "header_bytes (header (copyFromAeron b d)) = take HEADER_SIZE d"
    using wf assms(2)
    by (simp add: header_copyFromAeron header_bytes_memcpy_header length_header_bytes)
  then show ?thesis
    by (simp add: wire_bytes_def actual_payload_length_copyFromAeron take_payload_copyFromAeron
        take_add)
qed

text \<open>A buffer that was reset holds nothing of the message it held before.\<close>

lemma wire_bytes_reset_copy_short:
  assumes "wf_buffer b" and "length d \<le> HEADER_SIZE"
  shows "wire_bytes (copyFromAeron (reset b) d) = d @ replicate (HEADER_SIZE - length d) 0"
proof -
  have "header_bytes (header (copyFromAeron (reset b) d)) = d @ replicate (HEADER_SIZE - length d) 0"
    using assms(2)
    by (simp add: header_copyFromAeron header_bytes_memcpy_header reset_def wf_zero_header
        header_bytes_zero_header HEADER_SIZE_def)
  with assms(2) show ?thesis
    by (simp add: wire_bytes_def actual_payload_length_copyFromAeron)
qed

section \<open>Integrity\<close>

lemma validate_iff:
  "validate b \<longleftrightarrow>
     magic (header b) = SEKR \<and> version (header b) \<noteq> 0 \<and> version (header b) \<le> 100
     \<and> unat (message_length (header b)) \<le> HEADER_SIZE + MAX_PAYLOAD_SIZE
     \<and> (hasChecksum (header b) \<longrightarrow>
          checksum (header b) = calculateMessageCRC32 (header b) (payload b) (actual_payload_length b))"
  by (auto simp: validate_def isValid_def not_less)

text \<open>What \<open>validate\<close> reads: the bytes of the message and nothing that lies behind them.\<close>

lemma validate_wire_cong:
  assumes "header b = header c" and "actual_payload_length b = actual_payload_length c"
    and "take (unat (actual_payload_length b)) (payload b) = take (unat (actual_payload_length c)) (payload c)"
  shows "validate b = validate c"
  using assms by (simp add: validate_iff calculateMessageCRC32_alt)

lemma message_crc_burst:
  assumes "length xs = length ys" and "length xs \<le> 4" and "xs \<noteq> ys"
    and "take (unat n) p = pre @ xs @ post" and "take (unat n) q = pre @ ys @ post"
  shows "calculateMessageCRC32 h p n \<noteq> calculateMessageCRC32 h q n"
  using assms crc.burst_detected [OF assms(1,2), of _ "header_bytes (h\<lparr>checksum := 0\<rparr>) @ pre" post]
  by (simp add: calculateMessageCRC32_alt)

text \<open>The image of a header around the receive time, which occupies bytes 32 to 39.\<close>

definition header_pre_recv :: "MessageHeader \<Rightarrow> u8 list" where
  "header_pre_recv h =
     magic h @ le_bytes 2 (version h) @ le_bytes 2 (message_type h) @ le_bytes 8 (sequence_number h)
     @ le_bytes 8 (event_time_ns h) @ le_bytes 8 (publish_time_ns h)"

definition header_post_recv :: "MessageHeader \<Rightarrow> u8 list" where
  "header_post_recv h =
     le_bytes 4 (message_length h) @ le_bytes 2 (publisher_id h)
     @ [priority h] @ [flags h] @ le_bytes 8 (session_id h)
     @ le_bytes 4 (checksum h) @ le_bytes 4 (reserved h)"

lemma header_bytes_split_recv:
  "header_bytes h = header_pre_recv h @ le_bytes 8 (recv_time_ns h) @ header_post_recv h"
  by (simp add: header_bytes_def header_pre_recv_def header_post_recv_def)

lemma le_bytes_0 [simp]: "le_bytes n 0 = replicate n 0"
  by (induction n) simp_all

lemma map2_xor_zeros: "length xs = n \<Longrightarrow> map2 (XOR) xs (replicate n (0 :: 'a::len word)) = xs"
  by (induction xs arbitrary: n) auto

lemma message_crc_stamp:
  assumes "recv_time_ns h = 0"
  shows "calculateMessageCRC32 (h\<lparr>recv_time_ns := t\<rparr>) p n = calculateMessageCRC32 h p n
     \<longleftrightarrow> foldl crc_update 0 (le_bytes 8 t) = 0"
proof -
  let ?h = "h\<lparr>checksum := 0\<rparr>"
  let ?post = "header_post_recv ?h @ take (unat n) p"
  have a: "header_bytes (h\<lparr>recv_time_ns := t, checksum := 0\<rparr>) @ take (unat n) p
      = header_pre_recv ?h @ le_bytes 8 t @ ?post"
    by (simp add: header_bytes_split_recv header_pre_recv_def header_post_recv_def)
  have b: "header_bytes ?h @ take (unat n) p = header_pre_recv ?h @ replicate 8 0 @ ?post"
    using assms by (simp add: header_bytes_split_recv)
  have "calculateMessageCRC32 (h\<lparr>recv_time_ns := t\<rparr>) p n = calculateMessageCRC32 h p n
     \<longleftrightarrow> foldl crc_update 0xFFFFFFFF (header_pre_recv ?h @ le_bytes 8 t @ ?post)
         = foldl crc_update 0xFFFFFFFF (header_pre_recv ?h @ replicate 8 0 @ ?post)"
    by (simp add: calculateMessageCRC32_alt flip: a b)
  also have "\<dots> \<longleftrightarrow> foldl crc_update 0 (map2 (XOR) (le_bytes 8 t) (replicate 8 0)) = 0"
    by (rule foldl_crc_update_prefix_diff) simp
  finally show ?thesis
    by (simp add: map2_xor_zeros)
qed

section \<open>Properties\<close>

text \<open>C14: A message of at least a header's length is kept byte for byte: the wire image of the
  buffer after \<open>copyFromAeron\<close> is the message cut off after 4096 payload bytes, and
  \<open>wireSize\<close> is its length.\<close>

theorem copyFromAeron_wire_image:
  assumes "wf_buffer b" and "HEADER_SIZE \<le> length d"
  shows "wire_bytes (copyFromAeron b d) = take (HEADER_SIZE + MAX_PAYLOAD_SIZE) d
     \<and> wireSize (copyFromAeron b d) = min (length d) (HEADER_SIZE + MAX_PAYLOAD_SIZE)"
  using wire_bytes_copyFromAeron [OF assms] assms(2)
  by (simp add: wireSize_def actual_payload_length_copyFromAeron)

definition example_buffer :: MessageBuffer where
  "example_buffer = new_MessageBuffer (replicate 4096 7)"

lemma wf_example_buffer: "wf_buffer example_buffer"
  by (simp add: example_buffer_def wf_new_MessageBuffer MAX_PAYLOAD_SIZE_def)

theorem copyFromAeron_wire_image_witness:
  "wire_bytes (copyFromAeron example_buffer (replicate 64 1 @ [2, 3])) = replicate 64 1 @ [2, 3]"
  using copyFromAeron_wire_image [OF wf_example_buffer, of "replicate 64 1 @ [2, 3]"]
  by (simp add: HEADER_SIZE_def MAX_PAYLOAD_SIZE_def)

text \<open>A recycled buffer shows nothing of its former message: after \<open>reset\<close> and
  \<open>copyFromAeron\<close> the wire image depends on the new message only, and a message shorter than
  a header is padded with zero bytes.\<close>

theorem reset_copyFromAeron_fresh:
  assumes "wf_buffer b" and "wf_buffer c"
  shows "wire_bytes (copyFromAeron (reset b) d) = wire_bytes (copyFromAeron (reset c) d)
     \<and> (length d \<le> HEADER_SIZE \<longrightarrow>
          wire_bytes (copyFromAeron (reset b) d) = d @ replicate (HEADER_SIZE - length d) 0)"
  using assms
  by (cases "length d \<le> HEADER_SIZE")
     (simp_all add: wire_bytes_reset_copy_short wire_bytes_copyFromAeron wf_reset)

theorem reset_copyFromAeron_fresh_witness:
  "wire_bytes (copyFromAeron (reset example_buffer) [9, 8]) = [9, 8] @ replicate 62 0"
  using reset_copyFromAeron_fresh [OF wf_example_buffer wf_example_buffer, of "[9, 8]"]
  by (simp add: HEADER_SIZE_def)

text \<open>C15: Integrity: a buffer that passes \<open>validate\<close> with the checksum enabled no longer passes
  after any change of its payload that is confined to four consecutive bytes.\<close>

theorem validate_detects_payload_burst:
  assumes valid: "validate b" "hasChecksum (header b)"
    and old: "take (unat (actual_payload_length b)) (payload b) = pre @ xs @ post"
    and burst: "length ys = length xs" "length xs \<le> 4" "ys \<noteq> xs"
    and fits: "unat (actual_payload_length b) \<le> length (payload b)"
  shows "\<not> validate (b\<lparr>payload := pre @ ys @ post @ rest\<rparr>)"
proof -
  let ?n = "actual_payload_length b"
  have "length (pre @ xs @ post) = unat ?n"
    using fits by (simp only: length_take flip: old)
  then have new: "take (unat ?n) (pre @ ys @ post @ rest) = pre @ ys @ post"
    using burst(1) by simp
  have "calculateMessageCRC32 (header b) (pre @ ys @ post @ rest) ?n
      \<noteq> calculateMessageCRC32 (header b) (payload b) ?n"
    by (rule message_crc_burst [of ys xs]) (use burst old new in auto)
  with valid show ?thesis
    by (auto simp: validate_iff)
qed

definition example_header :: MessageHeader where
  "example_header = zero_header\<lparr>magic := SEKR, version := 1, flags := 1\<rparr>"

definition example_valid :: MessageBuffer where
  "example_valid =
     \<lparr>header = example_header\<lparr>checksum := calculateMessageCRC32 example_header (replicate 4096 7) 2\<rparr>,
      payload = replicate 4096 7, in_use = True, actual_payload_length = 2,
      worker_dequeue_time_ns = 0\<rparr>"

lemma example_header_fields:
  "magic example_header = SEKR" "version example_header = 1" "message_length example_header = 0"
  "flags example_header = 1" "recv_time_ns example_header = 0"
  by (simp_all add: example_header_def zero_header_eq)

lemma example_valid_valid: "validate example_valid" "hasChecksum (header example_valid)"
  by (simp_all add: example_valid_def validate_iff hasChecksum_def FLAG_CHECKSUM_ENABLED_def
      example_header_fields)

theorem validate_detects_payload_burst_witness:
  "\<not> validate (example_valid\<lparr>payload := [] @ [7, 8] @ [] @ replicate 4094 7\<rparr>)"
  by (rule validate_detects_payload_burst [OF example_valid_valid, of "[]" "[7, 7]" "[]"])
     (simp_all add: example_valid_def, simp add: numeral_2_eq_2)

text \<open>What stamping the receive time does to the checksum: a valid checksummed message that
  arrived with a zero receive time is still valid after the field is overwritten with
  \<open>t\<close> exactly when the eight bytes of \<open>t\<close> alone leave the CRC register at zero. In
  particular it is invalid for every \<open>t\<close> whose set bits lie within four bytes.\<close>

theorem validate_after_recv_stamp:
  assumes "validate b" and "hasChecksum (header b)" and "recv_time_ns (header b) = 0"
  shows "validate (b\<lparr>header := (header b)\<lparr>recv_time_ns := t\<rparr>\<rparr>)
     \<longleftrightarrow> foldl crc_update 0 (le_bytes 8 t) = 0"
  using assms message_crc_stamp [OF assms(3), of t "payload b" "actual_payload_length b"]
  by (simp add: validate_iff hasChecksum_def) (metis (no_types))

theorem validate_after_recv_stamp_witness:
  "\<not> validate (example_valid\<lparr>header := (header example_valid)\<lparr>recv_time_ns := 1700000000000000000\<rparr>\<rparr>)"
proof -
  have "recv_time_ns (header example_valid) = 0"
    by (simp add: example_valid_def example_header_fields)
  from validate_after_recv_stamp [OF example_valid_valid this] crc_register_2023
  show ?thesis by blast
qed

end
