(* ===== verification/Buffer_Pool.thy ===== *)
theory Buffer_Pool
  imports Message_Buffer
begin

text \<open>
  \<open>subscriber/include/BufferPool.h\<close>: the pool of message buffers with its free list, one
  operation at a time. A pointer to \<open>buffers_[i]\<close> is its address,
  \<open>pool_base + i * sizeof(MessageBuffer)\<close>.
\<close>

section \<open>The pool\<close>

record BufferPool =
  pool_base :: ptr
  buffers :: "MessageBuffer list"
  free_list :: "ptr list"
  free_count :: nat
  total_allocations :: u64
  total_deallocations :: u64
  allocation_failures :: u64

text \<open>The template parameter is the length of the storage; the two \<open>static_assert\<close>s bound it.\<close>

definition PoolSize :: "BufferPool \<Rightarrow> nat" where
  "PoolSize p = length (buffers p)"

definition pool_size_ok :: "nat \<Rightarrow> bool" where
  "pool_size_ok n \<longleftrightarrow> 0 < n \<and> n \<le> 65536"

definition buf_addr :: "ptr \<Rightarrow> nat \<Rightarrow> ptr" where
  "buf_addr base i = base + i * MESSAGE_BUFFER_SIZE"

definition buf_index :: "BufferPool \<Rightarrow> ptr \<Rightarrow> nat" where
  "buf_index p a = (a - pool_base p) div MESSAGE_BUFFER_SIZE"

text \<open>The object a pointer into the pool refers to, and a write to it.\<close>

definition deref :: "BufferPool \<Rightarrow> ptr \<Rightarrow> MessageBuffer" where
  "deref p a = buffers p ! buf_index p a"

definition store :: "BufferPool \<Rightarrow> ptr \<Rightarrow> MessageBuffer \<Rightarrow> BufferPool" where
  "store p a b = p\<lparr>buffers := (buffers p)[buf_index p a := b]\<rparr>"

definition new_BufferPool :: "ptr \<Rightarrow> u8 list list \<Rightarrow> BufferPool" where
  "new_BufferPool base junk =
     \<lparr>pool_base = base,
      buffers = map new_MessageBuffer junk,
      free_list = map (buf_addr base) [0..<length junk],
      free_count = length junk,
      total_allocations = 0, total_deallocations = 0, allocation_failures = 0\<rparr>"

definition isValidBuffer :: "BufferPool \<Rightarrow> ptr \<Rightarrow> bool" where
  "isValidBuffer p buf \<longleftrightarrow>
     buf \<ge> buf_addr (pool_base p) 0 \<and> buf < buf_addr (pool_base p) (PoolSize p)"

text \<open>One thread at a time, so the compare-and-swap succeeds at the first attempt.\<close>

definition allocate :: "BufferPool \<Rightarrow> ptr \<times> BufferPool" where
  "allocate p =
     (let count = free_count p
      in if count > 0 then
           let p1 = p\<lparr>free_count := count - 1\<rparr>;
               buf = free_list p1 ! (count - 1);
               p2 = store p1 buf ((deref p1 buf)\<lparr>in_use := True\<rparr>);
               p3 = store p2 buf (reset (deref p2 buf))
           in (buf, p3\<lparr>total_allocations := total_allocations p3 + 1\<rparr>)
         else (nullptr, p\<lparr>allocation_failures := allocation_failures p + 1\<rparr>))"

definition deallocate :: "BufferPool \<Rightarrow> ptr \<Rightarrow> BufferPool" where
  "deallocate p buf =
     (if buf = nullptr then p
      else if \<not> isValidBuffer p buf then p
      else
        let p1 = store p buf ((deref p buf)\<lparr>in_use := False\<rparr>);
            count = free_count p1
        in if count < PoolSize p1 then
             p1\<lparr>free_count := count + 1,
                free_list := (free_list p1)[count := buf],
                total_deallocations := total_deallocations p1 + 1\<rparr>
           else p1)"

definition available :: "BufferPool \<Rightarrow> nat" where
  "available p = free_count p"

definition pool_capacity :: "BufferPool \<Rightarrow> nat" where
  "pool_capacity p = PoolSize p"

text \<open>\<open>struct Statistics\<close>; the utilization ratio is \<open>pool_utilization\<close> of the theory \<open>Statistics\<close>.\<close>

record PoolStatistics =
  ps_total_allocations :: u64
  ps_total_deallocations :: u64
  ps_allocation_failures :: u64
  ps_current_available :: nat
  ps_current_in_use :: nat

definition pool_getStatistics :: "BufferPool \<Rightarrow> PoolStatistics" where
  "pool_getStatistics p =
     \<lparr>ps_total_allocations = total_allocations p,
      ps_total_deallocations = total_deallocations p,
      ps_allocation_failures = allocation_failures p,
      ps_current_available = available p,
      ps_current_in_use = PoolSize p - available p\<rparr>"

section \<open>Invariant\<close>

definition pool_ptrs :: "BufferPool \<Rightarrow> ptr set" where
  "pool_ptrs p = buf_addr (pool_base p) ` {..<PoolSize p}"

text \<open>The stack of free buffers, top last, and the buffers handed out.\<close>

definition free_ptrs :: "BufferPool \<Rightarrow> ptr list" where
  "free_ptrs p = take (free_count p) (free_list p)"

definition owned :: "BufferPool \<Rightarrow> ptr set" where
  "owned p = pool_ptrs p - set (free_ptrs p)"

definition pool_inv :: "BufferPool \<Rightarrow> bool" where
  "pool_inv p \<longleftrightarrow>
     pool_base p > 0 \<and> pool_size_ok (PoolSize p)
     \<and> length (free_list p) = PoolSize p \<and> free_count p \<le> PoolSize p
     \<and> distinct (free_ptrs p) \<and> set (free_ptrs p) \<subseteq> pool_ptrs p
     \<and> (\<forall>b \<in> set (buffers p). wf_buffer b)
     \<and> (\<forall>a \<in> pool_ptrs p. in_use (deref p a) \<longleftrightarrow> a \<in> owned p)"

section \<open>Addresses\<close>

lemma MESSAGE_BUFFER_SIZE_pos [simp]: "0 < MESSAGE_BUFFER_SIZE"
  by (simp add: MESSAGE_BUFFER_SIZE_def)

lemma inj_buf_addr: "inj (buf_addr base)"
  by (rule injI) (simp add: buf_addr_def MESSAGE_BUFFER_SIZE_def)

lemma buf_addr_eq_iff [simp]: "buf_addr base i = buf_addr base j \<longleftrightarrow> i = j"
  by (simp add: inj_eq [OF inj_buf_addr])

lemma buf_index_buf_addr [simp]: "buf_index p (buf_addr (pool_base p) i) = i"
  by (simp add: buf_index_def buf_addr_def)

lemma pool_ptrsE:
  assumes "a \<in> pool_ptrs p"
  obtains i where "a = buf_addr (pool_base p) i" and "i < PoolSize p"
  using assms by (auto simp: pool_ptrs_def)

lemma buf_index_less: "a \<in> pool_ptrs p \<Longrightarrow> buf_index p a < length (buffers p)"
  by (erule pool_ptrsE) (simp add: PoolSize_def)

lemma buf_index_inject:
  "a \<in> pool_ptrs p \<Longrightarrow> b \<in> pool_ptrs p \<Longrightarrow> buf_index p a = buf_index p b \<longleftrightarrow> a = b"
  by (auto elim!: pool_ptrsE)

lemma isValidBuffer_pool_ptrs: "a \<in> pool_ptrs p \<Longrightarrow> isValidBuffer p a"
  by (auto simp: pool_ptrs_def isValidBuffer_def buf_addr_def)

lemma pool_ptrs_not_null: "pool_base p > 0 \<Longrightarrow> a \<in> pool_ptrs p \<Longrightarrow> a \<noteq> nullptr"
  by (auto simp: pool_ptrs_def buf_addr_def)

lemma card_pool_ptrs [simp]: "card (pool_ptrs p) = PoolSize p"
  unfolding pool_ptrs_def by (simp add: card_image inj_on_def)

lemma finite_pool_ptrs [simp]: "finite (pool_ptrs p)"
  by (simp add: pool_ptrs_def)

lemma store_simps [simp]:
  "pool_base (store p a b) = pool_base p" "PoolSize (store p a b) = PoolSize p"
  "free_list (store p a b) = free_list p" "free_count (store p a b) = free_count p"
  "pool_ptrs (store p a b) = pool_ptrs p" "free_ptrs (store p a b) = free_ptrs p"
  "owned (store p a b) = owned p" "buf_index (store p a b) = buf_index p"
  "total_allocations (store p a b) = total_allocations p"
  "total_deallocations (store p a b) = total_deallocations p"
  "allocation_failures (store p a b) = allocation_failures p"
  by (simp_all add: store_def PoolSize_def pool_ptrs_def free_ptrs_def owned_def buf_index_def fun_eq_iff)

lemma deref_store [simp]:
  "a \<in> pool_ptrs p \<Longrightarrow> deref (store p a b) a = b"
  "a \<in> pool_ptrs p \<Longrightarrow> c \<in> pool_ptrs p \<Longrightarrow> a \<noteq> c \<Longrightarrow> deref (store p a b) c = deref p c"
  using buf_index_less [of a p] buf_index_inject [of a p c]
  by (auto simp: deref_def store_def buf_index_def)

lemma deref_mem: "a \<in> pool_ptrs p \<Longrightarrow> deref p a \<in> set (buffers p)"
  by (simp add: deref_def buf_index_less)

section \<open>Interface: a buffer allocator\<close>

text \<open>
  What the subscriber thread and the worker thread rely on. A client is disciplined when it
  returns only what it holds; \<open>alloc_run\<close> is \<open>None\<close> for one that is not.
\<close>

datatype alloc_op = Alloc | Free ptr

primrec alloc_run ::
  "('p \<Rightarrow> ptr \<times> 'p) \<Rightarrow> ('p \<Rightarrow> ptr \<Rightarrow> 'p) \<Rightarrow> alloc_op list \<Rightarrow> ptr set \<Rightarrow> 'p \<Rightarrow> (ptr set \<times> 'p) option" where
  "alloc_run alloc free [] held p = Some (held, p)"
| "alloc_run alloc free (x # xs) held p =
     (case x of
        Alloc \<Rightarrow>
          (case alloc p of (b, p1) \<Rightarrow>
             alloc_run alloc free xs (if b = nullptr then held else insert b held) p1)
      | Free b \<Rightarrow> if b \<in> held then alloc_run alloc free xs (held - {b}) (free p b) else None)"

locale buffer_allocator =
  fixes alloc :: "'p \<Rightarrow> ptr \<times> 'p"
    and free :: "'p \<Rightarrow> ptr \<Rightarrow> 'p"
    and held_by_clients :: "'p \<Rightarrow> ptr set"
    and invar :: "'p \<Rightarrow> bool"
    and cap :: "'p \<Rightarrow> nat"
  assumes alloc_null_iff: "invar p \<Longrightarrow> fst (alloc p) = nullptr \<longleftrightarrow> card (held_by_clients p) = cap p"
    and alloc_fresh: "invar p \<Longrightarrow> fst (alloc p) \<notin> held_by_clients p"
    and alloc_held: "invar p \<Longrightarrow> held_by_clients (snd (alloc p)) =
       (if fst (alloc p) = nullptr then held_by_clients p else insert (fst (alloc p)) (held_by_clients p))"
    and free_held: "invar p \<Longrightarrow> b \<in> held_by_clients p \<Longrightarrow>
       held_by_clients (free p b) = held_by_clients p - {b}"
    and invar_alloc: "invar p \<Longrightarrow> invar (snd (alloc p))"
    and invar_free: "invar p \<Longrightarrow> b \<in> held_by_clients p \<Longrightarrow> invar (free p b)"
    and cap_alloc: "invar p \<Longrightarrow> cap (snd (alloc p)) = cap p"
    and cap_free: "invar p \<Longrightarrow> b \<in> held_by_clients p \<Longrightarrow> cap (free p b) = cap p"
    and held_bounded: "invar p \<Longrightarrow> finite (held_by_clients p) \<and> card (held_by_clients p) \<le> cap p"
begin

text \<open>The clients' own account of what they hold agrees with the allocator's at all times.\<close>

lemma alloc_run_agrees:
  assumes "invar p" and "alloc_run alloc free xs (held_by_clients p) p = Some (held, p')"
  shows "held = held_by_clients p' \<and> invar p' \<and> cap p' = cap p"
  using assms
proof (induction xs arbitrary: p)
  case Nil
  then show ?case by auto
next
  case (Cons x xs)
  show ?case
  proof (cases x)
    case Alloc
    obtain b p1 where e: "alloc p = (b, p1)" by fastforce
    show ?thesis
      using Cons.IH [of p1] invar_alloc [OF Cons.prems(1)] cap_alloc [OF Cons.prems(1)]
        alloc_held [OF Cons.prems(1)] Cons.prems(2) Alloc e
      by (cases "b = nullptr") simp_all
  next
    case (Free b)
    with Cons.prems(2) have b: "b \<in> held_by_clients p"
      by (simp split: if_splits)
    then show ?thesis
      using Cons.IH [OF invar_free [OF Cons.prems(1) b]] Cons.prems Free
      by (simp add: free_held cap_free)
  qed
qed

text \<open>What was just handed out can be given back and leaves the allocator as it was to its clients.\<close>

lemma alloc_free_held:
  assumes "invar p" and "fst (alloc p) \<noteq> nullptr"
  shows "held_by_clients (free (snd (alloc p)) (fst (alloc p))) = held_by_clients p"
  using assms free_held [OF invar_alloc [OF assms(1)]] alloc_held alloc_fresh by simp

end

section \<open>The pool is a buffer allocator\<close>

lemma free_ptrs_last:
  assumes "pool_inv p" and "0 < free_count p"
  shows "free_ptrs p = free_ptrs (p\<lparr>free_count := free_count p - 1\<rparr>) @ [free_list p ! (free_count p - 1)]"
proof -
  obtain c where c: "free_count p = Suc c"
    using assms(2) by (cases "free_count p") auto
  then have "c < length (free_list p)"
    using assms(1) by (simp add: pool_inv_def)
  then show ?thesis
    by (simp add: free_ptrs_def c take_Suc_conv_app_nth)
qed

lemma card_owned: "pool_inv p \<Longrightarrow> card (owned p) = PoolSize p - free_count p"
proof -
  assume inv: "pool_inv p"
  then have "card (set (free_ptrs p)) = free_count p"
    by (simp add: pool_inv_def distinct_card) (simp add: free_ptrs_def)
  with inv show ?thesis
    by (simp add: owned_def pool_inv_def card_Diff_subset)
qed

lemma allocate_exhausted:
  "free_count p = 0 \<Longrightarrow> allocate p = (nullptr, p\<lparr>allocation_failures := allocation_failures p + 1\<rparr>)"
  by (simp add: allocate_def)

text \<open>The buffer an allocation hands out, and the state it leaves.\<close>

definition next_free :: "BufferPool \<Rightarrow> ptr" where
  "next_free p = free_list p ! (free_count p - 1)"

lemma next_free_mem:
  assumes "pool_inv p" and "0 < free_count p"
  shows "next_free p \<in> set (free_ptrs p)" and "next_free p \<in> pool_ptrs p"
proof -
  show "next_free p \<in> set (free_ptrs p)"
    using free_ptrs_last [OF assms] by (metis in_set_conv_decomp next_free_def)
  then show "next_free p \<in> pool_ptrs p"
    using assms(1) by (auto simp: pool_inv_def)
qed

lemma pool_field_simps [simp]:
  "deref (p\<lparr>free_count := c\<rparr>) = deref p" "pool_ptrs (p\<lparr>free_count := c\<rparr>) = pool_ptrs p"
  "PoolSize (p\<lparr>free_count := c\<rparr>) = PoolSize p"
  "deref (p\<lparr>free_list := l\<rparr>) = deref p" "pool_ptrs (p\<lparr>free_list := l\<rparr>) = pool_ptrs p"
  "PoolSize (p\<lparr>free_list := l\<rparr>) = PoolSize p"
  "deref (p\<lparr>total_allocations := k\<rparr>) = deref p" "deref (p\<lparr>total_deallocations := k\<rparr>) = deref p"
  "deref (p\<lparr>allocation_failures := k\<rparr>) = deref p"
  "owned (p\<lparr>total_allocations := k\<rparr>) = owned p" "owned (p\<lparr>total_deallocations := k\<rparr>) = owned p"
  "owned (p\<lparr>allocation_failures := k\<rparr>) = owned p"
  "pool_ptrs (p\<lparr>total_allocations := k\<rparr>) = pool_ptrs p"
  "pool_ptrs (p\<lparr>total_deallocations := k\<rparr>) = pool_ptrs p"
  "pool_ptrs (p\<lparr>allocation_failures := k\<rparr>) = pool_ptrs p"
  "PoolSize (p\<lparr>total_allocations := k\<rparr>) = PoolSize p"
  "PoolSize (p\<lparr>total_deallocations := k\<rparr>) = PoolSize p"
  "PoolSize (p\<lparr>allocation_failures := k\<rparr>) = PoolSize p"
  "free_ptrs (p\<lparr>total_allocations := k\<rparr>) = free_ptrs p"
  "free_ptrs (p\<lparr>total_deallocations := k\<rparr>) = free_ptrs p"
  "free_ptrs (p\<lparr>allocation_failures := k\<rparr>) = free_ptrs p"
  by (simp_all add: deref_def buf_index_def fun_eq_iff pool_ptrs_def PoolSize_def owned_def free_ptrs_def)

lemma pool_inv_counters [simp]:
  "pool_inv (p\<lparr>total_allocations := k\<rparr>) = pool_inv p"
  "pool_inv (p\<lparr>total_deallocations := k\<rparr>) = pool_inv p"
  "pool_inv (p\<lparr>allocation_failures := k\<rparr>) = pool_inv p"
  by (simp_all add: pool_inv_def)

lemma store_store [simp]: "store (store p a b) a c = store p a c"
  by (simp add: store_def buf_index_def)

lemma allocate_success:
  assumes "pool_inv p" and "0 < free_count p"
  shows "allocate p =
    (next_free p,
     (store (p\<lparr>free_count := free_count p - 1\<rparr>) (next_free p)
        ((reset (deref p (next_free p)))\<lparr>in_use := True\<rparr>))
       \<lparr>total_allocations := total_allocations p + 1\<rparr>)"
proof -
  let ?p1 = "p\<lparr>free_count := free_count p - 1\<rparr>" and ?a = "next_free p"
  have a: "?a \<in> pool_ptrs ?p1"
    using next_free_mem(2) [OF assms] by simp
  have r: "reset (b\<lparr>in_use := True\<rparr>) = (reset b)\<lparr>in_use := True\<rparr>" for b
    by (simp add: reset_def)
  have "store (store ?p1 ?a ((deref ?p1 ?a)\<lparr>in_use := True\<rparr>)) ?a
      (reset (deref (store ?p1 ?a ((deref ?p1 ?a)\<lparr>in_use := True\<rparr>)) ?a))
    = store ?p1 ?a ((reset (deref p ?a))\<lparr>in_use := True\<rparr>)"
    by (simp only: deref_store(1) [OF a] store_store r pool_field_simps)
  with assms(2) show ?thesis
    by (simp add: allocate_def Let_def next_free_def)
qed

lemma wf_in_use [simp]: "wf_buffer (b\<lparr>in_use := u\<rparr>) = wf_buffer b"
  by (simp add: wf_buffer_def)

lemma buffers_store_wf:
  "\<forall>b \<in> set (buffers p). wf_buffer b \<Longrightarrow> wf_buffer b \<Longrightarrow> \<forall>c \<in> set (buffers (store p a b)). wf_buffer c"
  using set_update_subset_insert [of "buffers p" "buf_index p a" b] by (auto simp: store_def)

text \<open>An update of the free list that keeps buffers and flags in step with it keeps the invariant.\<close>

lemma allocate_owned:
  assumes "pool_inv p" and "0 < free_count p"
  shows "owned (snd (allocate p)) = insert (next_free p) (owned p)" and "next_free p \<notin> owned p"
proof -
  have split: "free_ptrs p = free_ptrs (p\<lparr>free_count := free_count p - 1\<rparr>) @ [next_free p]"
    using free_ptrs_last [OF assms] by (simp add: next_free_def)
  moreover have "distinct (free_ptrs p)" "set (free_ptrs p) \<subseteq> pool_ptrs p"
    using assms(1) by (simp_all add: pool_inv_def)
  ultimately show "owned (snd (allocate p)) = insert (next_free p) (owned p)" "next_free p \<notin> owned p"
    by (auto simp: allocate_success [OF assms] owned_def)
qed

lemma allocate_inv_success:
  assumes "pool_inv p" and "0 < free_count p"
  shows "pool_inv (snd (allocate p))"
proof -
  let ?p1 = "p\<lparr>free_count := free_count p - 1\<rparr>" and ?a = "next_free p"
  let ?b = "(reset (deref p ?a))\<lparr>in_use := True\<rparr>"
  have split: "free_ptrs p = free_ptrs ?p1 @ [?a]"
    using free_ptrs_last [OF assms] by (simp add: next_free_def)
  have a: "?a \<in> pool_ptrs p"
    by (rule next_free_mem(2) [OF assms])
  have wf: "wf_buffer ?b"
    using assms(1) deref_mem [OF a] by (simp add: pool_inv_def wf_reset)
  have own: "owned ?p1 = insert ?a (owned p)"
    using allocate_owned(1) [OF assms] by (simp add: allocate_success [OF assms])
  have flags: "in_use (deref (store ?p1 ?a ?b) c) \<longleftrightarrow> c \<in> owned ?p1" if c: "c \<in> pool_ptrs p" for c
    using c a assms(1) own by (cases "c = ?a") (auto simp: pool_inv_def)
  have "pool_inv (store ?p1 ?a ?b)"
    using assms(1) split a wf flags buffers_store_wf [of ?p1 ?b ?a]
    by (auto simp: pool_inv_def)
  then show ?thesis
    by (simp add: allocate_success [OF assms])
qed

lemma allocate_inv [inv_intros]: "pool_inv p \<Longrightarrow> pool_inv (snd (allocate p))"
  by (cases "free_count p = 0") (simp_all add: allocate_exhausted allocate_inv_success)

lemma PoolSize_allocate [simp]: "pool_inv p \<Longrightarrow> PoolSize (snd (allocate p)) = PoolSize p"
  by (cases "free_count p = 0") (simp_all add: allocate_exhausted allocate_success)

lemma allocate_null_iff: "pool_inv p \<Longrightarrow> fst (allocate p) = nullptr \<longleftrightarrow> free_count p = 0"
  using pool_ptrs_not_null [of p "next_free p"] next_free_mem(2) [of p]
  by (cases "free_count p = 0") (auto simp: allocate_exhausted allocate_success pool_inv_def)

lemma deref_allocate:
  assumes "pool_inv p" and "0 < free_count p" and "c \<in> pool_ptrs p"
  shows "deref (snd (allocate p)) c =
    (if c = next_free p then (reset (deref p c))\<lparr>in_use := True\<rparr> else deref p c)"
proof -
  have "next_free p \<in> pool_ptrs (p\<lparr>free_count := free_count p - 1\<rparr>)"
    using next_free_mem(2) [OF assms(1,2)] by simp
  then show ?thesis
    using assms(3) by (auto simp: allocate_success [OF assms(1,2)])
qed

lemma allocate_simps [simp]:
  "pool_inv p \<Longrightarrow> pool_ptrs (snd (allocate p)) = pool_ptrs p"
  "pool_inv p \<Longrightarrow> free_count (snd (allocate p)) = free_count p - 1"
  "pool_inv p \<Longrightarrow> free_list (snd (allocate p)) = free_list p"
  by (cases "free_count p = 0"; simp add: allocate_exhausted allocate_success)+

text \<open>Giving back a buffer that is held.\<close>

lemma owned_room:
  assumes "pool_inv p" and "a \<in> owned p"
  shows "free_count p < PoolSize p" and "a \<in> pool_ptrs p" and "a \<noteq> nullptr"
proof -
  have "finite (owned p)" by (simp add: owned_def)
  then have "0 < card (owned p)"
    using assms(2) by (auto simp: card_gt_0_iff)
  then show "free_count p < PoolSize p"
    using card_owned [OF assms(1)] by simp
  show mem: "a \<in> pool_ptrs p"
    using assms(2) by (simp add: owned_def)
  show "a \<noteq> nullptr"
    using pool_ptrs_not_null [OF _ mem] assms(1) by (simp add: pool_inv_def)
qed

lemma deallocate_owned_eq:
  assumes "pool_inv p" and "a \<in> owned p"
  shows "deallocate p a =
    (store p a ((deref p a)\<lparr>in_use := False\<rparr>))
      \<lparr>free_count := free_count p + 1, free_list := (free_list p)[free_count p := a],
       total_deallocations := total_deallocations p + 1\<rparr>"
  using owned_room [OF assms] isValidBuffer_pool_ptrs [of a p]
  by (simp add: deallocate_def Let_def)

lemma free_ptrs_push:
  "free_count p < length (free_list p) \<Longrightarrow>
   free_ptrs (p\<lparr>free_count := free_count p + 1, free_list := (free_list p)[free_count p := a]\<rparr>)
     = free_ptrs p @ [a]"
  by (simp add: free_ptrs_def take_Suc_conv_app_nth)

lemma deallocate_owned:
  assumes "pool_inv p" and "a \<in> owned p"
  shows "owned (deallocate p a) = owned p - {a}"
    and "free_ptrs (deallocate p a) = free_ptrs p @ [a]"
proof -
  have len: "free_count p < length (free_list p)"
    using owned_room(1) [OF assms] assms(1) by (simp add: pool_inv_def)
  show f: "free_ptrs (deallocate p a) = free_ptrs p @ [a]"
    using free_ptrs_push [of "store p a ((deref p a)\<lparr>in_use := False\<rparr>)" a] len
    by (simp add: deallocate_owned_eq [OF assms])
  have "pool_ptrs (deallocate p a) = pool_ptrs p"
    by (simp add: deallocate_owned_eq [OF assms])
  with f show "owned (deallocate p a) = owned p - {a}"
    by (auto simp: owned_def)
qed

lemma deallocate_simps:
  assumes "pool_inv p" and "a \<in> owned p"
  shows "PoolSize (deallocate p a) = PoolSize p" "pool_ptrs (deallocate p a) = pool_ptrs p"
    "pool_base (deallocate p a) = pool_base p"
    "length (free_list (deallocate p a)) = length (free_list p)"
    "free_count (deallocate p a) = free_count p + 1"
    "buffers (deallocate p a) = buffers (store p a ((deref p a)\<lparr>in_use := False\<rparr>))"
  by (simp_all add: deallocate_owned_eq [OF assms])

lemma deref_deallocate:
  assumes "pool_inv p" and "a \<in> owned p" and "c \<in> pool_ptrs p"
  shows "deref (deallocate p a) c = (if c = a then (deref p a)\<lparr>in_use := False\<rparr> else deref p c)"
  using assms owned_room(2) [OF assms(1,2)] by (auto simp: deallocate_owned_eq [OF assms(1,2)])

lemma deallocate_inv [inv_intros]:
  assumes "pool_inv p" and "a \<in> owned p"
  shows "pool_inv (deallocate p a)"
proof -
  have "a \<in> pool_ptrs p" by (rule owned_room(2) [OF assms])
  then have "wf_buffer ((deref p a)\<lparr>in_use := False\<rparr>)"
    using assms(1) deref_mem by (simp add: pool_inv_def)
  moreover have "a \<notin> set (free_ptrs p)" and "a \<in> pool_ptrs p"
    using assms(2) by (simp_all add: owned_def)
  ultimately show ?thesis
    using assms owned_room(1) [OF assms] buffers_store_wf [of p "(deref p a)\<lparr>in_use := False\<rparr>" a]
    by (auto simp: pool_inv_def deallocate_owned deallocate_simps deref_deallocate)
qed

text \<open>A client writes to a buffer that it holds, through its pointer.\<close>

lemma pool_inv_store [inv_intros]:
  assumes "pool_inv p" and "a \<in> pool_ptrs p" and "wf_buffer b" and "in_use b = in_use (deref p a)"
  shows "pool_inv (store p a b)"
proof -
  have "in_use (deref (store p a b) c) \<longleftrightarrow> c \<in> owned p" if "c \<in> pool_ptrs p" for c
    using that assms by (cases "c = a") (auto simp: pool_inv_def)
  moreover have "\<forall>c \<in> set (buffers (store p a b)). wf_buffer c"
    using assms by (intro buffers_store_wf) (simp_all add: pool_inv_def)
  ultimately show ?thesis
    using assms(1) by (simp add: pool_inv_def)
qed

lemma wf_recv_stamp [simp]:
  "wf_buffer (b\<lparr>header := (header b)\<lparr>recv_time_ns := t\<rparr>\<rparr>) = wf_buffer b"
  "wf_buffer (b\<lparr>worker_dequeue_time_ns := t\<rparr>) = wf_buffer b"
  by (simp_all add: wf_buffer_def wf_header_def)

lemma owned_bounded: "pool_inv p \<Longrightarrow> finite (owned p) \<and> card (owned p) \<le> PoolSize p"
  by (simp add: card_owned) (simp add: owned_def)

interpretation pool: buffer_allocator allocate deallocate owned pool_inv PoolSize
proof
  fix p
  assume inv: "pool_inv p"
  show "(fst (allocate p) = nullptr) = (card (owned p) = PoolSize p)"
    using inv allocate_null_iff [OF inv] card_owned [OF inv]
    by (auto simp: pool_inv_def pool_size_ok_def)
  show "fst (allocate p) \<notin> owned p"
    using allocate_owned(2) [OF inv] owned_room(3) [OF inv]
    by (cases "free_count p = 0") (auto simp: allocate_exhausted allocate_success [OF inv])
  show "owned (snd (allocate p)) =
      (if fst (allocate p) = nullptr then owned p else insert (fst (allocate p)) (owned p))"
    using allocate_owned(1) [OF inv] allocate_null_iff [OF inv]
    by (cases "free_count p = 0") (auto simp: allocate_exhausted allocate_success [OF inv])
qed (simp_all add: deallocate_owned allocate_inv deallocate_inv deallocate_simps owned_bounded)

lemma new_BufferPool_inv [inv_intros]:
  assumes "0 < base" and "pool_size_ok (length junk)" and "\<forall>j \<in> set junk. length j = MAX_PAYLOAD_SIZE"
  shows "pool_inv (new_BufferPool base junk)" and "owned (new_BufferPool base junk) = {}"
proof -
  let ?p = "new_BufferPool base junk"
  have size: "PoolSize ?p = length junk" "pool_base ?p = base"
    and free: "free_ptrs ?p = map (buf_addr base) [0..<length junk]"
    by (simp_all add: new_BufferPool_def PoolSize_def free_ptrs_def)
  have ptrs: "pool_ptrs ?p = set (free_ptrs ?p)"
    by (auto simp: pool_ptrs_def size free)
  then show own: "owned ?p = {}"
    by (simp add: owned_def)
  have "\<not> in_use (deref ?p a)" if "a \<in> pool_ptrs ?p" for a
    using deref_mem [OF that] by (auto simp: new_BufferPool_def new_MessageBuffer_def)
  moreover have "\<forall>b \<in> set (buffers ?p). wf_buffer b"
    using assms(3) by (auto simp: new_BufferPool_def wf_new_MessageBuffer)
  ultimately show "pool_inv ?p"
    using assms own by (auto simp: pool_inv_def size ptrs free distinct_map inj_on_def)
      (simp_all add: new_BufferPool_def)
qed

section \<open>Statistics\<close>

definition pool_counted :: "BufferPool \<Rightarrow> bool" where
  "pool_counted p \<longleftrightarrow> total_allocations p - total_deallocations p = of_nat (PoolSize p - free_count p)"

lemma allocate_counted:
  assumes "pool_inv p" and "pool_counted p"
  shows "pool_counted (snd (allocate p))"
proof (cases "free_count p = 0")
  case True
  with assms show ?thesis by (simp add: allocate_exhausted pool_counted_def)
next
  case False
  obtain c where c: "free_count p = Suc c"
    using False by (cases "free_count p") auto
  have "total_allocations (snd (allocate p)) = total_allocations p + 1"
    "total_deallocations (snd (allocate p)) = total_deallocations p"
    "free_count (snd (allocate p)) = c"
    using False c by (simp_all add: allocate_success [OF assms(1)])
  moreover have "PoolSize p - c = Suc (PoolSize p - Suc c)"
    using assms(1) c by (auto simp: pool_inv_def)
  ultimately show ?thesis
    using assms by (simp add: pool_counted_def c algebra_simps)
qed

lemma deallocate_counted:
  assumes "pool_inv p" and "pool_counted p" and "a \<in> owned p"
  shows "pool_counted (deallocate p a)"
proof -
  have "total_deallocations (deallocate p a) = total_deallocations p + 1"
    "total_allocations (deallocate p a) = total_allocations p"
    by (simp_all add: deallocate_owned_eq [OF assms(1,3)])
  moreover have "PoolSize p - free_count p = Suc (PoolSize p - (free_count p + 1))"
    using owned_room(1) [OF assms(1,3)] by simp
  ultimately show ?thesis
    using assms(2) by (simp add: pool_counted_def deallocate_simps [OF assms(1,3)] algebra_simps)
qed

section \<open>Properties of whole operations\<close>

definition example_pool :: BufferPool where
  "example_pool = new_BufferPool 4096 (replicate 2 (replicate 4096 0))"

lemma example_pool_inv: "pool_inv example_pool" "owned example_pool = {}" "free_count example_pool = 2"
  "free_list example_pool = [4096, 8288]" "PoolSize example_pool = 2" "pool_base example_pool = 4096"
proof -
  have "\<forall>j \<in> set (replicate 2 (replicate 4096 (0 :: u8))). length j = MAX_PAYLOAD_SIZE"
    by (simp add: MAX_PAYLOAD_SIZE_def)
  then show "pool_inv example_pool" "owned example_pool = {}"
    using new_BufferPool_inv [of 4096 "replicate 2 (replicate 4096 0)"]
    by (simp_all add: example_pool_def pool_size_ok_def)
qed (simp_all add: example_pool_def new_BufferPool_def buf_addr_def MESSAGE_BUFFER_SIZE_def
    upt_rec PoolSize_def)

text \<open>\<open>allocate\<close> returns null exactly when every buffer is in use. Otherwise it hands out a
  buffer of the pool that nobody holds, marked in use and reset, changes no other buffer,
  and takes one off \<open>available()\<close>.\<close>

theorem allocate_correct:
  assumes "pool_inv p"
  shows "(fst (allocate p) = nullptr \<longleftrightarrow> owned p = pool_ptrs p)
     \<and> (fst (allocate p) \<noteq> nullptr \<longrightarrow>
          fst (allocate p) \<in> pool_ptrs p - owned p
          \<and> deref (snd (allocate p)) (fst (allocate p))
              = (reset (deref p (fst (allocate p))))\<lparr>in_use := True\<rparr>
          \<and> (\<forall>c \<in> pool_ptrs p - {fst (allocate p)}. deref (snd (allocate p)) c = deref p c)
          \<and> available (snd (allocate p)) = available p - 1)"
proof (cases "free_count p = 0")
  case True
  then show ?thesis
    by (simp add: allocate_exhausted owned_def free_ptrs_def)
next
  case False
  then have pos: "0 < free_count p" by simp
  note mem = next_free_mem [OF assms pos]
  have "owned p \<noteq> pool_ptrs p"
    using mem by (auto simp: owned_def)
  moreover have "next_free p \<noteq> nullptr"
    using allocate_null_iff [OF assms] False by (simp add: allocate_success [OF assms pos])
  ultimately show ?thesis
    using mem(2) allocate_owned(2) [OF assms pos] deref_allocate [OF assms pos]
      allocate_simps(2) [OF assms]
    by (simp add: available_def) (simp add: allocate_success [OF assms pos])
qed

theorem allocate_correct_witness:
  "fst (allocate example_pool) \<in> pool_ptrs example_pool \<and> available (snd (allocate example_pool)) = 1"
proof -
  have "fst (allocate example_pool) \<noteq> nullptr"
    using allocate_null_iff [OF example_pool_inv(1)] example_pool_inv(3) by simp
  then show ?thesis
    using allocate_correct [OF example_pool_inv(1)] example_pool_inv(3) by (auto simp: available_def)
qed

text \<open>C13: For clients that return only what they hold, the pool is sound over every sequence of
  calls on a new pool: what the clients hold is what the pool counts as in use (so no buffer
  is handed out twice and none is lost), \<open>available()\<close> is the number of the others, and the
  \<open>in_use\<close> flags agree.\<close>

theorem pool_disciplined_run:
  assumes "0 < base" and "pool_size_ok (length junk)" and "\<forall>j \<in> set junk. length j = MAX_PAYLOAD_SIZE"
    and "alloc_run allocate deallocate ops {} (new_BufferPool base junk) = Some (held, p)"
  shows "held = {a \<in> pool_ptrs p. in_use (deref p a)} \<and> available p = length junk - card held"
proof -
  note new = new_BufferPool_inv [OF assms(1-3)]
  have run: "held = owned p" "pool_inv p" "PoolSize p = length junk"
    using pool.alloc_run_agrees [OF new(1), of ops held p] assms(4) new(2)
    by (simp_all add: new_BufferPool_def PoolSize_def)
  then have "free_count p \<le> PoolSize p" and "card (owned p) = PoolSize p - free_count p"
    by (simp_all add: card_owned) (simp add: pool_inv_def)
  moreover have "owned p = {a \<in> pool_ptrs p. in_use (deref p a)}"
    using run(2) by (auto simp: pool_inv_def owned_def)
  ultimately show ?thesis
    using run by (simp add: available_def)
qed

theorem pool_disciplined_run_witness:
  "\<exists>p. alloc_run allocate deallocate [Alloc, Alloc, Free 4096, Alloc, Alloc] {} example_pool
         = Some ({4096, 8288}, p)
     \<and> available p = 0"
proof -
  have junk: "\<forall>j \<in> set (replicate 2 (replicate 4096 (0 :: u8))). length j = MAX_PAYLOAD_SIZE"
    by (simp add: MAX_PAYLOAD_SIZE_def)
  have "\<exists>p. alloc_run allocate deallocate [Alloc, Alloc, Free 4096, Alloc, Alloc] {} example_pool
      = Some ({4096, 8288}, p)"
    by (simp add: allocate_def deallocate_def Let_def isValidBuffer_def buf_addr_def
        example_pool_inv insert_commute MESSAGE_BUFFER_SIZE_def)
  then obtain p where p: "alloc_run allocate deallocate [Alloc, Alloc, Free 4096, Alloc, Alloc] {}
      (new_BufferPool 4096 (replicate 2 (replicate 4096 0))) = Some ({4096, 8288}, p)"
    by (auto simp: example_pool_def)
  from pool_disciplined_run [OF _ _ junk p] p show ?thesis
    by (auto simp: example_pool_def pool_size_ok_def)
qed

text \<open>\<open>deallocate\<close> does not notice a buffer that is returned twice while another is still held:
  the free list then holds it twice, and the next two allocations hand out the same buffer.\<close>

theorem double_deallocate_aliases:
  assumes "pool_inv p" and "a \<in> owned p" and "c \<in> owned p" and "c \<noteq> a"
  shows "let q = deallocate (deallocate p a) a
         in fst (allocate q) = a \<and> fst (allocate (snd (allocate q))) = a"
proof -
  let ?p1 = "deallocate p a"
  have inv1: "pool_inv ?p1" and own1: "c \<in> owned ?p1"
    using assms deallocate_inv deallocate_owned(1) by auto
  have room: "free_count ?p1 < PoolSize ?p1" "free_count p < length (free_list p)"
    using owned_room(1) [OF inv1 own1] owned_room(1) [OF assms(1,2)] assms(1)
    by (auto simp: pool_inv_def)
  have valid: "isValidBuffer ?p1 a" "a \<noteq> nullptr"
    using owned_room(2,3) [OF assms(1,2)] isValidBuffer_pool_ptrs [of a ?p1]
    by (simp_all add: deallocate_simps [OF assms(1,2)])
  define q where "q = deallocate ?p1 a"
  have list1: "free_list ?p1 = (free_list p)[free_count p := a]" "free_count ?p1 = free_count p + 1"
    by (simp_all add: deallocate_owned_eq [OF assms(1,2)])
  have q: "free_count q = free_count p + 2"
    "free_list q = (free_list p)[free_count p := a, free_count p + 1 := a]"
    using room valid list1 by (simp_all add: q_def deallocate_def [of ?p1] Let_def)
  have len: "free_count p + 1 < length (free_list p)"
    using room list1 inv1 deallocate_simps(4) [OF assms(1,2)] by (simp add: pool_inv_def)
  have "fst (allocate q) = a" and "free_count (snd (allocate q)) = free_count p + 1"
    "free_list (snd (allocate q)) = free_list q"
    using q len by (simp_all add: allocate_def Let_def)
  then have "fst (allocate q) = a \<and> fst (allocate (snd (allocate q))) = a"
    using q len by (simp add: allocate_def [of "snd (allocate q)"] Let_def)
  then show ?thesis
    by (simp add: q_def)
qed

lemma example_pool_two_held:
  "\<exists>p. pool_inv p \<and> owned p = {4096, 8288} \<and> PoolSize p = 2"
proof -
  let ?p1 = "snd (allocate example_pool)"
  have o1: "owned ?p1 = {8288}" and i1: "pool_inv ?p1"
    using allocate_owned(1) [OF example_pool_inv(1)] allocate_inv [OF example_pool_inv(1)]
    by (simp_all add: example_pool_inv next_free_def)
  have "owned (snd (allocate ?p1)) = {4096, 8288}"
    using allocate_owned(1) [OF i1] o1
    by (simp add: example_pool_inv allocate_simps [OF example_pool_inv(1)] next_free_def)
  then show ?thesis
    using allocate_inv [OF i1] i1
    by (intro exI [of _ "snd (allocate ?p1)"]) (simp add: example_pool_inv)
qed

theorem double_deallocate_aliases_witness:
  "\<exists>p. pool_inv p \<and> owned p = {4096, 8288}
     \<and> fst (allocate (deallocate (deallocate p 4096) 4096)) = 4096
     \<and> fst (allocate (snd (allocate (deallocate (deallocate p 4096) 4096)))) = 4096"
proof -
  obtain p where p: "pool_inv p" "owned p = {4096, 8288}"
    using example_pool_two_held by blast
  from double_deallocate_aliases [OF p(1), of 4096 8288] p show ?thesis
    by (auto simp: Let_def)
qed

end
