(* ===== verification/Buffer_Pool_Steps.thy ===== *)
theory Buffer_Pool_Steps
  imports Buffer_Pool
begin

text \<open>
  \<open>allocate\<close> and \<open>deallocate\<close> of \<open>BufferPool\<close> split into their accesses to shared memory, with
  one allocating and one deallocating thread interleaved: the subscriber thread and the
  worker thread. The client returns only buffers that were handed to it. \<open>handed\<close> records,
  for the proofs only, the buffers handed out and not yet returned.
\<close>

section \<open>The two threads\<close>

datatype alloc_pc =
    A_Idle
  | A_Cas nat
  | A_Fail
  | A_Pop nat
  | A_Mark ptr
  | A_Reset ptr
  | A_Count ptr

datatype dealloc_pc =
    D_Idle
  | D_Unmark ptr
  | D_Load ptr
  | D_Cas ptr nat
  | D_Overflow
  | D_Push ptr nat
  | D_Count

record pool_threads =
  pool :: BufferPool
  allocator :: alloc_pc
  deallocator :: dealloc_pc
  handed :: "ptr list"

definition pool_threads_init :: "BufferPool \<Rightarrow> pool_threads" where
  "pool_threads_init p = \<lparr>pool = p, allocator = A_Idle, deallocator = D_Idle, handed = []\<rparr>"

text \<open>
  \<open>compare_exchange_weak\<close> may fail at any time and reloads the count when it does.
\<close>

inductive alloc_step :: "pool_threads \<Rightarrow> pool_threads \<Rightarrow> bool" where
  a_load: "allocator s = A_Idle \<Longrightarrow>
     alloc_step s (s\<lparr>allocator := A_Cas (free_count (pool s))\<rparr>)"
| a_exhausted: "allocator s = A_Cas 0 \<Longrightarrow> alloc_step s (s\<lparr>allocator := A_Fail\<rparr>)"
| a_fail: "allocator s = A_Fail \<Longrightarrow>
     alloc_step s
       (s\<lparr>pool := (pool s)\<lparr>allocation_failures := allocation_failures (pool s) + 1\<rparr>,
          allocator := A_Idle\<rparr>)"
| a_cas: "allocator s = A_Cas c \<Longrightarrow> c > 0 \<Longrightarrow> free_count (pool s) = c \<Longrightarrow>
     alloc_step s (s\<lparr>pool := (pool s)\<lparr>free_count := c - 1\<rparr>, allocator := A_Pop (c - 1)\<rparr>)"
| a_retry: "allocator s = A_Cas c \<Longrightarrow> c > 0 \<Longrightarrow>
     alloc_step s (s\<lparr>allocator := A_Cas (free_count (pool s))\<rparr>)"
| a_pop: "allocator s = A_Pop i \<Longrightarrow>
     alloc_step s (s\<lparr>allocator := A_Mark (free_list (pool s) ! i)\<rparr>)"
| a_mark: "allocator s = A_Mark b \<Longrightarrow>
     alloc_step s
       (s\<lparr>pool := store (pool s) b ((deref (pool s) b)\<lparr>in_use := True\<rparr>), allocator := A_Reset b\<rparr>)"
| a_reset: "allocator s = A_Reset b \<Longrightarrow>
     alloc_step s
       (s\<lparr>pool := store (pool s) b (reset (deref (pool s) b)), allocator := A_Count b\<rparr>)"
| a_count: "allocator s = A_Count b \<Longrightarrow>
     alloc_step s
       (s\<lparr>pool := (pool s)\<lparr>total_allocations := total_allocations (pool s) + 1\<rparr>,
          allocator := A_Idle, handed := handed s @ [b]\<rparr>)"

inductive dealloc_step :: "pool_threads \<Rightarrow> pool_threads \<Rightarrow> bool" where
  d_call: "deallocator s = D_Idle \<Longrightarrow> b \<in> set (handed s) \<Longrightarrow> b \<noteq> nullptr \<Longrightarrow> isValidBuffer (pool s) b \<Longrightarrow>
     dealloc_step s (s\<lparr>deallocator := D_Unmark b, handed := remove1 b (handed s)\<rparr>)"
| d_unmark: "deallocator s = D_Unmark b \<Longrightarrow>
     dealloc_step s
       (s\<lparr>pool := store (pool s) b ((deref (pool s) b)\<lparr>in_use := False\<rparr>), deallocator := D_Load b\<rparr>)"
| d_load: "deallocator s = D_Load b \<Longrightarrow> free_count (pool s) < PoolSize (pool s) \<Longrightarrow>
     dealloc_step s (s\<lparr>deallocator := D_Cas b (free_count (pool s))\<rparr>)"
| d_overflow: "deallocator s = D_Load b \<Longrightarrow> \<not> free_count (pool s) < PoolSize (pool s) \<Longrightarrow>
     dealloc_step s (s\<lparr>deallocator := D_Overflow\<rparr>)"
| d_cas: "deallocator s = D_Cas b c \<Longrightarrow> free_count (pool s) = c \<Longrightarrow>
     dealloc_step s (s\<lparr>pool := (pool s)\<lparr>free_count := c + 1\<rparr>, deallocator := D_Push b c\<rparr>)"
| d_retry: "deallocator s = D_Cas b c \<Longrightarrow> dealloc_step s (s\<lparr>deallocator := D_Load b\<rparr>)"
| d_push: "deallocator s = D_Push b c \<Longrightarrow>
     dealloc_step s
       (s\<lparr>pool := (pool s)\<lparr>free_list := (free_list (pool s))[c := b]\<rparr>, deallocator := D_Count\<rparr>)"
| d_count: "deallocator s = D_Count \<Longrightarrow>
     dealloc_step s
       (s\<lparr>pool := (pool s)\<lparr>total_deallocations := total_deallocations (pool s) + 1\<rparr>,
          deallocator := D_Idle\<rparr>)"

inductive pool_reachable :: "BufferPool \<Rightarrow> pool_threads \<Rightarrow> bool" for p where
  pool_start: "pool_reachable p (pool_threads_init p)"
| pool_alloc: "pool_reachable p s \<Longrightarrow> alloc_step s t \<Longrightarrow> pool_reachable p t"
| pool_dealloc: "pool_reachable p s \<Longrightarrow> dealloc_step s t \<Longrightarrow> pool_reachable p t"

section \<open>What the interleaving keeps\<close>

text \<open>The buffers a thread has in its hands between taking them and passing them on.\<close>

fun alloc_transit :: "alloc_pc \<Rightarrow> nat" where
  "alloc_transit (A_Pop _) = 1"
| "alloc_transit (A_Mark _) = 1"
| "alloc_transit (A_Reset _) = 1"
| "alloc_transit (A_Count _) = 1"
| "alloc_transit _ = 0"

fun dealloc_transit :: "dealloc_pc \<Rightarrow> nat" where
  "dealloc_transit (D_Unmark _) = 1"
| "dealloc_transit (D_Load _) = 1"
| "dealloc_transit (D_Cas _ _) = 1"
| "dealloc_transit _ = 0"

fun alloc_pc_ok :: "BufferPool \<Rightarrow> alloc_pc \<Rightarrow> bool" where
  "alloc_pc_ok p (A_Pop i) \<longleftrightarrow> i < PoolSize p"
| "alloc_pc_ok p (A_Mark b) \<longleftrightarrow> b \<in> pool_ptrs p"
| "alloc_pc_ok p (A_Reset b) \<longleftrightarrow> b \<in> pool_ptrs p"
| "alloc_pc_ok p (A_Count b) \<longleftrightarrow> b \<in> pool_ptrs p"
| "alloc_pc_ok p _ \<longleftrightarrow> True"

fun dealloc_pc_ok :: "BufferPool \<Rightarrow> dealloc_pc \<Rightarrow> bool" where
  "dealloc_pc_ok p (D_Unmark b) \<longleftrightarrow> b \<in> pool_ptrs p"
| "dealloc_pc_ok p (D_Load b) \<longleftrightarrow> b \<in> pool_ptrs p"
| "dealloc_pc_ok p (D_Cas b c) \<longleftrightarrow> b \<in> pool_ptrs p \<and> c < PoolSize p"
| "dealloc_pc_ok p (D_Push b i) \<longleftrightarrow> b \<in> pool_ptrs p \<and> i < PoolSize p"
| "dealloc_pc_ok p D_Overflow \<longleftrightarrow> False"
| "dealloc_pc_ok p _ \<longleftrightarrow> True"

definition pool_threads_inv :: "nat \<Rightarrow> pool_threads \<Rightarrow> bool" where
  "pool_threads_inv n s \<longleftrightarrow>
     PoolSize (pool s) = n
     \<and> length (free_list (pool s)) = n \<and> set (free_list (pool s)) \<subseteq> pool_ptrs (pool s)
     \<and> set (handed s) \<subseteq> pool_ptrs (pool s)
     \<and> alloc_pc_ok (pool s) (allocator s) \<and> dealloc_pc_ok (pool s) (deallocator s)
     \<and> free_count (pool s) + length (handed s)
         + alloc_transit (allocator s) + dealloc_transit (deallocator s) = n"

lemma alloc_pc_ok_cong:
  "PoolSize q = PoolSize p \<Longrightarrow> pool_ptrs q = pool_ptrs p \<Longrightarrow> alloc_pc_ok q c = alloc_pc_ok p c"
  by (cases c) simp_all

lemma dealloc_pc_ok_cong:
  "PoolSize q = PoolSize p \<Longrightarrow> pool_ptrs q = pool_ptrs p \<Longrightarrow> dealloc_pc_ok q c = dealloc_pc_ok p c"
  by (cases c) simp_all

lemma pc_ok_updates [simp]:
  "alloc_pc_ok (p\<lparr>free_count := k\<rparr>) c = alloc_pc_ok p c"
  "alloc_pc_ok (p\<lparr>free_list := l\<rparr>) c = alloc_pc_ok p c"
  "alloc_pc_ok (p\<lparr>total_deallocations := w\<rparr>) c = alloc_pc_ok p c"
  "alloc_pc_ok (store p a b) c = alloc_pc_ok p c"
  "dealloc_pc_ok (p\<lparr>free_count := k\<rparr>) d = dealloc_pc_ok p d"
  "dealloc_pc_ok (p\<lparr>total_allocations := w\<rparr>) d = dealloc_pc_ok p d"
  "dealloc_pc_ok (p\<lparr>allocation_failures := w\<rparr>) d = dealloc_pc_ok p d"
  "dealloc_pc_ok (store p a b) d = dealloc_pc_ok p d"
  by (rule alloc_pc_ok_cong dealloc_pc_ok_cong; simp)+

lemma alloc_step_inv:
  assumes "alloc_step s t" and "pool_threads_inv n s"
  shows "pool_threads_inv n t"
  using assms
proof cases
  case (a_pop i)
  then have "free_list (pool s) ! i \<in> pool_ptrs (pool s)"
    using assms(2) by (auto simp: pool_threads_inv_def)
  with a_pop assms(2) show ?thesis
    by (simp add: pool_threads_inv_def)
qed (auto simp: pool_threads_inv_def)

lemma dealloc_step_inv:
  assumes "dealloc_step s t" and "pool_threads_inv n s"
  shows "pool_threads_inv n t"
  using assms
proof cases
  case (d_call b)
  then obtain k where "length (handed s) = Suc k"
    by (cases "handed s") auto
  then show ?thesis
    using d_call assms(2) set_remove1_subset [of b "handed s"]
    by (auto simp: pool_threads_inv_def length_remove1)
next
  case (d_push b c)
  then show ?thesis
    using assms(2) set_update_subset_insert [of "free_list (pool s)" c b]
    by (auto simp: pool_threads_inv_def)
qed (auto simp: pool_threads_inv_def)

lemma pool_reachable_inv:
  assumes "pool_inv p" and "free_count p = PoolSize p" and "pool_reachable p s"
  shows "pool_threads_inv (PoolSize p) s"
  using assms(3)
proof (induction rule: pool_reachable.induct)
  case pool_start
  have "set (free_list p) \<subseteq> pool_ptrs p"
    using assms(1,2) by (auto simp: pool_inv_def free_ptrs_def)
  then show ?case
    using assms(1,2) by (simp add: pool_threads_inv_def pool_threads_init_def pool_inv_def)
qed (auto intro: alloc_step_inv dealloc_step_inv)

section \<open>Runs\<close>

text \<open>A call of \<open>allocate\<close> that is not disturbed, from any point of the other thread.\<close>

lemma allocate_call:
  assumes reach: "pool_reachable p s" and idle: "allocator s = A_Idle"
    and count: "free_count (pool s) = Suc c"
  obtains t where "pool_reachable p t" "allocator t = A_Idle" "deallocator t = deallocator s"
    "handed t = handed s @ [free_list (pool s) ! c]" "free_count (pool t) = c"
    "free_list (pool t) = free_list (pool s)" "pool_ptrs (pool t) = pool_ptrs (pool s)"
    "PoolSize (pool t) = PoolSize (pool s)" "pool_base (pool t) = pool_base (pool s)"
proof -
  let ?b = "free_list (pool s) ! c"
  define s1 where "s1 = s\<lparr>allocator := A_Cas (Suc c)\<rparr>"
  define s2 where "s2 = s1\<lparr>pool := (pool s1)\<lparr>free_count := c\<rparr>, allocator := A_Pop c\<rparr>"
  define s3 where "s3 = s2\<lparr>allocator := A_Mark ?b\<rparr>"
  define s4 where "s4 = s3\<lparr>pool := store (pool s3) ?b ((deref (pool s3) ?b)\<lparr>in_use := True\<rparr>),
    allocator := A_Reset ?b\<rparr>"
  define s5 where "s5 = s4\<lparr>pool := store (pool s4) ?b (reset (deref (pool s4) ?b)), allocator := A_Count ?b\<rparr>"
  define s6 where "s6 = s5\<lparr>pool := (pool s5)\<lparr>total_allocations := total_allocations (pool s5) + 1\<rparr>,
    allocator := A_Idle, handed := handed s5 @ [?b]\<rparr>"
  note defs = s1_def s2_def s3_def s4_def s5_def s6_def
  have "alloc_step s s1" using a_load [OF idle] count by (simp add: defs)
  moreover have "alloc_step s1 s2" using a_cas [of s1 "Suc c"] count by (simp add: defs)
  moreover have "alloc_step s2 s3" using a_pop [of s2 c] by (simp add: defs)
  moreover have "alloc_step s3 s4" using a_mark [of s3 ?b] by (simp add: s3_def s4_def)
  moreover have "alloc_step s4 s5" using a_reset [of s4 ?b] by (simp add: s4_def s5_def)
  moreover have "alloc_step s5 s6" using a_count [of s5 ?b] by (simp add: s5_def s6_def)
  ultimately have "pool_reachable p s6"
    using reach by (meson pool_alloc)
  then show thesis
    by (rule that) (simp_all add: defs)
qed

text \<open>A call of \<open>deallocate\<close> up to the point where it has claimed a slot of the free list.\<close>

lemma deallocate_claim:
  assumes reach: "pool_reachable p s" and idle: "deallocator s = D_Idle"
    and b: "b \<in> set (handed s)" "b \<in> pool_ptrs (pool s)" "0 < pool_base (pool s)"
    and count: "free_count (pool s) = c" "c < PoolSize (pool s)"
  obtains t where "pool_reachable p t" "deallocator t = D_Push b c" "allocator t = allocator s"
    "handed t = remove1 b (handed s)" "free_count (pool t) = Suc c"
    "free_list (pool t) = free_list (pool s)"
proof -
  define s1 where "s1 = s\<lparr>deallocator := D_Unmark b, handed := remove1 b (handed s)\<rparr>"
  define s2 where "s2 = s1\<lparr>pool := store (pool s1) b ((deref (pool s1) b)\<lparr>in_use := False\<rparr>),
    deallocator := D_Load b\<rparr>"
  define s3 where "s3 = s2\<lparr>deallocator := D_Cas b c\<rparr>"
  define s4 where "s4 = s3\<lparr>pool := (pool s3)\<lparr>free_count := c + 1\<rparr>, deallocator := D_Push b c\<rparr>"
  note defs = s1_def s2_def s3_def s4_def
  have "dealloc_step s s1"
    using d_call [OF idle b(1)] b isValidBuffer_pool_ptrs pool_ptrs_not_null by (simp add: defs)
  moreover have "dealloc_step s1 s2" using d_unmark [of s1 b] by (simp add: s1_def s2_def)
  moreover have "dealloc_step s2 s3" using d_load [of s2 b] count by (simp add: defs)
  moreover have "dealloc_step s3 s4" using d_cas [of s3 b c] count by (simp add: defs)
  ultimately have "pool_reachable p s4"
    using reach by (meson pool_dealloc)
  then show thesis
    by (rule that) (simp_all add: defs)
qed

section \<open>Properties of the interleaved operations\<close>

text \<open>Memory safety under interleaving: in every state the two threads reach, the count, the
  buffers with the client and those in transit add up to the pool size, every pointer with the
  client or in the free list is a buffer of the pool, each thread is about to touch a slot inside
  the free list, and the overflow error of \<open>deallocate\<close> is not reached.\<close>

theorem pool_threads_safe:
  assumes "pool_inv p" and "free_count p = PoolSize p" and "pool_reachable p s"
  shows "free_count (pool s) + length (handed s)
           + alloc_transit (allocator s) + dealloc_transit (deallocator s) = PoolSize p
     \<and> set (handed s) \<union> set (free_list (pool s)) \<subseteq> pool_ptrs (pool s)
     \<and> alloc_pc_ok (pool s) (allocator s) \<and> dealloc_pc_ok (pool s) (deallocator s)
     \<and> deallocator s \<noteq> D_Overflow"
  using pool_reachable_inv [OF assms] by (auto simp: pool_threads_inv_def)

theorem pool_threads_safe_witness:
  "\<exists>s. pool_reachable example_pool s \<and> handed s = [8288] \<and> free_count (pool s) = 1
     \<and> set (handed s) \<subseteq> pool_ptrs (pool s)"
proof -
  have full: "free_count example_pool = PoolSize example_pool"
    by (simp add: example_pool_inv)
  obtain s where s: "pool_reachable example_pool s" "handed s = [8288]" "free_count (pool s) = 1"
    by (rule allocate_call [OF pool_start, of example_pool 1])
       (auto simp: pool_threads_init_def example_pool_inv)
  from pool_threads_safe [OF example_pool_inv(1) full s(1)] s show ?thesis by auto
qed

text \<open>The claim of a free-list slot and the access to it are two steps, and exclusive ownership
  does not survive their interleaving: from every new pool of at least two buffers the threads
  reach a state in which the client, which has returned only what it was given, holds the same
  buffer twice. The allocation pops a slot that the deallocation has counted and not yet
  written.\<close>

theorem pool_threads_double_handout:
  assumes inv: "pool_inv p" and full: "free_count p = PoolSize p" and two: "2 \<le> PoolSize p"
  shows "\<exists>s. pool_reachable p s \<and> \<not> distinct (handed s)"
proof -
  obtain c where c: "free_count p = Suc (Suc c)" "PoolSize p = Suc (Suc c)"
    using full two by (metis Suc_le_D numeral_2_eq_2 Suc_le_mono)
  let ?x = "free_list p ! Suc c" and ?y = "free_list p ! c"
  have len: "length (free_list p) = Suc (Suc c)"
    using inv c by (simp add: pool_inv_def)
  then have x: "?x \<in> pool_ptrs p"
    using inv c by (auto simp: pool_inv_def free_ptrs_def)
  obtain s1 where s1: "pool_reachable p s1" "allocator s1 = A_Idle" "deallocator s1 = D_Idle"
    "handed s1 = [?x]" "free_count (pool s1) = Suc c" "free_list (pool s1) = free_list p"
    "pool_ptrs (pool s1) = pool_ptrs p" "PoolSize (pool s1) = PoolSize p" "pool_base (pool s1) = pool_base p"
    by (rule allocate_call [OF pool_start, of p "Suc c"]) (auto simp: pool_threads_init_def c)
  obtain s2 where s2: "pool_reachable p s2" "allocator s2 = A_Idle" "deallocator s2 = D_Idle"
    "handed s2 = [?x, ?y]" "free_count (pool s2) = c" "free_list (pool s2) = free_list p"
    "pool_ptrs (pool s2) = pool_ptrs p" "PoolSize (pool s2) = PoolSize p" "pool_base (pool s2) = pool_base p"
    by (rule allocate_call [OF s1(1,2,5)]) (auto simp: s1)
  obtain s3 where s3: "pool_reachable p s3" "allocator s3 = A_Idle" "handed s3 = [?y]"
    "free_count (pool s3) = Suc c" "free_list (pool s3) = free_list p"
    by (rule deallocate_claim [OF s2(1,3), of ?x c])
       (use inv x c s2 in \<open>auto simp: pool_inv_def\<close>)
  obtain s4 where "pool_reachable p s4" "handed s4 = [?y, ?y]"
    by (rule allocate_call [OF s3(1,2,4)]) (auto simp: s3)
  then show ?thesis
    by (intro exI [of _ s4]) simp
qed

theorem pool_threads_double_handout_witness:
  "\<exists>s. pool_reachable example_pool s \<and> \<not> distinct (handed s)"
  by (rule pool_threads_double_handout [OF example_pool_inv(1)]) (simp_all add: example_pool_inv)

end
