(* ===== verification/Checkpoint.thy ===== *)
theory Checkpoint
  imports Prelude
begin

text \<open>
  \<open>CheckpointManager\<close> (\<open>subscriber/include/CheckpointManager.h\<close>,
  \<open>subscriber/src/CheckpointManager.cpp\<close>): the in-memory checkpoint, the 40-byte file it is
  flushed to, and loading it back. The file system is a map from paths to contents. What the
  operating system decides during a flush (whether a file opens, how many bytes reach it,
  whether the rename succeeds) is a parameter of \<open>flush\<close>. Printing is left out.
\<close>

section \<open>State\<close>

record CheckpointData =
  last_sequence_number :: i64
  last_position :: i64
  message_count :: i64
  timestamp_ns :: i64

definition zero_checkpoint :: CheckpointData where
  "zero_checkpoint =
     \<lparr>last_sequence_number = 0, last_position = 0, message_count = 0, timestamp_ns = 0\<rparr>"

record CheckpointManager =
  cp_data :: CheckpointData
  checkpoint_file :: string
  running :: bool
  flush_interval :: int
  flush_count :: u64
  flush_failures :: u64

type_synonym filesystem = "string \<rightharpoonup> u8 list"

record flush_io =
  open_ok :: bool
  bytes_written :: nat
  rename_ok :: bool

section \<open>Update and the getters\<close>

text \<open>\<open>now\<close> is the reading of the system clock.\<close>

definition update :: "CheckpointManager \<Rightarrow> i64 \<Rightarrow> i64 \<Rightarrow> i64 \<Rightarrow> i64 \<Rightarrow> CheckpointManager" where
  "update cm now sequence position msg_count =
     cm\<lparr>cp_data := \<lparr>last_sequence_number = sequence, last_position = position,
                    message_count = msg_count, timestamp_ns = now\<rparr>\<rparr>"

definition getLastSequence :: "CheckpointManager \<Rightarrow> i64" where
  "getLastSequence cm = last_sequence_number (cp_data cm)"

definition getLastPosition :: "CheckpointManager \<Rightarrow> i64" where
  "getLastPosition cm = last_position (cp_data cm)"

definition getMessageCount :: "CheckpointManager \<Rightarrow> i64" where
  "getMessageCount cm = message_count (cp_data cm)"

definition getTimestamp :: "CheckpointManager \<Rightarrow> i64" where
  "getTimestamp cm = timestamp_ns (cp_data cm)"

section \<open>Flush\<close>

definition CHECKPOINT_MAGIC :: u32 where
  "CHECKPOINT_MAGIC = 0x43484B50"

definition CHECKPOINT_VERSION :: u16 where
  "CHECKPOINT_VERSION = 1"

definition checkpoint_image :: "CheckpointData \<Rightarrow> u8 list" where
  "checkpoint_image d =
     le_bytes 4 CHECKPOINT_MAGIC @ le_bytes 2 CHECKPOINT_VERSION @ le_bytes 2 (0 :: u16)
     @ le_bytes 8 (last_sequence_number d) @ le_bytes 8 (last_position d)
     @ le_bytes 8 (message_count d) @ le_bytes 8 (timestamp_ns d)"

definition temp_file :: "string \<Rightarrow> string" where
  "temp_file file = file @ ''.tmp''"

text \<open>\<open>std::rename\<close> of an existing file replaces the target in one step.\<close>

definition fs_rename :: "string \<Rightarrow> string \<Rightarrow> filesystem \<Rightarrow> filesystem" where
  "fs_rename old new fs = (fs(old := None))(new := fs old)"

definition flush_failed :: "CheckpointManager \<Rightarrow> CheckpointManager" where
  "flush_failed cm = cm\<lparr>flush_failures := flush_failures cm + 1\<rparr>"

definition nothing_to_flush :: "CheckpointData \<Rightarrow> bool" where
  "nothing_to_flush d \<longleftrightarrow>
     last_sequence_number d = 0 \<and> last_position d = 0 \<and> message_count d = 0"

definition flush :: "flush_io \<Rightarrow> CheckpointManager \<Rightarrow> filesystem \<Rightarrow> CheckpointManager \<times> filesystem"
  where
  "flush io cm fs =
     (if nothing_to_flush (cp_data cm) then (cm, fs)
      else let temp = temp_file (checkpoint_file cm); image = checkpoint_image (cp_data cm) in
        if \<not> open_ok io then (flush_failed cm, fs)
        else let fs1 = fs(temp \<mapsto> take (bytes_written io) image) in
          if bytes_written io < length image then (flush_failed cm, fs1)
          else if \<not> rename_ok io then (flush_failed cm, fs1)
          else (cm\<lparr>flush_count := flush_count cm + 1\<rparr>,
                fs_rename temp (checkpoint_file cm) fs1))"

definition forceFlush ::
  "flush_io \<Rightarrow> CheckpointManager \<Rightarrow> filesystem \<Rightarrow> CheckpointManager \<times> filesystem" where
  "forceFlush io cm fs = flush io cm fs"

section \<open>Load\<close>

text \<open>
  An input stream over a file. \<open>read\<close> into a variable stores what is left when the file is too
  short and then fails; once failed it stores nothing. The variables of \<open>load\<close> are not
  initialised, so a read takes their former memory content as an argument.
\<close>

record istream =
  is_rest :: "u8 list"
  is_ok :: bool

definition istream_read :: "u8 list \<Rightarrow> istream \<Rightarrow> u8 list \<times> istream" where
  "istream_read var s =
     (if \<not> is_ok s then (var, s)
      else if length var \<le> length (is_rest s) then
        (take (length var) (is_rest s), s\<lparr>is_rest := drop (length var) (is_rest s)\<rparr>)
      else (is_rest s @ drop (length (is_rest s)) var, \<lparr>is_rest = [], is_ok = False\<rparr>))"

text \<open>The uninitialised stack variables of \<open>load\<close>.\<close>

record load_stack =
  var_magic :: "u8 list"
  var_version :: "u8 list"
  var_padding :: "u8 list"
  var_seq :: "u8 list"
  var_pos :: "u8 list"
  var_count :: "u8 list"
  var_ts :: "u8 list"

definition wf_stack :: "load_stack \<Rightarrow> bool" where
  "wf_stack st \<longleftrightarrow>
     length (var_magic st) = 4 \<and> length (var_version st) = 2 \<and> length (var_padding st) = 2
     \<and> length (var_seq st) = 8 \<and> length (var_pos st) = 8 \<and> length (var_count st) = 8
     \<and> length (var_ts st) = 8"

text \<open>The data that \<open>load\<close> accepts from a file, if any.\<close>

definition read_checkpoint :: "load_stack \<Rightarrow> u8 list \<Rightarrow> CheckpointData option" where
  "read_checkpoint st contents =
     (let (magic, s1) = istream_read (var_magic st) \<lparr>is_rest = contents, is_ok = True\<rparr> in
      if \<not> is_ok s1 \<or> of_le magic \<noteq> CHECKPOINT_MAGIC then None
      else let (version, s2) = istream_read (var_version st) s1 in
        if of_le version \<noteq> CHECKPOINT_VERSION then None
        else let (padding, s3) = istream_read (var_padding st) s2;
                 (seq, s4) = istream_read (var_seq st) s3;
                 (pos, s5) = istream_read (var_pos st) s4;
                 (count, s6) = istream_read (var_count st) s5;
                 (ts, s7) = istream_read (var_ts st) s6
          in if \<not> is_ok s7 then None
             else Some \<lparr>last_sequence_number = of_le seq, last_position = of_le pos,
                        message_count = of_le count, timestamp_ns = of_le ts\<rparr>)"

definition load :: "load_stack \<Rightarrow> filesystem \<Rightarrow> CheckpointManager \<Rightarrow> CheckpointManager" where
  "load st fs cm =
     (case fs (checkpoint_file cm) of
        None \<Rightarrow> cm
      | Some contents \<Rightarrow>
          (case read_checkpoint st contents of
             None \<Rightarrow> cm
           | Some d \<Rightarrow> cm\<lparr>cp_data := d\<rparr>))"

section \<open>Constructor and destructor\<close>

definition new_CheckpointManager ::
  "load_stack \<Rightarrow> filesystem \<Rightarrow> string \<Rightarrow> int \<Rightarrow> CheckpointManager" where
  "new_CheckpointManager st fs file flush_interval_sec =
     load st fs
       \<lparr>cp_data = zero_checkpoint, checkpoint_file = file, running = True,
        flush_interval = flush_interval_sec, flush_count = 0, flush_failures = 0\<rparr>"

text \<open>The destructor's final flush, after the flush thread has been joined.\<close>

definition delete_CheckpointManager ::
  "flush_io \<Rightarrow> CheckpointManager \<Rightarrow> filesystem \<Rightarrow> CheckpointManager \<times> filesystem" where
  "delete_CheckpointManager io cm fs = flush io (cm\<lparr>running := False\<rparr>) fs"

section \<open>Lemmas\<close>

lemma length_checkpoint_image [simp]: "length (checkpoint_image d) = 40"
  by (simp add: checkpoint_image_def)

lemma temp_file_neq [simp]: "temp_file file \<noteq> file" "file \<noteq> temp_file file"
  by (simp_all add: temp_file_def)

lemma istream_read_enough:
  "is_ok s \<Longrightarrow> length var \<le> length (is_rest s) \<Longrightarrow>
     istream_read var s
       = (take (length var) (is_rest s), s\<lparr>is_rest := drop (length var) (is_rest s)\<rparr>)"
  by (simp add: istream_read_def)

text \<open>How much input the reads have consumed so far decides whether the stream is still good.\<close>

lemma istream_read_ok:
  "is_ok (snd (istream_read var s)) \<longleftrightarrow> is_ok s \<and> length var \<le> length (is_rest s)"
  by (simp add: istream_read_def)

lemma istream_read_rest:
  "is_ok (snd (istream_read var s)) \<Longrightarrow>
     length (is_rest (snd (istream_read var s))) + length var = length (is_rest s)"
  by (auto simp: istream_read_def split: if_splits)

text \<open>Whatever the uninitialised variables hold, nothing shorter than 40 bytes is accepted.\<close>

lemma read_checkpoint_short:
  assumes "wf_stack st" and "length contents < 40"
  shows "read_checkpoint st contents = None"
proof (rule ccontr)
  assume "read_checkpoint st contents \<noteq> None"
  let ?s1 = "snd (istream_read (var_magic st) \<lparr>is_rest = contents, is_ok = True\<rparr>)"
  let ?s2 = "snd (istream_read (var_version st) ?s1)"
  let ?s3 = "snd (istream_read (var_padding st) ?s2)"
  let ?s4 = "snd (istream_read (var_seq st) ?s3)"
  let ?s5 = "snd (istream_read (var_pos st) ?s4)"
  let ?s6 = "snd (istream_read (var_count st) ?s5)"
  let ?s7 = "snd (istream_read (var_ts st) ?s6)"
  have "is_ok ?s7"
    using \<open>read_checkpoint st contents \<noteq> None\<close>
    by (simp add: read_checkpoint_def Let_def case_prod_beta split: if_splits)
  then have "is_ok ?s6" "is_ok ?s5" "is_ok ?s4" "is_ok ?s3" "is_ok ?s2" "is_ok ?s1"
    by (simp_all add: istream_read_ok)
  note ok = this \<open>is_ok ?s7\<close>
  show False
    using ok [THEN istream_read_rest] assms by (simp add: wf_stack_def)
qed

lemma read_checkpoint_long:
  assumes "wf_stack st" and "40 \<le> length contents"
  shows "read_checkpoint st contents =
    (if take 4 contents = le_bytes 4 CHECKPOINT_MAGIC
        \<and> take 2 (drop 4 contents) = le_bytes 2 CHECKPOINT_VERSION
     then Some \<lparr>last_sequence_number = of_le (take 8 (drop 8 contents)),
                last_position = of_le (take 8 (drop 16 contents)),
                message_count = of_le (take 8 (drop 24 contents)),
                timestamp_ns = of_le (take 8 (drop 32 contents))\<rparr>
     else None)"
proof -
  have m: "of_le (take 4 contents) = CHECKPOINT_MAGIC \<longleftrightarrow> take 4 contents = le_bytes 4 CHECKPOINT_MAGIC"
    using assms(2) le_bytes_of_le_eq [of "take 4 contents" 4, where 'a = 32] by fastforce
  have v: "of_le (take 2 (drop 4 contents)) = CHECKPOINT_VERSION
      \<longleftrightarrow> take 2 (drop 4 contents) = le_bytes 2 CHECKPOINT_VERSION"
    using assms(2) le_bytes_of_le_eq [of "take 2 (drop 4 contents)" 2, where 'a = 16] by fastforce
  show ?thesis
    using assms m v by (simp add: read_checkpoint_def istream_read_enough wf_stack_def)
qed

lemma read_checkpoint_image [simp]:
  assumes "wf_stack st"
  shows "read_checkpoint st (checkpoint_image d) = Some d"
  by (simp add: read_checkpoint_long assms) (simp add: checkpoint_image_def)

text \<open>What is accepted does not depend on the memory that the variables had before.\<close>

lemma read_checkpoint_stack:
  "wf_stack st \<Longrightarrow> wf_stack st' \<Longrightarrow> read_checkpoint st contents = read_checkpoint st' contents"
  by (cases "length contents < 40") (simp_all add: read_checkpoint_short read_checkpoint_long)

lemma flush_simps [simp]:
  "cp_data (fst (flush io cm fs)) = cp_data cm"
  "checkpoint_file (fst (flush io cm fs)) = checkpoint_file cm"
  by (simp_all add: flush_def Let_def flush_failed_def)

text \<open>A flush leaves the checkpoint file as it was or replaces it by the complete image.\<close>

lemma flush_file:
  "snd (flush io cm fs) (checkpoint_file cm) =
     (if nothing_to_flush (cp_data cm) \<or> \<not> open_ok io
         \<or> bytes_written io < 40 \<or> \<not> rename_ok io
      then fs (checkpoint_file cm) else Some (checkpoint_image (cp_data cm)))"
  by (simp add: flush_def Let_def fs_rename_def)

lemma flush_frame:
  "f \<noteq> checkpoint_file cm \<Longrightarrow> f \<noteq> temp_file (checkpoint_file cm) \<Longrightarrow>
     snd (flush io cm fs) f = fs f"
  by (simp add: flush_def Let_def fs_rename_def)

text \<open>The four data fields in the order of the file.\<close>

definition checkpoint_fields :: "CheckpointData \<Rightarrow> u8 list" where
  "checkpoint_fields d =
     le_bytes 8 (last_sequence_number d) @ le_bytes 8 (last_position d)
     @ le_bytes 8 (message_count d) @ le_bytes 8 (timestamp_ns d)"

lemma take_drop_split:
  "n + k \<le> length xs \<Longrightarrow> drop n xs = take k (drop n xs) @ drop (n + k) xs"
  by (metis add.commute append_take_drop_id drop_drop)

lemma checkpoint_split:
  assumes "40 \<le> length xs"
  shows "xs = take 4 xs @ take 2 (drop 4 xs) @ take 2 (drop 6 xs) @ take 8 (drop 8 xs)
     @ take 8 (drop 16 xs) @ take 8 (drop 24 xs) @ take 8 (drop 32 xs) @ drop 40 xs"
  using assms take_drop_split [of 0 4 xs] take_drop_split [of 4 2 xs] take_drop_split [of 6 2 xs]
    take_drop_split [of 8 8 xs] take_drop_split [of 16 8 xs] take_drop_split [of 24 8 xs]
    take_drop_split [of 32 8 xs]
  by simp

lemma new_CheckpointManager_data:
  "cp_data (new_CheckpointManager st fs file i) =
     (case fs file of None \<Rightarrow> zero_checkpoint
      | Some contents \<Rightarrow>
          (case read_checkpoint st contents of None \<Rightarrow> zero_checkpoint | Some d \<Rightarrow> d))"
  by (simp add: new_CheckpointManager_def load_def split: option.splits)

lemma new_CheckpointManager_stack:
  "wf_stack st \<Longrightarrow> wf_stack st' \<Longrightarrow>
   cp_data (new_CheckpointManager st fs file i) = cp_data (new_CheckpointManager st' fs file i')"
  using read_checkpoint_stack [of st st'] by (auto simp: new_CheckpointManager_data split: option.split)

definition example_stack :: load_stack where
  "example_stack =
     \<lparr>var_magic = replicate 4 1, var_version = [1, 0], var_padding = replicate 2 1,
      var_seq = replicate 8 1, var_pos = replicate 8 1, var_count = replicate 8 1,
      var_ts = replicate 8 1\<rparr>"

lemma wf_example_stack [simp]: "wf_stack example_stack"
  by (simp add: example_stack_def wf_stack_def)

definition example_checkpoint :: CheckpointManager where
  "example_checkpoint =
     \<lparr>cp_data = \<lparr>last_sequence_number = 7, last_position = 4096, message_count = 7,
                 timestamp_ns = 12345\<rparr>,
      checkpoint_file = ''cp'', running = True, flush_interval = 1, flush_count = 0,
      flush_failures = 0\<rparr>"

section \<open>Properties\<close>

text \<open>Flush and reload: a manager started on the file that a flush leaves behind has exactly the
  data that was flushed when every step of the flush succeeded; when the flush was skipped or
  any step failed, it starts from exactly what it would have loaded before. Exactly one of the
  two counters moves on a flush that is not skipped.\<close>

theorem flush_then_load:
  assumes "wf_stack st"
  shows "let (cm', fs') = flush io cm fs; file = checkpoint_file cm;
             done = (\<not> nothing_to_flush (cp_data cm) \<and> open_ok io \<and> 40 \<le> bytes_written io
                     \<and> rename_ok io)
         in cp_data (new_CheckpointManager st fs' file i)
              = (if done then cp_data cm else cp_data (new_CheckpointManager st fs file i))
            \<and> flush_count cm' = flush_count cm + (if done then 1 else 0)
            \<and> flush_failures cm' = flush_failures cm
                + (if done \<or> nothing_to_flush (cp_data cm) then 0 else 1)"
proof -
  have "flush_count (fst (flush io cm fs)) = flush_count cm
        + (if \<not> nothing_to_flush (cp_data cm) \<and> open_ok io \<and> 40 \<le> bytes_written io \<and> rename_ok io
           then 1 else 0)"
    and "flush_failures (fst (flush io cm fs)) = flush_failures cm
        + (if (\<not> nothing_to_flush (cp_data cm) \<and> open_ok io \<and> 40 \<le> bytes_written io \<and> rename_ok io)
              \<or> nothing_to_flush (cp_data cm) then 0 else 1)"
    by (simp_all add: flush_def Let_def flush_failed_def)
  then show ?thesis
    using assms by (simp add: case_prod_beta Let_def new_CheckpointManager_data flush_file)
qed

theorem flush_then_load_witness:
  "cp_data (new_CheckpointManager example_stack
     (snd (flush \<lparr>open_ok = True, bytes_written = 40, rename_ok = True\<rparr> example_checkpoint Map.empty))
     ''cp'' 1) = cp_data example_checkpoint"
  using flush_then_load [OF wf_example_stack, of
      "\<lparr>open_ok = True, bytes_written = 40, rename_ok = True\<rparr>" example_checkpoint Map.empty 1]
  by (simp add: case_prod_beta Let_def nothing_to_flush_def example_checkpoint_def)

text \<open>What \<open>load\<close> accepts: a file is taken exactly when it starts with the magic number, version
  1, two arbitrary bytes and the four fields; trailing bytes are ignored. Every other file, a
  truncated one in particular, is refused, whatever the uninitialised variables that a short
  read leaves untouched contain.\<close>

theorem read_checkpoint_iff:
  assumes "wf_stack st"
  shows "read_checkpoint st contents = Some d \<longleftrightarrow>
     (\<exists>pad rest. length pad = 2 \<and>
        contents = le_bytes 4 CHECKPOINT_MAGIC @ le_bytes 2 CHECKPOINT_VERSION @ pad
                   @ checkpoint_fields d @ rest)"
proof
  assume accepted: "read_checkpoint st contents = Some d"
  then have long: "40 \<le> length contents"
    using read_checkpoint_short [OF assms, of contents] by (cases "length contents < 40") auto
  have "checkpoint_fields d = take 8 (drop 8 contents) @ take 8 (drop 16 contents)
      @ take 8 (drop 24 contents) @ take 8 (drop 32 contents)"
    and "take 4 contents = le_bytes 4 CHECKPOINT_MAGIC"
    and "take 2 (drop 4 contents) = le_bytes 2 CHECKPOINT_VERSION"
    using accepted long
    by (auto simp: read_checkpoint_long assms checkpoint_fields_def le_bytes_of_le_eq
        split: if_splits)
  with checkpoint_split [OF long] long show "\<exists>pad rest. length pad = 2 \<and>
      contents = le_bytes 4 CHECKPOINT_MAGIC @ le_bytes 2 CHECKPOINT_VERSION @ pad
                 @ checkpoint_fields d @ rest"
    by (intro exI [of _ "take 2 (drop 6 contents)"] exI [of _ "drop 40 contents"]) simp
next
  assume "\<exists>pad rest. length pad = 2 \<and>
      contents = le_bytes 4 CHECKPOINT_MAGIC @ le_bytes 2 CHECKPOINT_VERSION @ pad
                 @ checkpoint_fields d @ rest"
  then show "read_checkpoint st contents = Some d"
    by (elim exE conjE, hypsubst, subst read_checkpoint_long)
       (simp_all add: assms checkpoint_fields_def)
qed

theorem read_checkpoint_iff_witness:
  "read_checkpoint example_stack (take 6 (checkpoint_image zero_checkpoint)) \<noteq> Some zero_checkpoint
   \<and> read_checkpoint example_stack (checkpoint_image zero_checkpoint @ [1]) = Some zero_checkpoint"
proof
  show "read_checkpoint example_stack (take 6 (checkpoint_image zero_checkpoint)) \<noteq> Some zero_checkpoint"
    using read_checkpoint_iff [OF wf_example_stack,
        of "take 6 (checkpoint_image zero_checkpoint)" zero_checkpoint]
    by (auto simp: checkpoint_fields_def) (drule arg_cong [where f = length], simp)
  have "checkpoint_image zero_checkpoint @ [1] =
      le_bytes 4 CHECKPOINT_MAGIC @ le_bytes 2 CHECKPOINT_VERSION @ le_bytes 2 (0 :: u16)
      @ checkpoint_fields zero_checkpoint @ [1]"
    by (simp add: checkpoint_image_def checkpoint_fields_def)
  then show "read_checkpoint example_stack (checkpoint_image zero_checkpoint @ [1])
      = Some zero_checkpoint"
    using read_checkpoint_iff [OF wf_example_stack,
        of "checkpoint_image zero_checkpoint @ [1]" zero_checkpoint] length_le_bytes by blast
qed

end
