(* ===== verification/Checkpoint_Steps.thy ===== *)
theory Checkpoint_Steps
  imports Checkpoint
begin

text \<open>
  \<open>CheckpointManager\<close> under concurrency: the subscriber's thread in \<open>update\<close> and the flush
  thread in \<open>flush\<close>, interleaved at every atomic access and every write to the file system
  (sequentially consistent). A crash of the process may strike in any reachable state, so a
  theorem about the file in every reachable state is a theorem about what a crash leaves.
\<close>

section \<open>Program points and steps\<close>

datatype updater_pc =
    U_Idle
  | U_Position i64 i64
  | U_Count i64
  | U_Timestamp

datatype flusher_pc =
    F_Idle
  | F_Position i64
  | F_Count i64 i64
  | F_Timestamp i64 i64 i64
  | F_Check CheckpointData
  | F_Open CheckpointData
  | F_Write CheckpointData nat
  | F_Rename CheckpointData
  | F_Success
  | F_Failure

text \<open>\<open>history\<close> lists the arguments of the calls of \<open>update\<close> so far, after the values that the
  manager started with.\<close>

record cp_threads =
  manager :: CheckpointManager
  disk :: filesystem
  updater :: updater_pc
  flusher :: flusher_pc
  history :: "(i64 \<times> i64 \<times> i64) list"

definition cp_triple :: "CheckpointData \<Rightarrow> i64 \<times> i64 \<times> i64" where
  "cp_triple d = (last_sequence_number d, last_position d, message_count d)"

definition cp_threads_init :: "CheckpointManager \<Rightarrow> filesystem \<Rightarrow> cp_threads" where
  "cp_threads_init cm fs =
     \<lparr>manager = cm, disk = fs, updater = U_Idle, flusher = F_Idle,
      history = [cp_triple (cp_data cm)]\<rparr>"

abbreviation shared :: "cp_threads \<Rightarrow> CheckpointData" where
  "shared s \<equiv> cp_data (manager s)"

definition set_shared :: "CheckpointData \<Rightarrow> cp_threads \<Rightarrow> cp_threads" where
  "set_shared d s = s\<lparr>manager := (manager s)\<lparr>cp_data := d\<rparr>\<rparr>"

inductive update_step :: "cp_threads \<Rightarrow> cp_threads \<Rightarrow> bool" where
  u_sequence: "updater s = U_Idle \<Longrightarrow>
     update_step s
       ((set_shared ((shared s)\<lparr>last_sequence_number := sq\<rparr>) s)
          \<lparr>updater := U_Position pos cnt, history := history s @ [(sq, pos, cnt)]\<rparr>)"
| u_position: "updater s = U_Position pos cnt \<Longrightarrow>
     update_step s
       ((set_shared ((shared s)\<lparr>last_position := pos\<rparr>) s)\<lparr>updater := U_Count cnt\<rparr>)"
| u_count: "updater s = U_Count cnt \<Longrightarrow>
     update_step s
       ((set_shared ((shared s)\<lparr>message_count := cnt\<rparr>) s)\<lparr>updater := U_Timestamp\<rparr>)"
| u_timestamp: "updater s = U_Timestamp \<Longrightarrow>
     update_step s
       ((set_shared ((shared s)\<lparr>timestamp_ns := now\<rparr>) s)\<lparr>updater := U_Idle\<rparr>)"

text \<open>
  Opening the temporary file truncates it; the bytes then reach it a few at a time, and the
  rename is one step. Open, write and rename may each fail.
\<close>

inductive flush_step :: "cp_threads \<Rightarrow> cp_threads \<Rightarrow> bool" where
  f_sequence: "flusher s = F_Idle \<Longrightarrow>
     flush_step s (s\<lparr>flusher := F_Position (last_sequence_number (shared s))\<rparr>)"
| f_position: "flusher s = F_Position sq \<Longrightarrow>
     flush_step s (s\<lparr>flusher := F_Count sq (last_position (shared s))\<rparr>)"
| f_count: "flusher s = F_Count sq pos \<Longrightarrow>
     flush_step s (s\<lparr>flusher := F_Timestamp sq pos (message_count (shared s))\<rparr>)"
| f_timestamp: "flusher s = F_Timestamp sq pos cnt \<Longrightarrow>
     flush_step s
       (s\<lparr>flusher := F_Check \<lparr>last_sequence_number = sq, last_position = pos,
                               message_count = cnt, timestamp_ns = timestamp_ns (shared s)\<rparr>\<rparr>)"
| f_skip: "flusher s = F_Check d \<Longrightarrow> nothing_to_flush d \<Longrightarrow> flush_step s (s\<lparr>flusher := F_Idle\<rparr>)"
| f_go: "flusher s = F_Check d \<Longrightarrow> \<not> nothing_to_flush d \<Longrightarrow>
     flush_step s (s\<lparr>flusher := F_Open d\<rparr>)"
| f_open: "flusher s = F_Open d \<Longrightarrow>
     flush_step s
       (s\<lparr>disk := (disk s)(temp_file (checkpoint_file (manager s)) \<mapsto> []),
          flusher := F_Write d 0\<rparr>)"
| f_open_fails: "flusher s = F_Open d \<Longrightarrow> flush_step s (s\<lparr>flusher := F_Failure\<rparr>)"
| f_write: "flusher s = F_Write d n \<Longrightarrow> n < m \<Longrightarrow> m \<le> length (checkpoint_image d) \<Longrightarrow>
     flush_step s
       (s\<lparr>disk := (disk s)(temp_file (checkpoint_file (manager s)) \<mapsto> take m (checkpoint_image d)),
          flusher := F_Write d m\<rparr>)"
| f_write_fails: "flusher s = F_Write d n \<Longrightarrow> n < length (checkpoint_image d) \<Longrightarrow>
     flush_step s (s\<lparr>flusher := F_Failure\<rparr>)"
| f_written: "flusher s = F_Write d n \<Longrightarrow> n = length (checkpoint_image d) \<Longrightarrow>
     flush_step s (s\<lparr>flusher := F_Rename d\<rparr>)"
| f_rename: "flusher s = F_Rename d \<Longrightarrow>
     flush_step s
       (s\<lparr>disk := fs_rename (temp_file (checkpoint_file (manager s)))
                     (checkpoint_file (manager s)) (disk s),
          flusher := F_Success\<rparr>)"
| f_rename_fails: "flusher s = F_Rename d \<Longrightarrow> flush_step s (s\<lparr>flusher := F_Failure\<rparr>)"
| f_success: "flusher s = F_Success \<Longrightarrow>
     flush_step s
       (s\<lparr>manager := (manager s)\<lparr>flush_count := flush_count (manager s) + 1\<rparr>,
          flusher := F_Idle\<rparr>)"
| f_failure: "flusher s = F_Failure \<Longrightarrow>
     flush_step s (s\<lparr>manager := flush_failed (manager s), flusher := F_Idle\<rparr>)"

inductive cp_reachable :: "CheckpointManager \<Rightarrow> filesystem \<Rightarrow> cp_threads \<Rightarrow> bool" for cm fs where
  cp_init: "cp_reachable cm fs (cp_threads_init cm fs)"
| cp_update: "cp_reachable cm fs s \<Longrightarrow> update_step s t \<Longrightarrow> cp_reachable cm fs t"
| cp_flush: "cp_reachable cm fs s \<Longrightarrow> flush_step s t \<Longrightarrow> cp_reachable cm fs t"

section \<open>Invariant\<close>

text \<open>
  Where the three fields stand: the sequence number is that of the latest call, the other two
  are those of the latest call or, until their store is reached, of the call before.
\<close>

abbreviation hseq :: "cp_threads \<Rightarrow> nat \<Rightarrow> i64" where "hseq s i \<equiv> fst (history s ! i)"
abbreviation hpos :: "cp_threads \<Rightarrow> nat \<Rightarrow> i64" where "hpos s i \<equiv> fst (snd (history s ! i))"
abbreviation hcnt :: "cp_threads \<Rightarrow> nat \<Rightarrow> i64" where "hcnt s i \<equiv> snd (snd (history s ! i))"

fun pos_lag :: "updater_pc \<Rightarrow> nat" where
  "pos_lag (U_Position p c) = 1"
| "pos_lag _ = 0"

fun cnt_lag :: "updater_pc \<Rightarrow> nat" where
  "cnt_lag (U_Position p c) = 1"
| "cnt_lag (U_Count c) = 1"
| "cnt_lag _ = 0"

fun updater_args_ok :: "updater_pc \<Rightarrow> i64 \<times> i64 \<times> i64 \<Rightarrow> bool" where
  "updater_args_ok (U_Position p c) e = (snd e = (p, c))"
| "updater_args_ok (U_Count c) e = (snd (snd e) = c)"
| "updater_args_ok _ e = True"

definition shared_ok :: "cp_threads \<Rightarrow> bool" where
  "shared_ok s \<longleftrightarrow>
     (\<exists>k. length (history s) = Suc k
        \<and> (updater s \<in> {U_Idle, U_Timestamp} \<or> 0 < k)
        \<and> updater_args_ok (updater s) (history s ! k)
        \<and> last_sequence_number (shared s) = hseq s k
        \<and> last_position (shared s) = hpos s (k - pos_lag (updater s))
        \<and> message_count (shared s) = hcnt s (k - cnt_lag (updater s)))"

text \<open>A value of each field, none of the later ones more than one call behind the first.\<close>

definition seq_from :: "(i64 \<times> i64 \<times> i64) list \<Rightarrow> nat \<Rightarrow> i64 \<Rightarrow> bool" where
  "seq_from h i sq \<longleftrightarrow> i < length h \<and> fst (h ! i) = sq"

definition field_from ::
  "(i64 \<times> i64 \<times> i64 \<Rightarrow> i64) \<Rightarrow> (i64 \<times> i64 \<times> i64) list \<Rightarrow> nat \<Rightarrow> i64 \<Rightarrow> bool" where
  "field_from field h i v \<longleftrightarrow> (\<exists>j < length h. i \<le> j + 1 \<and> field (h ! j) = v)"

abbreviation pos_from :: "(i64 \<times> i64 \<times> i64) list \<Rightarrow> nat \<Rightarrow> i64 \<Rightarrow> bool" where
  "pos_from \<equiv> field_from (\<lambda>e. fst (snd e))"

abbreviation cnt_from :: "(i64 \<times> i64 \<times> i64) list \<Rightarrow> nat \<Rightarrow> i64 \<Rightarrow> bool" where
  "cnt_from \<equiv> field_from (\<lambda>e. snd (snd e))"

definition nearly_from :: "(i64 \<times> i64 \<times> i64) list \<Rightarrow> CheckpointData \<Rightarrow> bool" where
  "nearly_from h d \<longleftrightarrow>
     (\<exists>i. seq_from h i (last_sequence_number d) \<and> pos_from h i (last_position d)
        \<and> cnt_from h i (message_count d))"

fun flusher_ok :: "(i64 \<times> i64 \<times> i64) list \<Rightarrow> flusher_pc \<Rightarrow> bool" where
  "flusher_ok h (F_Position sq) = (\<exists>i. seq_from h i sq)"
| "flusher_ok h (F_Count sq pos) = (\<exists>i. seq_from h i sq \<and> pos_from h i pos)"
| "flusher_ok h (F_Timestamp sq pos cnt) =
     (\<exists>i. seq_from h i sq \<and> pos_from h i pos \<and> cnt_from h i cnt)"
| "flusher_ok h (F_Check d) = nearly_from h d"
| "flusher_ok h (F_Open d) = (nearly_from h d \<and> \<not> nothing_to_flush d)"
| "flusher_ok h (F_Write d n) =
     (nearly_from h d \<and> \<not> nothing_to_flush d \<and> n \<le> length (checkpoint_image d))"
| "flusher_ok h (F_Rename d) = (nearly_from h d \<and> \<not> nothing_to_flush d)"
| "flusher_ok h _ = True"

fun temp_ok :: "flusher_pc \<Rightarrow> u8 list option \<Rightarrow> bool" where
  "temp_ok (F_Write d n) f = (f = Some (take n (checkpoint_image d)))"
| "temp_ok (F_Rename d) f = (f = Some (checkpoint_image d))"
| "temp_ok _ f = True"

definition file_ok :: "u8 list option \<Rightarrow> cp_threads \<Rightarrow> bool" where
  "file_ok old s \<longleftrightarrow>
     disk s (checkpoint_file (manager s)) = old
     \<or> (\<exists>d. nearly_from (history s) d \<and> \<not> nothing_to_flush d
          \<and> disk s (checkpoint_file (manager s)) = Some (checkpoint_image d))"

definition cp_threads_inv :: "CheckpointManager \<Rightarrow> filesystem \<Rightarrow> cp_threads \<Rightarrow> bool" where
  "cp_threads_inv cm fs s \<longleftrightarrow>
     checkpoint_file (manager s) = checkpoint_file cm
     \<and> shared_ok s \<and> flusher_ok (history s) (flusher s)
     \<and> temp_ok (flusher s) (disk s (temp_file (checkpoint_file cm)))
     \<and> file_ok (fs (checkpoint_file cm)) s"

lemma nearly_from_indices:
  "nearly_from h d \<Longrightarrow>
     \<exists>i j l. i < length h \<and> j < length h \<and> l < length h \<and> i \<le> j + 1 \<and> i \<le> l + 1
       \<and> cp_triple d = (fst (h ! i), fst (snd (h ! j)), snd (snd (h ! l)))"
  unfolding nearly_from_def seq_from_def field_from_def cp_triple_def by metis

lemma seq_from_append: "seq_from h i v \<Longrightarrow> seq_from (h @ [e]) i v"
  by (auto simp: seq_from_def nth_append)

lemma field_from_append: "field_from f h i v \<Longrightarrow> field_from f (h @ [e]) i v"
  unfolding field_from_def by (metis length_append_singleton less_SucI nth_append)

lemma nearly_from_append: "nearly_from h d \<Longrightarrow> nearly_from (h @ [e]) d"
  by (auto simp: nearly_from_def intro: seq_from_append field_from_append)

lemma flusher_ok_append: "flusher_ok h f \<Longrightarrow> flusher_ok (h @ [e]) f"
  by (cases f) (auto intro: seq_from_append field_from_append nearly_from_append)

lemma set_shared_simps [simp]:
  "cp_data (manager (set_shared d s)) = d"
  "checkpoint_file (manager (set_shared d s)) = checkpoint_file (manager s)"
  "disk (set_shared d s) = disk s" "updater (set_shared d s) = updater s"
  "flusher (set_shared d s) = flusher s" "history (set_shared d s) = history s"
  by (simp_all add: set_shared_def)

text \<open>What the shared fields hold is recent enough for the flush thread to read next.\<close>

lemma shared_seq_from: "shared_ok s \<Longrightarrow> \<exists>i. seq_from (history s) i (last_sequence_number (shared s))"
  by (auto simp: shared_ok_def seq_from_def)

lemma shared_pos_from:
  assumes "shared_ok s" and "seq_from (history s) i sq"
  shows "pos_from (history s) i (last_position (shared s))"
proof -
  obtain k where k: "length (history s) = Suc k"
      "last_position (shared s) = hpos s (k - pos_lag (updater s))"
    using assms(1) by (auto simp: shared_ok_def)
  have "pos_lag (updater s) \<le> 1" by (cases "updater s") auto
  with k assms(2) show ?thesis
    by (auto simp: field_from_def seq_from_def intro!: exI [of _ "k - pos_lag (updater s)"])
qed

lemma shared_cnt_from:
  assumes "shared_ok s" and "seq_from (history s) i sq"
  shows "cnt_from (history s) i (message_count (shared s))"
proof -
  obtain k where k: "length (history s) = Suc k"
      "message_count (shared s) = hcnt s (k - cnt_lag (updater s))"
    using assms(1) by (auto simp: shared_ok_def)
  have "cnt_lag (updater s) \<le> 1" by (cases "updater s") auto
  with k assms(2) show ?thesis
    by (auto simp: field_from_def seq_from_def intro!: exI [of _ "k - cnt_lag (updater s)"])
qed

lemma update_step_shared: "update_step s t \<Longrightarrow> shared_ok s \<Longrightarrow> shared_ok t"
  by (induction rule: update_step.induct) (auto simp: shared_ok_def nth_append)

lemma update_step_frame:
  assumes "update_step s t"
  shows "checkpoint_file (manager t) = checkpoint_file (manager s)" "disk t = disk s"
    "flusher t = flusher s" "history t = history s \<or> (\<exists>e. history t = history s @ [e])"
  using assms by (induction rule: update_step.induct) auto

lemma file_ok_update: "update_step s t \<Longrightarrow> file_ok old s \<Longrightarrow> file_ok old t"
  using update_step_frame [of s t] nearly_from_append unfolding file_ok_def by metis

lemma update_step_inv: "update_step s t \<Longrightarrow> cp_threads_inv cm fs s \<Longrightarrow> cp_threads_inv cm fs t"
  using update_step_shared [of s t] update_step_frame [of s t] file_ok_update [of s t]
  by (auto simp: cp_threads_inv_def intro: flusher_ok_append)

lemma shared_ok_flusher [simp]:
  "shared_ok (s\<lparr>flusher := f\<rparr>) = shared_ok s"
  "shared_ok (s\<lparr>disk := fs\<rparr>) = shared_ok s"
  "shared_ok (s\<lparr>manager := (manager s)\<lparr>flush_count := n\<rparr>\<rparr>) = shared_ok s"
  "shared_ok (s\<lparr>manager := flush_failed (manager s)\<rparr>) = shared_ok s"
  by (simp_all add: shared_ok_def flush_failed_def)

lemma flush_failed_file [simp]: "checkpoint_file (flush_failed cm) = checkpoint_file cm"
  by (simp add: flush_failed_def)

lemma flush_step_inv: "flush_step s t \<Longrightarrow> cp_threads_inv cm fs s \<Longrightarrow> cp_threads_inv cm fs t"
proof (induction rule: flush_step.induct)
  case (f_rename s d)
  then show ?case
    by (auto simp: cp_threads_inv_def file_ok_def fs_rename_def)
qed (auto simp: cp_threads_inv_def file_ok_def nearly_from_def
      intro: shared_seq_from shared_pos_from shared_cnt_from)

lemma cp_threads_inv_init: "cp_threads_inv cm fs (cp_threads_init cm fs)"
  by (simp add: cp_threads_inv_def cp_threads_init_def shared_ok_def file_ok_def cp_triple_def)

lemma cp_reachable_inv: "cp_reachable cm fs s \<Longrightarrow> cp_threads_inv cm fs s"
  by (induction rule: cp_reachable.induct)
     (auto intro: cp_threads_inv_init update_step_inv flush_step_inv)

section \<open>Complete calls\<close>

text \<open>A call of \<open>update\<close> that runs through without the flush thread has the effect of the
  operation \<open>update\<close>.\<close>

lemma update_steps:
  assumes "updater s = U_Idle"
  shows "\<exists>a b c t. update_step s a \<and> update_step a b \<and> update_step b c \<and> update_step c t
     \<and> updater a \<noteq> U_Idle \<and> updater b \<noteq> U_Idle \<and> updater c \<noteq> U_Idle
     \<and> history a = history s @ [(sq, pos, cnt)]
     \<and> updater t = U_Idle \<and> flusher t = flusher s \<and> disk t = disk s
     \<and> manager t = update (manager s) now sq pos cnt \<and> history t = history s @ [(sq, pos, cnt)]"
proof -
  define a where "a = (set_shared ((shared s)\<lparr>last_sequence_number := sq\<rparr>) s)
     \<lparr>updater := U_Position pos cnt, history := history s @ [(sq, pos, cnt)]\<rparr>"
  define b where "b = (set_shared ((shared a)\<lparr>last_position := pos\<rparr>) a)\<lparr>updater := U_Count cnt\<rparr>"
  define c where "c = (set_shared ((shared b)\<lparr>message_count := cnt\<rparr>) b)\<lparr>updater := U_Timestamp\<rparr>"
  define d where "d = (set_shared ((shared c)\<lparr>timestamp_ns := now\<rparr>) c)\<lparr>updater := U_Idle\<rparr>"
  have "update_step s a" unfolding a_def by (rule u_sequence) (rule assms)
  moreover have "update_step a b" unfolding b_def by (rule u_position) (simp add: a_def)
  moreover have "update_step b c" unfolding c_def by (rule u_count) (simp add: b_def)
  moreover have "update_step c d" unfolding d_def by (rule u_timestamp) (simp add: c_def)
  moreover have "updater a \<noteq> U_Idle \<and> updater b \<noteq> U_Idle \<and> updater c \<noteq> U_Idle
      \<and> history a = history s @ [(sq, pos, cnt)] \<and> updater d = U_Idle \<and> flusher d = flusher s
      \<and> disk d = disk s \<and> history d = history s @ [(sq, pos, cnt)]"
    by (simp add: a_def b_def c_def d_def)
  moreover have "manager d = update (manager s) now sq pos cnt"
    by (simp add: a_def b_def c_def d_def set_shared_def update_def)
  ultimately show ?thesis by blast
qed

lemma update_call:
  assumes "cp_reachable cm fs s" and "updater s = U_Idle"
  shows "\<exists>t. cp_reachable cm fs t \<and> updater t = U_Idle \<and> flusher t = flusher s
     \<and> disk t = disk s \<and> manager t = update (manager s) now sq pos cnt
     \<and> history t = history s @ [(sq, pos, cnt)]"
  using update_steps [OF assms(2), of sq pos cnt now] assms(1) cp_update by metis

lemma cp_reachable_flush: "flush_step\<^sup>*\<^sup>* s t \<Longrightarrow> cp_reachable cm fs s \<Longrightarrow> cp_reachable cm fs t"
  by (induction rule: rtranclp_induct) (auto intro: cp_flush)

text \<open>A flush that has read \<open>d\<close> and meets no failure replaces the file by the image of \<open>d\<close>.\<close>

lemma flush_steps:
  assumes "flusher s = F_Check d" and "\<not> nothing_to_flush d"
  shows "\<exists>t. flush_step\<^sup>*\<^sup>* s t \<and> history t = history s \<and> updater t = updater s
     \<and> disk t (checkpoint_file (manager s)) = Some (checkpoint_image d)"
proof -
  define a where "a = s\<lparr>flusher := F_Open d\<rparr>"
  define b where "b = a\<lparr>disk := (disk a)(temp_file (checkpoint_file (manager a)) \<mapsto> []),
    flusher := F_Write d 0\<rparr>"
  define c where "c = b\<lparr>disk := (disk b)(temp_file (checkpoint_file (manager b))
      \<mapsto> take 40 (checkpoint_image d)), flusher := F_Write d 40\<rparr>"
  define r where "r = c\<lparr>flusher := F_Rename d\<rparr>"
  define e where "e = r\<lparr>disk := fs_rename (temp_file (checkpoint_file (manager r)))
      (checkpoint_file (manager r)) (disk r), flusher := F_Success\<rparr>"
  have "flush_step s a" unfolding a_def using assms by (rule f_go)
  moreover have "flush_step a b" unfolding b_def by (rule f_open) (simp add: a_def)
  moreover have "flush_step b c" unfolding c_def by (rule f_write [of _ _ 0]) (simp_all add: b_def)
  moreover have "flush_step c r" unfolding r_def by (rule f_written [of _ _ 40]) (simp_all add: c_def)
  moreover have "flush_step r e" unfolding e_def by (rule f_rename [of _ d]) (simp add: r_def)
  ultimately have "flush_step\<^sup>*\<^sup>* s e" by (meson converse_rtranclp_into_rtranclp rtranclp.rtrancl_refl)
  moreover have "history e = history s" "updater e = updater s"
    "disk e (checkpoint_file (manager s)) = Some (checkpoint_image d)"
    by (simp_all add: a_def b_def c_def r_def e_def fs_rename_def)
  ultimately show ?thesis by blast
qed

lemma flush_call:
  assumes "cp_reachable cm fs s" and "flusher s = F_Check d" and "\<not> nothing_to_flush d"
  shows "\<exists>t. cp_reachable cm fs t \<and> history t = history s
     \<and> disk t (checkpoint_file cm) = Some (checkpoint_image d)"
proof -
  have "checkpoint_file (manager s) = checkpoint_file cm"
    using cp_reachable_inv [OF assms(1)] by (simp add: cp_threads_inv_def)
  with flush_steps [OF assms(2,3)] cp_reachable_flush [OF _ assms(1)] show ?thesis by metis
qed

text \<open>An undisturbed flush from its first load on.\<close>

lemma same_data:
  "\<lparr>last_sequence_number = last_sequence_number d, last_position = last_position d,
    message_count = message_count d, timestamp_ns = timestamp_ns d\<rparr> = d" for d :: CheckpointData
  by simp

lemma flush_run:
  assumes "flusher s = F_Idle" and "\<not> nothing_to_flush (shared s)"
  shows "\<exists>t. flush_step\<^sup>*\<^sup>* s t \<and> history t = history s \<and> updater t = updater s
     \<and> disk t (checkpoint_file (manager s)) = Some (checkpoint_image (shared s))"
proof -
  let ?d = "shared s"
  let ?a = "s\<lparr>flusher := F_Position (last_sequence_number ?d)\<rparr>"
  let ?b = "s\<lparr>flusher := F_Count (last_sequence_number ?d) (last_position ?d)\<rparr>"
  let ?c = "s\<lparr>flusher := F_Timestamp (last_sequence_number ?d) (last_position ?d) (message_count ?d)\<rparr>"
  let ?e = "s\<lparr>flusher := F_Check ?d\<rparr>"
  have "flush_step s ?a" "flush_step ?a ?b" "flush_step ?b ?c" "flush_step ?c ?e"
    using f_sequence [OF assms(1)] f_position [of ?a] f_count [of ?b] f_timestamp [of ?c]
    by (simp_all add: same_data)
  then have "flush_step\<^sup>*\<^sup>* s ?e" by (meson converse_rtranclp_into_rtranclp rtranclp.rtrancl_refl)
  with flush_steps [of ?e ?d] assms(2) show ?thesis by (auto intro: rtranclp_trans)
qed

text \<open>A flush whose first load is followed by a complete update.\<close>

lemma torn_run:
  assumes "\<not> (sq = 0 \<and> pos' = 0 \<and> cnt' = 0)"
  shows "\<exists>s ts. cp_reachable cm fs s
     \<and> history s = [cp_triple (cp_data cm), (sq, pos, cnt), (sq', pos', cnt')]
     \<and> disk s (checkpoint_file cm)
         = Some (checkpoint_image \<lparr>last_sequence_number = sq, last_position = pos',
                                   message_count = cnt', timestamp_ns = ts\<rparr>)"
proof -
  obtain a where a: "cp_reachable cm fs a" "updater a = U_Idle" "flusher a = F_Idle"
      "cp_data (manager a) = \<lparr>last_sequence_number = sq, last_position = pos,
                              message_count = cnt, timestamp_ns = 0\<rparr>"
      "history a = [cp_triple (cp_data cm), (sq, pos, cnt)]"
    using update_call [OF cp_init, of cm fs 0 sq pos cnt] by (auto simp: cp_threads_init_def update_def)
  let ?b = "a\<lparr>flusher := F_Position sq\<rparr>"
  have "cp_reachable cm fs ?b"
    using cp_flush [OF a(1) f_sequence] a by simp
  from update_call [OF this, of 0 sq' pos' cnt'] a obtain c
    where c: "cp_reachable cm fs c" "flusher c = F_Position sq"
      "cp_data (manager c) = \<lparr>last_sequence_number = sq', last_position = pos',
                              message_count = cnt', timestamp_ns = 0\<rparr>"
      "history c = [cp_triple (cp_data cm), (sq, pos, cnt), (sq', pos', cnt')]"
    by (auto simp: update_def)
  let ?d = "c\<lparr>flusher := F_Count sq pos'\<rparr>"
  let ?e = "c\<lparr>flusher := F_Timestamp sq pos' cnt'\<rparr>"
  let ?data = "\<lparr>last_sequence_number = sq, last_position = pos', message_count = cnt',
                timestamp_ns = 0\<rparr>"
  let ?f = "c\<lparr>flusher := F_Check ?data\<rparr>"
  have "flush_step c ?d" "flush_step ?d ?e" "flush_step ?e ?f"
    using f_position [of c sq] f_count [of ?d sq pos'] f_timestamp [of ?e sq pos' cnt'] c by simp_all
  then have f: "cp_reachable cm fs ?f"
    using c(1) by (meson cp_flush)
  have "\<not> nothing_to_flush ?data"
    using assms by (simp add: nothing_to_flush_def)
  with flush_call [OF f, of ?data] c(4) show ?thesis
    by fastforce
qed

section \<open>A crash\<close>

text \<open>What a manager loads from the disk that a crash leaves.\<close>

lemma crash_data:
  assumes "wf_stack st" and inv: "cp_threads_inv cm fs s"
  shows "(let file = checkpoint_file cm; d = cp_data (new_CheckpointManager st (disk s) file interval)
          in d = cp_data (new_CheckpointManager st fs file interval) \<or> nearly_from (history s) d)"
proof (cases "disk s (checkpoint_file cm) = fs (checkpoint_file cm)")
  case True
  then show ?thesis by (simp add: new_CheckpointManager_data)
next
  case False
  then obtain d where d: "nearly_from (history s) d"
      "disk s (checkpoint_file cm) = Some (checkpoint_image d)"
    using inv by (auto simp: file_ok_def cp_threads_inv_def)
  then have "cp_data (new_CheckpointManager st (disk s) (checkpoint_file cm) interval) = d"
    by (simp add: new_CheckpointManager_data assms(1))
  with d(1) show ?thesis by (simp add: Let_def)
qed

section \<open>Properties\<close>

text \<open>C16: Crash safety: in every state that the two threads can reach, so wherever a crash strikes,
  a manager started on the disk loads what it would have loaded before, or a checkpoint whose
  fields were all passed to \<open>update\<close>, the position and the count by a call not earlier than the
  one before the call that the sequence number comes from. A half-written file is never
  loaded.\<close>

theorem checkpoint_crash_safe:
  assumes "wf_stack st" and "cp_reachable cm fs s"
  shows "let file = checkpoint_file cm;
             d = cp_data (new_CheckpointManager st (disk s) file interval)
         in d = cp_data (new_CheckpointManager st fs file interval)
          \<or> (\<exists>i j l. i < length (history s) \<and> j < length (history s) \<and> l < length (history s)
              \<and> i \<le> j + 1 \<and> i \<le> l + 1
              \<and> cp_triple d = (fst (history s ! i), fst (snd (history s ! j)), snd (snd (history s ! l))))"
  using crash_data [OF assms(1) cp_reachable_inv [OF assms(2)], of interval] nearly_from_indices
  by (auto simp: Let_def)

theorem checkpoint_crash_safe_witness:
  "\<exists>s. cp_reachable example_checkpoint Map.empty s \<and> disk s ''cp'' \<noteq> None
     \<and> (let d = cp_data (new_CheckpointManager example_stack (disk s) ''cp'' 1)
        in d = zero_checkpoint \<or> (\<exists>i < length (history s).
             last_sequence_number d = fst (history s ! i)))"
proof -
  obtain s where s: "cp_reachable example_checkpoint Map.empty s" "disk s ''cp'' \<noteq> None"
    using torn_run [of 8 8192 9 example_checkpoint Map.empty 6144 8 9]
    by (auto simp: example_checkpoint_def)
  have "checkpoint_file example_checkpoint = ''cp''"
    by (simp add: example_checkpoint_def)
  with checkpoint_crash_safe [OF wf_example_stack s(1), of 1] s show ?thesis
    by (intro exI [of _ s])
       (auto simp: Let_def cp_triple_def new_CheckpointManager_data [of _ Map.empty])
qed

text \<open>C34: The snapshot that a flush writes need not be a value the checkpoint ever had: for any two
  successive calls of \<open>update\<close> there is a run after which the file has the sequence number of
  the first with the position and the count of the second.\<close>

theorem checkpoint_torn_snapshot:
  assumes "\<not> (sq = 0 \<and> pos' = 0 \<and> cnt' = 0)"
  shows "\<exists>s ts. cp_reachable cm fs s
     \<and> history s = [cp_triple (cp_data cm), (sq, pos, cnt), (sq', pos', cnt')]
     \<and> disk s (checkpoint_file cm)
         = Some (checkpoint_image \<lparr>last_sequence_number = sq, last_position = pos',
                                   message_count = cnt', timestamp_ns = ts\<rparr>)"
  using assms by (rule torn_run)

theorem checkpoint_torn_snapshot_witness:
  "\<exists>s ts. cp_reachable example_checkpoint Map.empty s
     \<and> disk s ''cp'' = Some (checkpoint_image \<lparr>last_sequence_number = 8, last_position = 8192,
                                   message_count = 9, timestamp_ns = ts\<rparr>)"
  using checkpoint_torn_snapshot [of 8 8192 9 example_checkpoint Map.empty 6144 8 9]
  by (auto simp: example_checkpoint_def)

end
