(* ===== verification/Aeron_Config.thy ===== *)
theory Aeron_Config
  imports Prelude
begin

text \<open>
  The constants of \<open>common/include/AeronConfig.h\<close>, the exceptions that the program catches, and
  the interface of the archive client that the program is linked with. The archive client is
  not part of the repository: what it answers is a parameter.
\<close>

section \<open>\<open>AeronConfig\<close>\<close>

definition AERON_DIR :: string where
  "AERON_DIR = ''/home/hesed/shm/aeron''"

definition ARCHIVE_CONTROL_REQUEST_CHANNEL :: string where
  "ARCHIVE_CONTROL_REQUEST_CHANNEL = ''aeron:udp?endpoint=localhost:8010''"

definition ARCHIVE_CONTROL_RESPONSE_CHANNEL :: string where
  "ARCHIVE_CONTROL_RESPONSE_CHANNEL = ''aeron:udp?endpoint=localhost:0''"

definition PUBLICATION_CHANNEL :: string where
  "PUBLICATION_CHANNEL = ''aeron:udp?endpoint=224.0.1.1:40456|interface=0.0.0.0''"

definition PUBLICATION_STREAM_ID :: i32 where
  "PUBLICATION_STREAM_ID = 10"

definition SUBSCRIPTION_CHANNEL :: string where
  "SUBSCRIPTION_CHANNEL = ''aeron:udp?endpoint=224.0.1.1:40456|interface=0.0.0.0''"

definition SUBSCRIPTION_STREAM_ID :: i32 where
  "SUBSCRIPTION_STREAM_ID = 10"

definition REPLAY_CHANNEL :: string where
  "REPLAY_CHANNEL = ''aeron:udp?endpoint=localhost:40457''"

definition REPLAY_STREAM_ID :: i32 where
  "REPLAY_STREAM_ID = 20"

definition LOCALHOST_PUBLICATION_CHANNEL :: string where
  "LOCALHOST_PUBLICATION_CHANNEL = ''aeron:udp?endpoint=localhost:40456''"

definition LOCALHOST_SUBSCRIPTION_CHANNEL :: string where
  "LOCALHOST_SUBSCRIPTION_CHANNEL = ''aeron:udp?endpoint=localhost:40456''"

definition IDLE_SLEEP_MS :: i64 where
  "IDLE_SLEEP_MS = 1"

definition MESSAGE_TIMEOUT_NS :: i64 where
  "MESSAGE_TIMEOUT_NS = 10000000000"

section \<open>Exceptions\<close>

datatype exn =
    Invalid_argument
  | Out_of_range
  | Length_error
  | Runtime_error string
  | Sourced_exception string

section \<open>The archive client\<close>

text \<open>
  \<open>findLastMatchingRecording minRecordingId channelFragment streamId sessionId\<close> and
  \<open>getRecordingPosition recordingId\<close>; each call returns a value or throws.
\<close>

record archive_client =
  findLastMatchingRecording :: "i64 \<Rightarrow> string \<Rightarrow> i32 \<Rightarrow> i32 \<Rightarrow> exn + i64"
  getRecordingPosition :: "i64 \<Rightarrow> exn + i64"
  NULL_VALUE :: i64

end
