(* ===== verification/Dedup_Window.thy ===== *)
theory Dedup_Window
  imports Prelude
begin

text \<open>
  The interface of duplicate suppression with a bounded memory: a component remembers the last
  \<open>n\<close> values that were added. The client's facts are proved once from the laws: the values that
  pass are spaced, none equal to one of the \<open>n\<close> before it.
\<close>

text \<open>Every value of \<open>acc\<close> differs from the \<open>length init\<close> values before it in \<open>init @ acc\<close>.\<close>

definition spaced :: "'a list \<Rightarrow> 'a list \<Rightarrow> bool" where
  "spaced init acc \<longleftrightarrow>
     (\<forall>j < length acc. acc ! j \<notin> set (take (length init) (drop j (init @ acc))))"

lemma spaced_Nil [simp]: "spaced init []"
  by (simp add: spaced_def)

lemma spaced_snoc:
  "spaced init (acc @ [x]) \<longleftrightarrow>
     spaced init acc \<and> x \<notin> set (drop (length acc) (init @ acc))"
proof -
  have old: "take (length init) (drop j (init @ acc @ [x])) = take (length init) (drop j (init @ acc))"
    if "j < length acc" for j
    using that by (simp add: take_append drop_append)
  have new: "take (length init) (drop (length acc) (init @ acc @ [x])) = drop (length acc) (init @ acc)"
    by (simp add: take_append drop_append)
  show ?thesis
    unfolding spaced_def using old new
    by (auto simp: less_Suc_eq nth_append)
qed

text \<open>In particular two equal values are more than the memory's size apart.\<close>

lemma spaced_distance:
  assumes "spaced init acc" and "i < j" and "j < length acc" and "acc ! i = acc ! j"
  shows "length init < j - i"
proof (rule ccontr)
  assume "\<not> length init < j - i"
  then have k: "i + length init - j < length init" "j + (i + length init - j) = length init + i"
    using assms(2,3) by simp_all
  have "drop j (init @ acc) ! (i + length init - j) = (init @ acc) ! (j + (i + length init - j))"
    using assms(3) by (intro nth_drop) simp
  also have "\<dots> = acc ! i"
    by (simp only: k(2) nth_append_length_plus)
  finally have nth: "drop j (init @ acc) ! (i + length init - j) = acc ! i" .
  have "acc ! i \<in> set (take (length init) (drop j (init @ acc)))"
    unfolding in_set_conv_nth
    by (rule exI [of _ "i + length init - j"])
       (use k assms(2,3) nth in \<open>simp del: drop_append\<close>)
  then show False
    using assms(1,3,4) by (simp add: spaced_def)
qed

locale sliding_window =
  fixes seen :: "'s \<Rightarrow> 'a \<Rightarrow> bool" and add :: "'a \<Rightarrow> 's \<Rightarrow> 's"
    and window :: "'s \<Rightarrow> 'a list" and inv :: "'s \<Rightarrow> bool"
  assumes seen_iff: "inv s \<Longrightarrow> seen s x \<longleftrightarrow> x \<in> set (window s)"
    and window_add: "inv s \<Longrightarrow> window (add x s) = tl (window s @ [x])"
    and inv_add: "inv s \<Longrightarrow> inv (add x s)"
begin

text \<open>The memory holds the last values of \<open>acc\<close>, filled up with those of \<open>init\<close>.\<close>

definition remembers :: "'a list \<Rightarrow> 'a list \<Rightarrow> 's \<Rightarrow> bool" where
  "remembers init acc s \<longleftrightarrow>
     inv s \<and> window s = drop (length acc) (init @ acc) \<and> spaced init acc"

lemma remembers_start: "inv s \<Longrightarrow> remembers (window s) [] s"
  by (simp add: remembers_def)

lemma remembers_add:
  assumes "remembers init acc s" and "\<not> seen s x"
  shows "remembers init (acc @ [x]) (add x s)"
proof -
  have "tl (drop (length acc) (init @ acc) @ [x]) = drop (Suc (length acc)) (init @ acc @ [x])"
  proof -
    have "drop (length acc) (init @ acc) @ [x] = drop (length acc) (init @ acc @ [x])"
      by (simp add: drop_append)
    then show ?thesis
      by (simp only: drop_Suc tl_drop)
  qed
  then show ?thesis
    using assms by (simp add: remembers_def seen_iff window_add inv_add spaced_snoc)
qed

lemma remembers_cong:
  "remembers init acc s \<Longrightarrow> window t = window s \<Longrightarrow> inv t \<Longrightarrow> remembers init acc t"
  by (simp add: remembers_def)

end

end
