(* ===== verification/Subscriber.thy ===== *)
theory Subscriber
  imports Message_Queue Buffer_Pool Checkpoint Aeron_Config Dedup_Window
begin

text \<open>
  \<open>AeronSubscriber\<close> (\<open>subscriber/include/AeronSubscriber.h\<close>,
  \<open>subscriber/src/AeronSubscriber.cpp\<close>): the reception of a message on the zero-copy path with
  its gap detection, duplicate window and checkpoint, and the discovery of a recording. The
  buffer pool and the message queue are external objects that the subscriber works on.
\<close>

section \<open>Configuration and state\<close>

record SubscriberConfig =
  sc_aeron_dir :: string
  sc_archive_control_channel :: string
  sc_subscription_channel :: string
  sc_subscription_stream_id :: i32
  sc_replay_destination :: string
  gap_recovery_enabled :: bool
  max_gap_tolerance :: i64
  gap_recovery_timeout_ms :: i32
  duplicate_check_enabled :: bool
  duplicate_window_size :: i64

definition default_SubscriberConfig :: SubscriberConfig where
  "default_SubscriberConfig =
     \<lparr>sc_aeron_dir = ''/home/hesed/shm/aeron-subscriber'',
      sc_archive_control_channel = '''', sc_subscription_channel = '''',
      sc_subscription_stream_id = 10,
      sc_replay_destination = ''aeron:udp?endpoint=localhost:40457'',
      gap_recovery_enabled = True, max_gap_tolerance = 5, gap_recovery_timeout_ms = 1000,
      duplicate_check_enabled = True, duplicate_window_size = 1000\<rparr>"

text \<open>
  \<open>buffer_pool_\<close> and \<open>message_queue_\<close> are the addresses of the external objects;
  \<open>subscription_\<close> holds the id of the subscription, \<open>replay_merge_\<close> the recording and the start
  position that it was created with.
\<close>

record AeronSubscriber =
  config :: SubscriberConfig
  sub_running :: bool
  sub_message_count :: i64
  gap_count :: i64
  last_message_number :: i64
  expected_sequence :: i64
  duplicate_buffer :: "i64 list"
  duplicate_buffer_pos :: nat
  sub_buffer_pool :: ptr
  sub_message_queue :: ptr
  zc_messages_received :: u64
  zc_buffer_allocation_failures :: u64
  zc_queue_full_failures :: u64
  gaps_detected :: u64
  gaps_recovered :: u64
  duplicates_detected :: u64
  sub_checkpoint :: "CheckpointManager option"
  sub_archive :: bool
  sub_subscription :: "i64 option"
  sub_replay_merge :: "(i64 \<times> i64) option"

definition default_AeronSubscriber :: AeronSubscriber where
  "default_AeronSubscriber =
     \<lparr>config = default_SubscriberConfig, sub_running = False, sub_message_count = 0,
      gap_count = 0, last_message_number = - 1, expected_sequence = 0,
      duplicate_buffer = [], duplicate_buffer_pos = 0,
      sub_buffer_pool = nullptr, sub_message_queue = nullptr,
      zc_messages_received = 0, zc_buffer_allocation_failures = 0, zc_queue_full_failures = 0,
      gaps_detected = 0, gaps_recovered = 0, duplicates_detected = 0,
      sub_checkpoint = None, sub_archive = False, sub_subscription = None, sub_replay_merge = None\<rparr>"

text \<open>\<open>resize\<close> takes a \<open>size_t\<close> and throws beyond the largest vector of 8-byte elements.\<close>

definition VECTOR_MAX_SIZE :: nat where
  "VECTOR_MAX_SIZE = 2 ^ 60 - 1"

definition new_AeronSubscriber :: "SubscriberConfig \<Rightarrow> exn + AeronSubscriber" where
  "new_AeronSubscriber cfg =
     (let s = default_AeronSubscriber\<lparr>config := cfg\<rparr>
      in if duplicate_check_enabled cfg then
           (if unat (duplicate_window_size cfg) > VECTOR_MAX_SIZE then Inl Length_error
            else Inr (s\<lparr>duplicate_buffer := replicate (unat (duplicate_window_size cfg)) (- 1)\<rparr>))
         else Inr s)"

definition initializeZeroCopy :: "ptr \<Rightarrow> ptr \<Rightarrow> AeronSubscriber \<Rightarrow> exn + AeronSubscriber" where
  "initializeZeroCopy p q s =
     (if p = nullptr \<or> q = nullptr then Inl Invalid_argument
      else Inr (s\<lparr>sub_buffer_pool := p, sub_message_queue := q\<rparr>))"

definition enableCheckpoint ::
  "load_stack \<Rightarrow> filesystem \<Rightarrow> string \<Rightarrow> int \<Rightarrow> AeronSubscriber \<Rightarrow> AeronSubscriber" where
  "enableCheckpoint st fs file flush_interval_sec s =
     s\<lparr>sub_checkpoint := Some (new_CheckpointManager st fs file flush_interval_sec)\<rparr>"

record ZeroCopyStats =
  zs_messages_received :: u64
  zs_buffer_allocation_failures :: u64
  zs_queue_full_failures :: u64

definition getZeroCopyStats :: "AeronSubscriber \<Rightarrow> ZeroCopyStats" where
  "getZeroCopyStats s =
     \<lparr>zs_messages_received = zc_messages_received s,
      zs_buffer_allocation_failures = zc_buffer_allocation_failures s,
      zs_queue_full_failures = zc_queue_full_failures s\<rparr>"

section \<open>Discovery of recordings\<close>

definition channel_of :: "SubscriberConfig \<Rightarrow> string" where
  "channel_of cfg =
     (if sc_subscription_channel cfg = [] then SUBSCRIPTION_CHANNEL
      else sc_subscription_channel cfg)"

definition findLatestRecording :: "archive_client \<Rightarrow> string \<Rightarrow> i32 \<Rightarrow> i64" where
  "findLatestRecording ar channel streamId =
     (case findLastMatchingRecording ar 0 channel streamId (- 1) of
        Inl e \<Rightarrow> - 1
      | Inr recordingId \<Rightarrow> if recordingId = NULL_VALUE ar then - 1 else recordingId)"

definition getRecordingStartPosition :: "i64 \<Rightarrow> i64" where
  "getRecordingStartPosition recordingId = 0"

definition getRecordingStopPosition :: "archive_client \<Rightarrow> i64 \<Rightarrow> i64" where
  "getRecordingStopPosition ar recordingId =
     (case getRecordingPosition ar recordingId of Inl e \<Rightarrow> - 1 | Inr position \<Rightarrow> position)"

section \<open>Gap detection, gap recovery and the duplicate window\<close>

definition checkForGaps :: "i64 \<Rightarrow> AeronSubscriber \<Rightarrow> bool \<times> AeronSubscriber" where
  "checkForGaps message_number s =
     (if expected_sequence s = 0 then
        (False, s\<lparr>expected_sequence := message_number + 1\<rparr>)
      else if sint message_number < sint (expected_sequence s) then (False, s)
      else if sint message_number > sint (expected_sequence s) then
        let gap_size = message_number - expected_sequence s
        in if sint gap_size \<le> sint (max_gap_tolerance (config s)) then (True, s) else (False, s)
      else (False, s))"

definition isDuplicate :: "AeronSubscriber \<Rightarrow> i64 \<Rightarrow> bool" where
  "isDuplicate s message_number =
     (if \<not> duplicate_check_enabled (config s) \<or> duplicate_buffer s = [] then False
      else list_ex (\<lambda>x. x = message_number) (duplicate_buffer s))"

definition addToDecluplicationBuffer :: "i64 \<Rightarrow> AeronSubscriber \<Rightarrow> AeronSubscriber" where
  "addToDecluplicationBuffer message_number s =
     (if \<not> duplicate_check_enabled (config s) \<or> duplicate_buffer s = [] then s
      else s\<lparr>duplicate_buffer := (duplicate_buffer s)[duplicate_buffer_pos s := message_number],
             duplicate_buffer_pos := (duplicate_buffer_pos s + 1) mod length (duplicate_buffer s)\<rparr>)"

definition triggerImmediateGapRecovery ::
  "archive_client \<Rightarrow> i64 \<Rightarrow> i64 \<Rightarrow> AeronSubscriber \<Rightarrow> bool \<times> AeronSubscriber" where
  "triggerImmediateGapRecovery ar gap_start gap_end s =
     (if \<not> sub_archive s then (False, s)
      else
        let recording_id = findLatestRecording ar (channel_of (config s))
              (sc_subscription_stream_id (config s))
        in if sint recording_id \<le> 0 then (False, s)
           else (True, s\<lparr>gaps_recovered := gaps_recovered s + (gap_end - gap_start + 1)\<rparr>))"

section \<open>Reception of a message\<close>

text \<open>The subscriber with the pool and the queue that it works on.\<close>

record zc_world =
  sub :: AeronSubscriber
  bpool :: BufferPool
  mqueue :: MessageQueue

text \<open>Step 4 of the fast path.\<close>

definition detectAndRecoverGap :: "archive_client \<Rightarrow> i64 \<Rightarrow> AeronSubscriber \<Rightarrow> AeronSubscriber" where
  "detectAndRecoverGap ar message_number s =
     (if gap_recovery_enabled (config s) then
        let (gap, s1) = checkForGaps message_number s
        in if gap then
             let s2 = s1\<lparr>gaps_detected := gaps_detected s1 + 1\<rparr>
             in snd (triggerImmediateGapRecovery ar (expected_sequence s2) (message_number - 1) s2)
           else s1
      else s)"

text \<open>Steps 8 and 9: \<open>sequence\<close> is read again from the buffer, after it was enqueued.\<close>

definition recordReception :: "i64 \<Rightarrow> i64 \<Rightarrow> i64 \<Rightarrow> AeronSubscriber \<Rightarrow> AeronSubscriber" where
  "recordReception now sequence position s =
     (let s1 = s\<lparr>zc_messages_received := zc_messages_received s + 1\<rparr>
      in case sub_checkpoint s1 of
           None \<Rightarrow> s1
         | Some cm \<Rightarrow>
             s1\<lparr>sub_checkpoint := Some (update cm now sequence position (zc_messages_received s1))\<rparr>)"

text \<open>\<open>recv_timestamp\<close> and \<open>now\<close> are the two readings of the clock.\<close>

definition handleMessageFastPath ::
  "archive_client \<Rightarrow> i64 \<Rightarrow> i64 \<Rightarrow> u8 list \<Rightarrow> i64 \<Rightarrow> zc_world \<Rightarrow> zc_world" where
  "handleMessageFastPath ar recv_timestamp now buffer position w =
     (let s = sub w; (msg_buf, p1) = allocate (bpool w)
      in if msg_buf = nullptr then
           w\<lparr>sub := s\<lparr>zc_buffer_allocation_failures := zc_buffer_allocation_failures s + 1\<rparr>,
             bpool := p1\<rparr>
         else
           let p2 = store p1 msg_buf (copyFromAeron (deref p1 msg_buf) buffer);
               b = deref p2 msg_buf;
               p3 = store p2 msg_buf (b\<lparr>header := (header b)\<lparr>recv_time_ns := recv_timestamp\<rparr>\<rparr>);
               message_number = sequence_number (header (deref p3 msg_buf));
               s1 = detectAndRecoverGap ar message_number s
           in if duplicate_check_enabled (config s1) \<and> isDuplicate s1 message_number then
                w\<lparr>sub := s1\<lparr>duplicates_detected := duplicates_detected s1 + 1\<rparr>,
                  bpool := deallocate p3 msg_buf\<rparr>
              else
                let s2 = s1\<lparr>expected_sequence := message_number + 1\<rparr>;
                    s3 = (if duplicate_check_enabled (config s2)
                          then addToDecluplicationBuffer message_number s2 else s2);
                    (enqueued, q1) = mq_enqueue (mqueue w) msg_buf
                in if \<not> enqueued then
                     w\<lparr>sub := s3\<lparr>zc_queue_full_failures := zc_queue_full_failures s3 + 1\<rparr>,
                       bpool := deallocate p3 msg_buf, mqueue := q1\<rparr>
                   else
                     w\<lparr>sub := recordReception now (sequence_number (header (deref p3 msg_buf)))
                              position s3,
                       bpool := p3, mqueue := q1\<rparr>)"

definition handleMessage ::
  "archive_client \<Rightarrow> i64 \<Rightarrow> i64 \<Rightarrow> u8 list \<Rightarrow> i64 \<Rightarrow> zc_world \<Rightarrow> zc_world" where
  "handleMessage ar recv_timestamp now buffer position w =
     (if sub_buffer_pool (sub w) \<noteq> nullptr \<and> sub_message_queue (sub w) \<noteq> nullptr then
        handleMessageFastPath ar recv_timestamp now buffer position w
      else w\<lparr>sub := (sub w)\<lparr>sub_running := False\<rparr>\<rparr>)"

section \<open>The duplicate window\<close>

text \<open>The remembered numbers, oldest first.\<close>

definition dup_window :: "AeronSubscriber \<Rightarrow> i64 list" where
  "dup_window s =
     drop (duplicate_buffer_pos s) (duplicate_buffer s)
     @ take (duplicate_buffer_pos s) (duplicate_buffer s)"

definition dup_inv :: "AeronSubscriber \<Rightarrow> bool" where
  "dup_inv s \<longleftrightarrow>
     duplicate_check_enabled (config s)
     \<and> (duplicate_buffer s \<noteq> [] \<longrightarrow> duplicate_buffer_pos s < length (duplicate_buffer s))"

lemma set_dup_window [simp]: "set (dup_window s) = set (duplicate_buffer s)"
  unfolding dup_window_def by (metis append_take_drop_id set_append sup_commute)

lemma length_dup_window [simp]: "length (dup_window s) = length (duplicate_buffer s)"
  by (simp add: dup_window_def)

lemma rotate_ring_add:
  assumes "p < length xs"
  shows "drop ((p + 1) mod length xs) (xs[p := x]) @ take ((p + 1) mod length xs) (xs[p := x])
       = tl (drop p xs @ take p xs @ [x])"
proof (cases "p + 1 = length xs")
  case True
  then have "drop p xs = [xs ! p]"
    using assms by (metis Cons_nth_drop_Suc Suc_eq_plus1 drop_eq_Nil order_refl)
  moreover have "xs[p := x] = take p xs @ [x]"
    using True assms by (simp add: upd_conv_take_nth_drop)
  ultimately show ?thesis
    using True by simp
next
  case False
  then have "(p + 1) mod length xs = p + 1"
    using assms by simp
  moreover have "tl (drop p xs) = drop (p + 1) xs"
    by (simp add: drop_Suc tl_drop)
  moreover have "drop p xs \<noteq> []"
    using assms by simp
  ultimately show ?thesis
    using assms by (simp add: take_Suc_conv_app_nth)
qed

lemma isDuplicate_iff: "dup_inv s \<Longrightarrow> isDuplicate s x \<longleftrightarrow> x \<in> set (dup_window s)"
  by (auto simp: isDuplicate_def dup_inv_def list_ex_iff)

lemma dup_window_add:
  "dup_inv s \<Longrightarrow> dup_window (addToDecluplicationBuffer x s) = tl (dup_window s @ [x])"
  using rotate_ring_add [of "duplicate_buffer_pos s" "duplicate_buffer s" x]
  by (auto simp: dup_inv_def addToDecluplicationBuffer_def dup_window_def)

lemma dup_inv_add: "dup_inv s \<Longrightarrow> dup_inv (addToDecluplicationBuffer x s)"
  by (simp add: dup_inv_def addToDecluplicationBuffer_def)

interpretation dedup: sliding_window isDuplicate addToDecluplicationBuffer dup_window dup_inv
  by unfold_locales (simp_all add: isDuplicate_iff dup_window_add dup_inv_add)

lemma new_AeronSubscriber_window:
  assumes "new_AeronSubscriber cfg = Inr s" and "duplicate_check_enabled cfg"
  shows "dup_inv s" and "dup_window s = replicate (unat (duplicate_window_size cfg)) (- 1)"
  using assms by (auto simp: new_AeronSubscriber_def Let_def dup_inv_def dup_window_def
      default_AeronSubscriber_def split: if_splits)

section \<open>What the steps of the fast path change\<close>

lemma checkForGaps_frame:
  "config (snd (checkForGaps n s)) = config s"
  "duplicate_buffer (snd (checkForGaps n s)) = duplicate_buffer s"
  "duplicate_buffer_pos (snd (checkForGaps n s)) = duplicate_buffer_pos s"
  by (simp_all add: checkForGaps_def Let_def)

lemma triggerImmediateGapRecovery_frame:
  "snd (triggerImmediateGapRecovery ar a b s) =
     s\<lparr>gaps_recovered := gaps_recovered (snd (triggerImmediateGapRecovery ar a b s))\<rparr>"
  by (simp add: triggerImmediateGapRecovery_def Let_def)

text \<open>Step 4 touches only the expected number (on the first message) and the two gap counters.\<close>

lemma detectAndRecoverGap_frame:
  "detectAndRecoverGap ar n s =
     s\<lparr>expected_sequence := expected_sequence (detectAndRecoverGap ar n s),
       gaps_detected := gaps_detected (detectAndRecoverGap ar n s),
       gaps_recovered := gaps_recovered (detectAndRecoverGap ar n s)\<rparr>"
  by (simp add: detectAndRecoverGap_def checkForGaps_def triggerImmediateGapRecovery_def Let_def)

lemma detectAndRecoverGap_simps [simp]:
  "config (detectAndRecoverGap ar n s) = config s"
  "sub_running (detectAndRecoverGap ar n s) = sub_running s"
  "duplicate_buffer (detectAndRecoverGap ar n s) = duplicate_buffer s"
  "duplicate_buffer_pos (detectAndRecoverGap ar n s) = duplicate_buffer_pos s"
  "zc_messages_received (detectAndRecoverGap ar n s) = zc_messages_received s"
  "zc_buffer_allocation_failures (detectAndRecoverGap ar n s) = zc_buffer_allocation_failures s"
  "zc_queue_full_failures (detectAndRecoverGap ar n s) = zc_queue_full_failures s"
  "duplicates_detected (detectAndRecoverGap ar n s) = duplicates_detected s"
  "sub_checkpoint (detectAndRecoverGap ar n s) = sub_checkpoint s"
  "isDuplicate (detectAndRecoverGap ar n s) = isDuplicate s"
  "dup_inv (detectAndRecoverGap ar n s) = dup_inv s"
  "dup_window (detectAndRecoverGap ar n s) = dup_window s"
  by (subst detectAndRecoverGap_frame; simp add: isDuplicate_def dup_inv_def dup_window_def fun_eq_iff)+

lemma addToDecluplicationBuffer_simps [simp]:
  "config (addToDecluplicationBuffer n s) = config s"
  "expected_sequence (addToDecluplicationBuffer n s) = expected_sequence s"
  "gaps_detected (addToDecluplicationBuffer n s) = gaps_detected s"
  "gaps_recovered (addToDecluplicationBuffer n s) = gaps_recovered s"
  "zc_messages_received (addToDecluplicationBuffer n s) = zc_messages_received s"
  "zc_buffer_allocation_failures (addToDecluplicationBuffer n s) = zc_buffer_allocation_failures s"
  "zc_queue_full_failures (addToDecluplicationBuffer n s) = zc_queue_full_failures s"
  "duplicates_detected (addToDecluplicationBuffer n s) = duplicates_detected s"
  "sub_checkpoint (addToDecluplicationBuffer n s) = sub_checkpoint s"
  by (simp_all add: addToDecluplicationBuffer_def)

lemma recordReception_simps [simp]:
  "config (recordReception now n pos s) = config s"
  "expected_sequence (recordReception now n pos s) = expected_sequence s"
  "duplicate_buffer (recordReception now n pos s) = duplicate_buffer s"
  "duplicate_buffer_pos (recordReception now n pos s) = duplicate_buffer_pos s"
  "zc_messages_received (recordReception now n pos s) = zc_messages_received s + 1"
  "zc_buffer_allocation_failures (recordReception now n pos s) = zc_buffer_allocation_failures s"
  "zc_queue_full_failures (recordReception now n pos s) = zc_queue_full_failures s"
  "duplicates_detected (recordReception now n pos s) = duplicates_detected s"
  "gaps_detected (recordReception now n pos s) = gaps_detected s"
  "gaps_recovered (recordReception now n pos s) = gaps_recovered s"
  by (simp_all add: recordReception_def Let_def split: option.splits)

end
