(* ===== verification/Subscriber_Reception.thy ===== *)
theory Subscriber_Reception
  imports Subscriber
begin

text \<open>
  The behaviour of \<open>AeronSubscriber::handleMessageFastPath\<close> on every branch: what becomes of the
  message, of the buffer pool, of the queue and of the counters.
\<close>

section \<open>The buffer that a message is received into\<close>

definition received_header :: "u8 list \<Rightarrow> i64 \<Rightarrow> MessageHeader" where
  "received_header d t =
     (memcpy_header zero_header d (min (length d) HEADER_SIZE))\<lparr>recv_time_ns := t\<rparr>"

definition number_of :: "u8 list \<Rightarrow> i64" where
  "number_of d = sequence_number (received_header d 0)"

lemma sequence_number_received_header [simp]:
  "sequence_number (received_header d t) = number_of d"
  by (simp add: number_of_def received_header_def)

definition received_buffer :: "MessageBuffer \<Rightarrow> u8 list \<Rightarrow> i64 \<Rightarrow> MessageBuffer" where
  "received_buffer b d t =
     (let c = copyFromAeron b d in c\<lparr>header := (header c)\<lparr>recv_time_ns := t\<rparr>\<rparr>)"

definition receive_into :: "u8 list \<Rightarrow> i64 \<Rightarrow> BufferPool \<Rightarrow> BufferPool" where
  "receive_into d t p =
     (let (a, p1) = allocate p in store p1 a (received_buffer (deref p1 a) d t))"

lemma in_use_received_buffer [simp]: "in_use (received_buffer b d t) = in_use b"
  by (simp add: received_buffer_def Let_def)

lemma wf_received_buffer [inv_intros]: "wf_buffer b \<Longrightarrow> wf_buffer (received_buffer b d t)"
  by (simp add: received_buffer_def Let_def wf_copyFromAeron)

lemma header_received_buffer:
  "header b = zero_header \<Longrightarrow> header (received_buffer b d t) = received_header d t"
  by (simp add: received_buffer_def Let_def header_copyFromAeron received_header_def)

lemma payload_received_buffer:
  "take (unat (actual_payload_length (received_buffer b d t))) (payload (received_buffer b d t))
     = take MAX_PAYLOAD_SIZE (drop HEADER_SIZE d)"
  by (simp add: received_buffer_def Let_def actual_payload_length_copyFromAeron
      take_payload_copyFromAeron)

text \<open>While a buffer is free: \<open>next_free\<close> is the buffer that the message goes to.\<close>

lemma allocate_fst: "pool_inv p \<Longrightarrow> 0 < free_count p \<Longrightarrow> fst (allocate p) = next_free p"
  by (simp add: allocate_success)

lemma next_free_not_null: "pool_inv p \<Longrightarrow> 0 < free_count p \<Longrightarrow> next_free p \<noteq> nullptr"
  using allocate_null_iff [of p] by (simp add: allocate_fst)

lemma next_free_ptrs:
  assumes "pool_inv p" and "0 < free_count p"
  shows "next_free p \<in> pool_ptrs p" "next_free p \<notin> owned p"
    "next_free p \<in> pool_ptrs (snd (allocate p))"
  using next_free_mem(2) [OF assms] allocate_owned(2) [OF assms] by (simp_all add: assms(1))

lemma receive_into_eq:
  "pool_inv p \<Longrightarrow> 0 < free_count p \<Longrightarrow>
   receive_into d t p =
     store (snd (allocate p)) (next_free p)
       (received_buffer (deref (snd (allocate p)) (next_free p)) d t)"
  by (simp add: receive_into_def case_prod_beta allocate_fst)

lemma deref_receive_into:
  assumes "pool_inv p" and "0 < free_count p" and "c \<in> pool_ptrs p"
  shows "deref (receive_into d t p) c =
    (if c = next_free p then received_buffer ((reset (deref p c))\<lparr>in_use := True\<rparr>) d t
     else deref p c)"
proof (cases "c = next_free p")
  case True
  note a = next_free_ptrs [OF assms(1,2)]
  show ?thesis
    unfolding True
    by (simp only: receive_into_eq [OF assms(1,2)] deref_store(1) [OF a(3)]
        deref_allocate [OF assms(1,2) a(1)] simp_thms if_True)
next
  case False
  have c: "c \<in> pool_ptrs (snd (allocate p))"
    using assms by simp
  show ?thesis
    using False next_free_ptrs [OF assms(1,2)] assms
    by (simp add: receive_into_eq deref_store(2) [OF _ c] deref_allocate)
qed

lemma receive_into_simps:
  assumes "pool_inv p" and "0 < free_count p"
  shows "owned (receive_into d t p) = insert (next_free p) (owned p)"
    "pool_ptrs (receive_into d t p) = pool_ptrs p" "PoolSize (receive_into d t p) = PoolSize p"
    "free_count (receive_into d t p) = free_count p - 1"
  by (simp_all add: receive_into_eq allocate_owned assms)

lemma receive_into_inv:
  assumes "pool_inv p" and "0 < free_count p"
  shows "pool_inv (receive_into d t p)"
  unfolding receive_into_eq [OF assms]
proof (rule pool_inv_store)
  show "pool_inv (snd (allocate p))" by (rule allocate_inv [OF assms(1)])
  show a: "next_free p \<in> pool_ptrs (snd (allocate p))" by (rule next_free_ptrs(3) [OF assms])
  show "wf_buffer (received_buffer (deref (snd (allocate p)) (next_free p)) d t)"
    using deref_mem [OF a] allocate_inv [OF assms(1)]
    by (intro wf_received_buffer) (simp add: pool_inv_def)
qed simp

lemma header_receive_into:
  "pool_inv p \<Longrightarrow> 0 < free_count p \<Longrightarrow>
     header (deref (receive_into d t p) (next_free p)) = received_header d t"
  by (simp add: deref_receive_into next_free_ptrs header_received_buffer reset_def)

section \<open>The outcome of a message\<close>

datatype outcome = Pool_exhausted | Duplicate | Queue_full | Accepted

definition fast_path_outcome :: "zc_world \<Rightarrow> u8 list \<Rightarrow> outcome" where
  "fast_path_outcome w d =
     (if free_count (bpool w) = 0 then Pool_exhausted
      else if isDuplicate (sub w) (number_of d) then Duplicate
      else if length (mq_contents (mqueue w)) = mq_capacity (mqueue w) then Queue_full
      else Accepted)"

text \<open>What step 4 and step 6 make of the tracking state for a message that is not dropped before.\<close>

definition tracked :: "archive_client \<Rightarrow> i64 \<Rightarrow> AeronSubscriber \<Rightarrow> AeronSubscriber" where
  "tracked ar n s =
     (let s1 = (detectAndRecoverGap ar n s)\<lparr>expected_sequence := n + 1\<rparr>
      in if duplicate_check_enabled (config s1) then addToDecluplicationBuffer n s1 else s1)"

lemma isDuplicate_enabled: "isDuplicate s n \<Longrightarrow> duplicate_check_enabled (config s)"
  by (simp add: isDuplicate_def split: if_splits)

lemma fast_path_exhausted:
  "free_count (bpool w) = 0 \<Longrightarrow>
   handleMessageFastPath ar t now d pos w =
     w\<lparr>sub := (sub w)\<lparr>zc_buffer_allocation_failures := zc_buffer_allocation_failures (sub w) + 1\<rparr>,
       bpool := (bpool w)\<lparr>allocation_failures := allocation_failures (bpool w) + 1\<rparr>\<rparr>"
  by (simp add: handleMessageFastPath_def Let_def allocate_exhausted)

lemma store_received:
  assumes "pool_inv p" and "0 < free_count p"
  shows "(let p2 = store (snd (allocate p)) (next_free p)
              (copyFromAeron (deref (snd (allocate p)) (next_free p)) d);
            b = deref p2 (next_free p)
          in store p2 (next_free p) (b\<lparr>header := (header b)\<lparr>recv_time_ns := t\<rparr>\<rparr>))
       = receive_into d t p"
  by (simp add: Let_def receive_into_eq [OF assms] received_buffer_def
      deref_store(1) [OF next_free_ptrs(3) [OF assms]])

text \<open>With a free buffer the fast path is the following.\<close>

lemma fast_path_received:
  assumes "pool_inv (bpool w)" and "0 < free_count (bpool w)"
  shows "handleMessageFastPath ar t now d pos w =
    (let s = sub w; a = next_free (bpool w); p = receive_into d t (bpool w); n = number_of d
     in if isDuplicate s n then
          w\<lparr>sub := (detectAndRecoverGap ar n s)
               \<lparr>duplicates_detected := duplicates_detected s + 1\<rparr>,
            bpool := deallocate p a\<rparr>
        else let (enqueued, q) = mq_enqueue (mqueue w) a in
          if \<not> enqueued then
            w\<lparr>sub := (tracked ar n s)\<lparr>zc_queue_full_failures := zc_queue_full_failures s + 1\<rparr>,
              bpool := deallocate p a, mqueue := q\<rparr>
          else w\<lparr>sub := recordReception now n pos (tracked ar n s), bpool := p, mqueue := q\<rparr>)"
proof -
  let ?p = "bpool w" and ?a = "next_free (bpool w)"
  have alloc: "allocate ?p = (?a, snd (allocate ?p))"
    using allocate_fst [OF assms] by (metis prod.collapse)
  have n: "sequence_number (header (deref (receive_into d t ?p) ?a)) = number_of d"
    by (simp add: header_receive_into [OF assms])
  have q: "zc_queue_full_failures (tracked ar (number_of d) (sub w))
      = zc_queue_full_failures (sub w)"
    by (simp add: tracked_def Let_def)
  show ?thesis
    using store_received [OF assms, of d t] next_free_not_null [OF assms]
    unfolding handleMessageFastPath_def
    by (subst alloc)
       (auto simp: Let_def n q tracked_def case_prod_beta dest: isDuplicate_enabled)
qed

section \<open>Counters, queue and pool per outcome\<close>

lemma tracked_simps [simp]:
  "config (tracked ar n s) = config s" "expected_sequence (tracked ar n s) = n + 1"
  "zc_messages_received (tracked ar n s) = zc_messages_received s"
  "zc_buffer_allocation_failures (tracked ar n s) = zc_buffer_allocation_failures s"
  "zc_queue_full_failures (tracked ar n s) = zc_queue_full_failures s"
  "duplicates_detected (tracked ar n s) = duplicates_detected s"
  "sub_checkpoint (tracked ar n s) = sub_checkpoint s"
  by (simp_all add: tracked_def Let_def)

lemma dup_cong:
  assumes "config t = config s" "duplicate_buffer t = duplicate_buffer s"
    "duplicate_buffer_pos t = duplicate_buffer_pos s"
  shows "isDuplicate t = isDuplicate s" "dup_inv t = dup_inv s" "dup_window t = dup_window s"
  using assms by (simp_all add: isDuplicate_def dup_inv_def dup_window_def fun_eq_iff)

lemma tracked_remembers:
  assumes "dedup.remembers init acc s" and "\<not> isDuplicate s n"
  shows "dedup.remembers init (acc @ [n]) (tracked ar n s)"
proof -
  let ?s = "(detectAndRecoverGap ar n s)\<lparr>expected_sequence := n + 1\<rparr>"
  note same = dup_cong [of ?s s, simplified]
  have "dedup.remembers init acc ?s"
    using assms(1) by (rule dedup.remembers_cong) (use assms(1) same in \<open>simp_all add: dedup.remembers_def\<close>)
  then show ?thesis
    using dedup.remembers_add [of init acc ?s n] assms same
    by (simp add: tracked_def Let_def dedup.remembers_def dup_inv_def)
qed

text \<open>The state after each outcome.\<close>

lemma outcome_free: "fast_path_outcome w d \<noteq> Pool_exhausted \<longleftrightarrow> 0 < free_count (bpool w)"
  by (simp add: fast_path_outcome_def)

lemma outcome_enqueue:
  assumes "pool_inv (bpool w)" and "mq_inv (mqueue w)" and "0 < free_count (bpool w)"
  shows "fst (mq_enqueue (mqueue w) (next_free (bpool w)))
    \<longleftrightarrow> length (mq_contents (mqueue w)) \<noteq> mq_capacity (mqueue w)"
  using mq_enqueue_accepts [OF assms(2), of "next_free (bpool w)"] next_free_not_null [OF assms(1,3)]
    mq_length_contents [OF assms(2)] by linarith

lemma fast_path_duplicate:
  assumes "pool_inv (bpool w)" and r: "fast_path_outcome w d = Duplicate"
  shows "handleMessageFastPath ar t now d pos w =
    w\<lparr>sub := (detectAndRecoverGap ar (number_of d) (sub w))
         \<lparr>duplicates_detected := duplicates_detected (sub w) + 1\<rparr>,
      bpool := deallocate (receive_into d t (bpool w)) (next_free (bpool w))\<rparr>"
proof -
  have "0 < free_count (bpool w)" "isDuplicate (sub w) (number_of d)"
    using r by (simp_all add: fast_path_outcome_def split: if_splits)
  with assms(1) show ?thesis
    by (simp add: fast_path_received Let_def)
qed

lemma fast_path_queue_full:
  assumes "pool_inv (bpool w)" and "mq_inv (mqueue w)" and r: "fast_path_outcome w d = Queue_full"
  shows "handleMessageFastPath ar t now d pos w =
    w\<lparr>sub := (tracked ar (number_of d) (sub w))
         \<lparr>zc_queue_full_failures := zc_queue_full_failures (sub w) + 1\<rparr>,
      bpool := deallocate (receive_into d t (bpool w)) (next_free (bpool w)),
      mqueue := snd (mq_enqueue (mqueue w) (next_free (bpool w)))\<rparr>"
proof -
  have "0 < free_count (bpool w)" "\<not> isDuplicate (sub w) (number_of d)"
    "length (mq_contents (mqueue w)) = mq_capacity (mqueue w)"
    using r by (simp_all add: fast_path_outcome_def split: if_splits)
  with assms(1,2) outcome_enqueue [of w] show ?thesis
    by (simp add: fast_path_received Let_def case_prod_beta)
qed

lemma fast_path_accepted:
  assumes "pool_inv (bpool w)" and "mq_inv (mqueue w)" and r: "fast_path_outcome w d = Accepted"
  shows "handleMessageFastPath ar t now d pos w =
    w\<lparr>sub := recordReception now (number_of d) pos (tracked ar (number_of d) (sub w)),
      bpool := receive_into d t (bpool w),
      mqueue := snd (mq_enqueue (mqueue w) (next_free (bpool w)))\<rparr>"
proof -
  have "0 < free_count (bpool w)" "\<not> isDuplicate (sub w) (number_of d)"
    "length (mq_contents (mqueue w)) \<noteq> mq_capacity (mqueue w)"
    using r by (simp_all add: fast_path_outcome_def split: if_splits)
  with assms(1,2) outcome_enqueue [of w] show ?thesis
    by (simp add: fast_path_received Let_def case_prod_beta)
qed

lemma fast_path_exhausted_outcome:
  "fast_path_outcome w d = Pool_exhausted \<longleftrightarrow> free_count (bpool w) = 0"
  by (simp add: fast_path_outcome_def)

text \<open>Receiving into a buffer and giving it back leaves the pool's bookkeeping as it was.\<close>

lemma receive_return:
  assumes "pool_inv p" and "0 < free_count p"
  shows "owned (deallocate (receive_into d t p) (next_free p)) = owned p"
    "pool_inv (deallocate (receive_into d t p) (next_free p))"
    "free_count (deallocate (receive_into d t p) (next_free p)) = free_count p"
    "PoolSize (deallocate (receive_into d t p) (next_free p)) = PoolSize p"
    "pool_ptrs (deallocate (receive_into d t p) (next_free p)) = pool_ptrs p"
    "c \<in> owned p \<Longrightarrow> deref (deallocate (receive_into d t p) (next_free p)) c = deref p c"
proof -
  note rp = receive_into_simps [OF assms, of d t]
  note inv = receive_into_inv [OF assms, of d t]
  have mem: "next_free p \<in> owned (receive_into d t p)" by (simp add: rp)
  show "owned (deallocate (receive_into d t p) (next_free p)) = owned p"
    using next_free_ptrs(2) [OF assms] by (auto simp: deallocate_owned(1) [OF inv mem] rp)
  show "pool_inv (deallocate (receive_into d t p) (next_free p))"
    by (rule deallocate_inv [OF inv mem])
  show "free_count (deallocate (receive_into d t p) (next_free p)) = free_count p"
    "PoolSize (deallocate (receive_into d t p) (next_free p)) = PoolSize p"
    "pool_ptrs (deallocate (receive_into d t p) (next_free p)) = pool_ptrs p"
    using assms(2) by (simp_all add: deallocate_simps [OF inv mem] rp)
  assume c: "c \<in> owned p"
  then have "c \<noteq> next_free p" "c \<in> pool_ptrs p"
    using next_free_ptrs(2) [OF assms] by (auto simp: owned_def)
  then show "deref (deallocate (receive_into d t p) (next_free p)) c = deref p c"
    by (subst deref_deallocate [OF inv mem]) (simp_all add: rp deref_receive_into assms)
qed

lemma enqueue_full_contents:
  assumes "mq_inv q" and "length (mq_contents q) = mq_capacity q"
  shows "mq_contents (snd (mq_enqueue q a)) = mq_contents q"
  using mq_enqueue_contents [OF assms(1), of a] mq_enqueue_accepts [OF assms(1), of a] assms(2) by simp

text \<open>The effect of a message on pool and queue.\<close>

definition world_inv :: "zc_world \<Rightarrow> bool" where
  "world_inv w \<longleftrightarrow> pool_inv (bpool w) \<and> mq_inv (mqueue w)"

lemma fast_path_kept:
  assumes "world_inv w" and "fast_path_outcome w d \<noteq> Accepted"
  shows "let w' = handleMessageFastPath ar t now d pos w
         in mq_contents (mqueue w') = mq_contents (mqueue w) \<and> owned (bpool w') = owned (bpool w)
          \<and> free_count (bpool w') = free_count (bpool w) \<and> PoolSize (bpool w') = PoolSize (bpool w)
          \<and> mq_capacity (mqueue w') = mq_capacity (mqueue w) \<and> world_inv w'
          \<and> sub_checkpoint (sub w') = sub_checkpoint (sub w)
          \<and> (\<forall>c \<in> owned (bpool w). deref (bpool w') c = deref (bpool w) c)"
proof -
  have inv: "pool_inv (bpool w)" "mq_inv (mqueue w)"
    using assms(1) by (simp_all add: world_inv_def)
  show ?thesis
  proof (cases "fast_path_outcome w d")
    case Pool_exhausted
    then show ?thesis
      using inv by (simp add: fast_path_exhausted_outcome fast_path_exhausted world_inv_def Let_def)
  next
    case Duplicate
    then have "0 < free_count (bpool w)"
      using outcome_free [of w d] by simp
    with inv Duplicate show ?thesis
      by (simp add: fast_path_duplicate receive_return world_inv_def Let_def)
  next
    case Queue_full
    then have "0 < free_count (bpool w)" "length (mq_contents (mqueue w)) = mq_capacity (mqueue w)"
      by (simp_all add: fast_path_outcome_def split: if_splits)
    with inv Queue_full show ?thesis
      by (simp add: fast_path_queue_full receive_return world_inv_def Let_def enqueue_full_contents
          mq_enqueue_inv mq_capacity_ops)
  next
    case Accepted
    then show ?thesis using assms(2) by simp
  qed
qed

lemma fast_path_taken:
  assumes "world_inv w" and r: "fast_path_outcome w d = Accepted"
  shows "let w' = handleMessageFastPath ar t now d pos w; a = next_free (bpool w)
         in mq_contents (mqueue w') = mq_contents (mqueue w) @ [a]
          \<and> owned (bpool w') = insert a (owned (bpool w)) \<and> a \<notin> owned (bpool w)
          \<and> free_count (bpool w') = free_count (bpool w) - 1 \<and> 0 < free_count (bpool w)
          \<and> PoolSize (bpool w') = PoolSize (bpool w)
          \<and> mq_capacity (mqueue w') = mq_capacity (mqueue w) \<and> world_inv w'
          \<and> (\<forall>c \<in> owned (bpool w). deref (bpool w') c = deref (bpool w) c)
          \<and> deref (bpool w') a = received_buffer ((reset (deref (bpool w) a))\<lparr>in_use := True\<rparr>) d t"
proof -
  have inv: "pool_inv (bpool w)" "mq_inv (mqueue w)"
    using assms(1) by (simp_all add: world_inv_def)
  have free: "0 < free_count (bpool w)"
    using r outcome_free [of w d] by simp
  have enq: "fst (mq_enqueue (mqueue w) (next_free (bpool w)))"
    using outcome_enqueue [OF inv free] r by (auto simp: fast_path_outcome_def split: if_splits)
  have mem: "c \<in> owned (bpool w) \<Longrightarrow> c \<in> pool_ptrs (bpool w) \<and> c \<noteq> next_free (bpool w)" for c
    using next_free_ptrs(2) [OF inv(1) free] by (auto simp: owned_def)
  note rp = receive_into_simps [OF inv(1) free, of d t]
  have other: "\<forall>c \<in> owned (bpool w). deref (receive_into d t (bpool w)) c = deref (bpool w) c"
    using mem by (simp add: deref_receive_into [OF inv(1) free])
  have here: "deref (receive_into d t (bpool w)) (next_free (bpool w)) =
      received_buffer ((reset (deref (bpool w) (next_free (bpool w))))\<lparr>in_use := True\<rparr>) d t"
    by (simp add: deref_receive_into [OF inv(1) free] next_free_ptrs [OF inv(1) free])
  have q: "mq_contents (snd (mq_enqueue (mqueue w) (next_free (bpool w))))
      = mq_contents (mqueue w) @ [next_free (bpool w)]"
    using enq by (simp add: mq_enqueue_contents [OF inv(2)])
  show ?thesis
    using free other here q next_free_ptrs(2) [OF inv(1) free]
    by (simp add: fast_path_accepted [OF inv r] rp world_inv_def receive_into_inv inv
        mq_enqueue_inv mq_capacity_ops)
qed

lemma fast_path_counters:
  assumes "world_inv w"
  shows "let s = sub w; s' = sub (handleMessageFastPath ar t now d pos w); r = fast_path_outcome w d
         in zc_messages_received s' = zc_messages_received s + of_bool (r = Accepted)
            \<and> zc_buffer_allocation_failures s'
                = zc_buffer_allocation_failures s + of_bool (r = Pool_exhausted)
            \<and> duplicates_detected s' = duplicates_detected s + of_bool (r = Duplicate)
            \<and> zc_queue_full_failures s' = zc_queue_full_failures s + of_bool (r = Queue_full)"
proof -
  have inv: "pool_inv (bpool w)" "mq_inv (mqueue w)"
    using assms(1) by (simp_all add: world_inv_def)
  show ?thesis
    using inv
    by (cases "fast_path_outcome w d")
       (simp_all add: Let_def fast_path_duplicate fast_path_queue_full fast_path_accepted
          fast_path_exhausted [OF fast_path_exhausted_outcome [THEN iffD1]])
qed

section \<open>The bytes of a received message\<close>

lemma header_bytes_recv_stamp:
  assumes "wf_header h"
  shows "header_bytes (h\<lparr>recv_time_ns := t\<rparr>)
       = take 32 (header_bytes h) @ le_bytes 8 t @ drop 40 (header_bytes h)"
  using assms by (simp add: header_bytes_def wf_header_def)

lemma header_bytes_received:
  assumes "HEADER_SIZE \<le> length d"
  shows "header_bytes (received_header d t) = take 32 d @ le_bytes 8 t @ drop 40 (take HEADER_SIZE d)"
proof -
  let ?h = "memcpy_header zero_header d HEADER_SIZE"
  have h: "header_bytes ?h = take HEADER_SIZE d"
    using assms by (simp add: header_bytes_memcpy_header wf_zero_header length_header_bytes)
  have "wf_header ?h"
    using assms by (intro wf_memcpy_header wf_zero_header) simp_all
  from header_bytes_recv_stamp [OF this, of t] show ?thesis
    using assms by (simp add: received_header_def min_absorb2 h) (simp add: HEADER_SIZE_def min_def)
qed

lemma number_of_header:
  assumes "wf_header h"
  shows "number_of (header_bytes h @ rest) = sequence_number h"
  using assms bytes_header_header_bytes [OF assms, of "[]"]
  by (simp add: number_of_def received_header_def memcpy_header_def length_header_bytes
      header_bytes_zero_header HEADER_SIZE_def)

lemma wire_bytes_received_buffer:
  assumes "wf_buffer b" and "header b = zero_header" and "HEADER_SIZE \<le> length d"
  shows "wire_bytes (received_buffer b d t) =
    take 32 d @ le_bytes 8 t @ drop 40 (take (HEADER_SIZE + MAX_PAYLOAD_SIZE) d)"
proof -
  have "wire_bytes (received_buffer b d t) =
      header_bytes (received_header d t) @ take MAX_PAYLOAD_SIZE (drop HEADER_SIZE d)"
    by (simp add: wire_bytes_def payload_received_buffer header_received_buffer [OF assms(2)])
  then show ?thesis
    using assms(3)
    by (simp add: header_bytes_received take_add drop_append HEADER_SIZE_def)
qed

section \<open>A concrete subscriber\<close>

definition example_subscriber :: AeronSubscriber where
  "example_subscriber =
     default_AeronSubscriber
       \<lparr>config := default_SubscriberConfig\<lparr>duplicate_window_size := 4\<rparr>,
        duplicate_buffer := replicate 4 (- 1), sub_checkpoint := Some example_checkpoint\<rparr>"

definition example_archive :: archive_client where
  "example_archive =
     \<lparr>findLastMatchingRecording = (\<lambda>_ _ _ _. Inr 3), getRecordingPosition = (\<lambda>_. Inr 8192),
      NULL_VALUE = - 1\<rparr>"

definition example_world :: zc_world where
  "example_world =
     \<lparr>sub = example_subscriber, bpool = example_pool, mqueue = new_MessageQueue 16\<rparr>"

definition example_message :: "u64 \<Rightarrow> u8 list" where
  "example_message n = header_bytes (zero_header\<lparr>sequence_number := n\<rparr>) @ [1, 2]"

lemma example_message_number [simp]: "number_of (example_message n) = n"
  unfolding example_message_def
  by (subst number_of_header) (simp_all add: zero_header_eq wf_header_def)

lemma length_example_message [simp]: "length (example_message n) = 66"
  using wf_zero_header
  by (simp add: example_message_def length_header_bytes HEADER_SIZE_def wf_header_def)

lemma example_world_inv: "world_inv example_world"
  using mq_new_inv [of 16] example_pool_inv
  by (simp add: world_inv_def example_world_def size_is_pow2_def)

lemma example_world_simps:
  "free_count (bpool example_world) = 2" "mq_contents (mqueue example_world) = []"
  "mq_capacity (mqueue example_world) = 15" "owned (bpool example_world) = {}"
  "sub example_world = example_subscriber"
  by (simp_all add: example_world_def example_pool_inv)
     (simp add: mq_capacity_def mq_Size_def new_MessageQueue_def)

lemma example_outcome:
  "fast_path_outcome example_world (example_message n) = (if n = - 1 then Duplicate else Accepted)"
  by (simp add: fast_path_outcome_def example_world_simps isDuplicate_def example_subscriber_def
      default_AeronSubscriber_def default_SubscriberConfig_def numeral_eq_Suc)

section \<open>Properties\<close>

text \<open>C20: Every message that arrives has exactly one outcome, and exactly the counter of that outcome
  moves: the pool is exhausted, the number is in the duplicate window, the queue is full, or the
  message is accepted. Only an accepted message takes a buffer from the pool and appends it
  to the queue; on the three other outcomes pool and queue are as before.\<close>

theorem message_has_one_outcome:
  assumes "world_inv w"
  shows "let s = sub w; w' = handleMessageFastPath ar t now d pos w; s' = sub w';
             r = fast_path_outcome w d; a = next_free (bpool w)
         in zc_messages_received s' = zc_messages_received s + of_bool (r = Accepted)
          \<and> zc_buffer_allocation_failures s'
              = zc_buffer_allocation_failures s + of_bool (r = Pool_exhausted)
          \<and> duplicates_detected s' = duplicates_detected s + of_bool (r = Duplicate)
          \<and> zc_queue_full_failures s' = zc_queue_full_failures s + of_bool (r = Queue_full)
          \<and> mq_contents (mqueue w') = mq_contents (mqueue w) @ (if r = Accepted then [a] else [])
          \<and> owned (bpool w') = owned (bpool w) \<union> (if r = Accepted then {a} else {})
          \<and> available (bpool w') = available (bpool w) - of_bool (r = Accepted)
          \<and> world_inv w'"
  using fast_path_counters [OF assms, of ar t now d pos] fast_path_kept [OF assms, of d ar t now pos]
    fast_path_taken [OF assms, of d ar t now pos]
  by (cases "fast_path_outcome w d = Accepted") (simp_all add: Let_def available_def)

theorem message_has_one_outcome_witness:
  "let w' = handleMessageFastPath example_archive 9 10 (example_message 5) 4096 example_world
   in zc_messages_received (sub w') = 1 \<and> duplicates_detected (sub w') = 0
      \<and> length (mq_contents (mqueue w')) = 1 \<and> available (bpool w') = 1"
  using message_has_one_outcome [OF example_world_inv, of example_archive 9 10
      "example_message 5" 4096]
  by (simp add: Let_def example_outcome example_world_simps available_def)
     (simp add: example_subscriber_def default_AeronSubscriber_def)

text \<open>What an accepted message looks like to the worker: the last buffer of the queue holds the
  message byte for byte, except for the receive time in bytes 32 to 39 and for what exceeds
  4096 payload bytes; no other buffer that is in use has changed; and the checkpoint, if
  enabled, has the message's number and position and the number of messages accepted.\<close>

theorem accepted_message_delivered:
  assumes "world_inv w" and "fast_path_outcome w d = Accepted" and "HEADER_SIZE \<le> length d"
  shows "let w' = handleMessageFastPath ar t now d pos w; a = last (mq_contents (mqueue w'))
         in wire_bytes (deref (bpool w') a)
              = take 32 d @ le_bytes 8 t @ drop 40 (take (HEADER_SIZE + MAX_PAYLOAD_SIZE) d)
          \<and> (\<forall>c \<in> owned (bpool w). c \<noteq> a \<and> deref (bpool w') c = deref (bpool w) c)
          \<and> sub_checkpoint (sub w')
              = map_option (\<lambda>cm. update cm now (number_of d) pos (zc_messages_received (sub w')))
                  (sub_checkpoint (sub w))"
proof -
  let ?a = "next_free (bpool w)"
  have inv: "pool_inv (bpool w)" "mq_inv (mqueue w)" and free: "0 < free_count (bpool w)"
    using assms(1,2) outcome_free [of w d] by (simp_all add: world_inv_def)
  have "wf_buffer (deref (bpool w) ?a)"
    using deref_mem [OF next_free_ptrs(1) [OF inv(1) free]] inv(1) by (simp add: pool_inv_def)
  then have "wire_bytes (received_buffer ((reset (deref (bpool w) ?a))\<lparr>in_use := True\<rparr>) d t)
      = take 32 d @ le_bytes 8 t @ drop 40 (take (HEADER_SIZE + MAX_PAYLOAD_SIZE) d)"
    using assms(3) by (intro wire_bytes_received_buffer) (simp_all add: wf_reset, simp add: reset_def)
  moreover have "sub_checkpoint (recordReception now n pos (tracked ar n (sub w))) =
      map_option (\<lambda>cm. update cm now n pos (zc_messages_received (sub w) + 1)) (sub_checkpoint (sub w))" for n
    by (simp add: recordReception_def Let_def split: option.split)
  ultimately show ?thesis
    using fast_path_taken [OF assms(1,2), of ar t now pos]
    by (auto simp: Let_def fast_path_accepted [OF inv assms(2)])
qed

theorem accepted_message_delivered_witness:
  "let w' = handleMessageFastPath example_archive 9 10 (example_message 5) 4096 example_world
   in wire_bytes (deref (bpool w') (last (mq_contents (mqueue w'))))
        = take 32 (example_message 5) @ le_bytes 8 (9 :: u64) @ drop 40 (example_message 5)"
  using accepted_message_delivered [OF example_world_inv, of "example_message 5" example_archive 9 10 4096]
  by (simp add: Let_def example_outcome HEADER_SIZE_def MAX_PAYLOAD_SIZE_def)

text \<open>Differences of sequence numbers of one sign are exact.\<close>

lemma sint_diff_nonneg:
  assumes "0 \<le> sint (a :: i64)" and "0 \<le> sint b"
  shows "sint (a - b) = sint a - sint b"
proof -
  have "sint a < 2 ^ 63" "sint b < 2 ^ 63"
    using sint_lt [of a] sint_lt [of b] by simp_all
  then show ?thesis
    using assms by (simp add: sint_word_ariths signed_take_bit_int_eq_self)
qed

definition gap_reported :: "i64 \<Rightarrow> AeronSubscriber \<Rightarrow> bool" where
  "gap_reported n s \<longleftrightarrow>
     0 < sint n - sint (expected_sequence s)
     \<and> sint n - sint (expected_sequence s) \<le> sint (max_gap_tolerance (config s))"

lemma detectAndRecoverGap_eq:
  assumes "gap_recovery_enabled (config s)" and "0 < sint (expected_sequence s)" and "0 \<le> sint n"
  shows "detectAndRecoverGap ar n s =
    (if gap_reported n s then
       snd (triggerImmediateGapRecovery ar (expected_sequence s) (n - 1)
              (s\<lparr>gaps_detected := gaps_detected s + 1\<rparr>))
     else s)"
proof -
  have "expected_sequence s \<noteq> 0"
    using assms(2) by auto
  moreover have "sint (n - expected_sequence s) = sint n - sint (expected_sequence s)"
    using assms by (intro sint_diff_nonneg) auto
  ultimately show ?thesis
    using assms(1) by (auto simp: detectAndRecoverGap_def checkForGaps_def gap_reported_def Let_def)
qed

text \<open>C33: Gap detection is exact for non-negative numbers: after a first message, a gap is counted
  exactly when the message lies ahead of the expected number by at least one and at most the
  tolerance. \<open>gaps_recovered\<close> then grows by the number of messages missing if an archive is
  connected and names a recording with a positive id. Nothing else of the subscriber changes,
  so no message is fetched.\<close>

theorem gap_detection_exact:
  assumes "gap_recovery_enabled (config s)" and "0 < sint (expected_sequence s)" and "0 \<le> sint n"
  shows "let missing = sint n - sint (expected_sequence s);
             reported = (1 \<le> missing \<and> missing \<le> sint (max_gap_tolerance (config s)));
             recording = findLatestRecording ar (channel_of (config s))
                           (sc_subscription_stream_id (config s))
         in detectAndRecoverGap ar n s =
              s\<lparr>gaps_detected := gaps_detected s + of_bool reported,
                gaps_recovered := gaps_recovered s
                  + of_int (of_bool (reported \<and> sub_archive s \<and> 0 < sint recording) * missing)\<rparr>"
proof (cases "gap_reported n s")
  case True
  have range: "n - 1 - expected_sequence s + 1 = n - expected_sequence s"
    by simp
  have "detectAndRecoverGap ar n s = snd (triggerImmediateGapRecovery ar (expected_sequence s) (n - 1)
      (s\<lparr>gaps_detected := gaps_detected s + 1\<rparr>))"
    using True assms by (simp only: detectAndRecoverGap_eq if_True)
  moreover have "1 \<le> sint n - sint (expected_sequence s)"
    "sint n - sint (expected_sequence s) \<le> sint (max_gap_tolerance (config s))"
    using True by (simp_all add: gap_reported_def)
  ultimately show ?thesis
    by (simp add: triggerImmediateGapRecovery_def Let_def range)
next
  case False
  then have "detectAndRecoverGap ar n s = s"
    using assms by (simp only: detectAndRecoverGap_eq if_False)
  moreover have "\<not> (1 \<le> sint n - sint (expected_sequence s)
      \<and> sint n - sint (expected_sequence s) \<le> sint (max_gap_tolerance (config s)))"
    using False by (simp add: gap_reported_def)
  ultimately show ?thesis
    by (simp only: Let_def simp_thms of_bool_eq mult_zero_left of_int_0 add_0_right) simp
qed

theorem gap_detection_exact_witness:
  "gaps_detected (detectAndRecoverGap example_archive 8
     (example_subscriber\<lparr>expected_sequence := 5, sub_archive := True\<rparr>)) = 1
   \<and> gaps_recovered (detectAndRecoverGap example_archive 8
     (example_subscriber\<lparr>expected_sequence := 5, sub_archive := True\<rparr>)) = 3"
  using gap_detection_exact [of "example_subscriber\<lparr>expected_sequence := 5, sub_archive := True\<rparr>" 8
      example_archive]
  by (simp add: Let_def example_subscriber_def default_AeronSubscriber_def
      default_SubscriberConfig_def findLatestRecording_def example_archive_def)

text \<open>A message that arrives late but is no duplicate moves the expected number back: after the
  numbers k, k + 2 and k + 1 everything up to k + 2 has been received, yet the message k + 3
  is counted as a gap in which k + 2 is missing.\<close>

theorem late_message_false_gap:
  assumes "gap_recovery_enabled (config s)" and "1 \<le> sint (max_gap_tolerance (config s))"
    and "1 \<le> sint k" and "sint k < 2 ^ 62"
  shows "let s3 = tracked ar (k + 1) (tracked ar (k + 2) (tracked ar k s))
         in expected_sequence s3 = k + 2
          \<and> gaps_detected (detectAndRecoverGap ar (k + 3) s3) = gaps_detected s3 + 1"
proof -
  have "sint (k + 2) = sint k + 2" "sint (k + 3) = sint k + 3"
    using assms(3,4) by (simp_all add: sint_word_ariths signed_take_bit_int_eq_self)
  note k23 = this
  define s3 where "s3 = tracked ar (k + 1) (tracked ar (k + 2) (tracked ar k s))"
  have s3: "expected_sequence s3 = k + 2" "config s3 = config s"
    by (simp_all add: s3_def)
  then have "gaps_detected (detectAndRecoverGap ar (k + 3) s3) = gaps_detected s3 + 1"
    using assms k23
    by (simp add: detectAndRecoverGap_eq gap_reported_def triggerImmediateGapRecovery_def Let_def)
  with s3(1) show ?thesis
    by (simp add: Let_def s3_def)
qed

theorem late_message_false_gap_witness:
  "gaps_detected (detectAndRecoverGap example_archive 8
     (tracked example_archive 6 (tracked example_archive 7 (tracked example_archive 5 example_subscriber))))
   = gaps_detected (tracked example_archive 6 (tracked example_archive 7
       (tracked example_archive 5 example_subscriber))) + 1"
  using late_message_false_gap [of example_subscriber 5 example_archive]
  by (simp add: Let_def example_subscriber_def default_AeronSubscriber_def default_SubscriberConfig_def)

text \<open>A message that is dropped because the queue is full has entered the duplicate window all the
  same: a second copy of it is refused as a duplicate even if the queue has room by then.\<close>

theorem queue_full_blocks_resend:
  assumes "world_inv w" and "fast_path_outcome w d = Queue_full"
    and "duplicate_buffer (sub w) \<noteq> []" and "dup_inv (sub w)"
    and "number_of d' = number_of d" and "0 < free_count p"
  shows "fast_path_outcome
           ((handleMessageFastPath ar t now d pos w)\<lparr>bpool := p, mqueue := q\<rparr>) d' = Duplicate"
proof -
  let ?n = "number_of d"
  have inv: "pool_inv (bpool w)" "mq_inv (mqueue w)"
    using assms(1) by (simp_all add: world_inv_def)
  have dup: "isDuplicate (tracked ar ?n (sub w)) ?n"
    using assms(3,4)
    by (auto simp: tracked_def Let_def isDuplicate_def addToDecluplicationBuffer_def dup_inv_def
        list_ex_iff intro!: set_update_memI)
  have "isDuplicate ((tracked ar ?n (sub w))\<lparr>zc_queue_full_failures := k\<rparr>) ?n" for k
    using dup by (subst dup_cong(1) [of _ "tracked ar ?n (sub w)"]) simp_all
  then show ?thesis
    using assms(5,6)
    by (simp add: fast_path_queue_full [OF inv assms(2)] fast_path_outcome_def)
qed

text \<open>A queue of capacity 15 that is full.\<close>

definition full_queue :: MessageQueue where
  "full_queue = (new_MessageQueue 16)\<lparr>mq_tail := 15\<rparr>"

definition full_world :: zc_world where
  "full_world = example_world\<lparr>mqueue := full_queue\<rparr>"

lemma full_world_inv: "world_inv full_world"
  using example_world_inv
  by (simp add: world_inv_def full_world_def full_queue_def mq_inv_def new_MessageQueue_def
      mq_Size_def size_is_pow2_def example_world_def)

lemma full_world_outcome: "fast_path_outcome full_world (example_message 5) = Queue_full"
proof -
  have "length (mq_contents full_queue) = mq_capacity full_queue"
    by (simp add: full_queue_def mq_contents_def ring_count_def mq_capacity_def mq_Size_def
        new_MessageQueue_def)
  then show ?thesis
    using example_outcome [of 5]
    by (simp add: fast_path_outcome_def full_world_def example_world_simps split: if_splits)
qed

theorem queue_full_blocks_resend_witness:
  "fast_path_outcome
     ((handleMessageFastPath example_archive 9 10 (example_message 5) 4096 full_world)
        \<lparr>bpool := example_pool, mqueue := new_MessageQueue 16\<rparr>) (example_message 5) = Duplicate"
  by (rule queue_full_blocks_resend [OF full_world_inv full_world_outcome])
     (simp_all add: full_world_def example_world_simps example_subscriber_def dup_inv_def
        default_AeronSubscriber_def default_SubscriberConfig_def example_pool_inv)

end
