(* ===== verification/Message_Worker.thy ===== *)
theory Message_Worker
  imports Message_Queue Buffer_Pool Spsc_Queue
begin

text \<open>
  \<open>MessageWorker\<close> (\<open>subscriber/include/MessageWorker.h\<close>, \<open>subscriber/src/MessageWorker.cpp\<close>):
  one iteration of the worker thread, its duplicate set, the dispatch by message type, the
  statistics sent to the monitor, and starting and stopping. Readings of the clock are
  arguments. The handler that the user registers only reads the buffer; \<open>handler_calls\<close> lists
  the buffers it was called with. The hash set \<open>seen_sequences_\<close> is a set.
\<close>

section \<open>State\<close>

record MessageWorker =
  wk_running :: bool
  message_handler :: bool
  seen_sequences :: "u64 set"
  messages_processed :: u64
  messages_invalid :: u64
  messages_duplicate :: u64
  queue_empty_count :: u64
  total_processing_time_ns :: u64
  processing_count :: u64
  total_queue_depth :: u64
  queue_depth_samples :: u64

definition new_MessageWorker :: MessageWorker where
  "new_MessageWorker =
     \<lparr>wk_running = False, message_handler = False, seen_sequences = {},
      messages_processed = 0, messages_invalid = 0, messages_duplicate = 0,
      queue_empty_count = 0, total_processing_time_ns = 0, processing_count = 0,
      total_queue_depth = 0, queue_depth_samples = 0\<rparr>"

text \<open>Which of the handlers a message is dispatched to; they are empty in the source.\<close>

datatype dispatch =
    handleOrderNew
  | handleOrderExecution
  | handleOrderModify
  | handleOrderCancel
  | handleQuoteUpdate
  | Test_message
  | Unknown_type

record worker_world =
  worker :: MessageWorker
  wk_pool :: BufferPool
  wk_queue :: MessageQueue
  wk_stats :: "MessageStats SPSCQueue"
  dispatched :: "dispatch list"
  handler_calls :: "MessageBuffer list"

section \<open>Operations\<close>

definition setMessageHandler :: "MessageWorker \<Rightarrow> MessageWorker" where
  "setMessageHandler k = k\<lparr>message_handler := True\<rparr>"

text \<open>The result tells whether a thread is started.\<close>

definition wk_start :: "MessageWorker \<Rightarrow> bool \<times> MessageWorker" where
  "wk_start k = (if wk_running k then (False, k) else (True, k\<lparr>wk_running := True\<rparr>))"

definition wk_stop :: "MessageWorker \<Rightarrow> MessageWorker" where
  "wk_stop k = (if \<not> wk_running k then k else k\<lparr>wk_running := False\<rparr>)"

definition isRunning :: "MessageWorker \<Rightarrow> bool" where
  "isRunning k = wk_running k"

text \<open>The checks of the message are commented out in the source.\<close>

definition validateMessage :: "ptr \<Rightarrow> bool" where
  "validateMessage buf = (if buf = nullptr then False else True)"

definition SEEN_LIMIT :: nat where
  "SEEN_LIMIT = 1000000"

definition checkDuplicate :: "MessageBuffer \<Rightarrow> MessageWorker \<Rightarrow> bool \<times> MessageWorker" where
  "checkDuplicate b k =
     (let sq = sequence_number (header b)
      in if sq \<in> seen_sequences k then (True, k)
         else let seen = insert sq (seen_sequences k)
              in if card seen > SEEN_LIMIT then (False, k\<lparr>seen_sequences := {}\<rparr>)
                 else (False, k\<lparr>seen_sequences := seen\<rparr>))"

definition dispatch_of :: "u16 \<Rightarrow> dispatch" where
  "dispatch_of t =
     (if t = MSG_ORDER_NEW then handleOrderNew
      else if t = MSG_ORDER_EXECUTION then handleOrderExecution
      else if t = MSG_ORDER_MODIFY then handleOrderModify
      else if t = MSG_ORDER_CANCEL then handleOrderCancel
      else if t = MSG_QUOTE_UPDATE then handleQuoteUpdate
      else if t = MSG_TEST then Test_message
      else Unknown_type)"

definition processMessage :: "MessageBuffer \<Rightarrow> worker_world \<Rightarrow> worker_world" where
  "processMessage b w =
     (let w1 = w\<lparr>dispatched := dispatched w @ [dispatch_of (message_type (header b))]\<rparr>
      in if message_handler (worker w1) then w1\<lparr>handler_calls := handler_calls w1 @ [b]\<rparr> else w1)"

definition stats_of :: "MessageBuffer \<Rightarrow> MessageStats" where
  "stats_of b =
     default_MessageStats
       \<lparr>message_number := sequence_number (header b), send_timestamp := publish_time_ns (header b),
        recv_timestamp := recv_time_ns (header b), position := 0\<rparr>"

definition sendToMonitoring :: "MessageBuffer \<Rightarrow> worker_world \<Rightarrow> worker_world" where
  "sendToMonitoring b w = w\<lparr>wk_stats := snd (sq_enqueue (wk_stats w) (stats_of b))\<rparr>"

section \<open>The loop of the worker thread\<close>

text \<open>Steps 3 to 8: what happens to a buffer that was dequeued.\<close>

definition handle_buffer :: "i64 \<Rightarrow> i64 \<Rightarrow> ptr \<Rightarrow> worker_world \<Rightarrow> worker_world" where
  "handle_buffer start_processing end_processing buf w =
     (if \<not> validateMessage buf then
        w\<lparr>worker := (worker w)\<lparr>messages_invalid := messages_invalid (worker w) + 1\<rparr>,
          wk_pool := deallocate (wk_pool w) buf\<rparr>
      else
        let (dup, k1) = checkDuplicate (deref (wk_pool w) buf) (worker w); w1 = w\<lparr>worker := k1\<rparr>
        in if dup then
             w1\<lparr>worker := k1\<lparr>messages_duplicate := messages_duplicate k1 + 1\<rparr>,
                wk_pool := deallocate (wk_pool w1) buf\<rparr>
           else
             let w2 = processMessage (deref (wk_pool w1) buf) w1;
                 k2 = (worker w2)
                   \<lparr>total_processing_time_ns := total_processing_time_ns (worker w2)
                       + (end_processing - start_processing),
                    processing_count := processing_count (worker w2) + 1\<rparr>;
                 w3 = sendToMonitoring (deref (wk_pool w2) buf) (w2\<lparr>worker := k2\<rparr>);
                 w4 = w3\<lparr>wk_pool := deallocate (wk_pool w3) buf\<rparr>
             in w4\<lparr>worker := (worker w4)\<lparr>messages_processed := messages_processed (worker w4) + 1\<rparr>\<rparr>)"

definition sample_depth :: "worker_world \<Rightarrow> worker_world" where
  "sample_depth w =
     w\<lparr>worker := (worker w)
         \<lparr>total_queue_depth := total_queue_depth (worker w) + mq_size (wk_queue w),
          queue_depth_samples := queue_depth_samples (worker w) + 1\<rparr>\<rparr>"

definition worker_iteration :: "i64 \<Rightarrow> i64 \<Rightarrow> i64 \<Rightarrow> worker_world \<Rightarrow> worker_world" where
  "worker_iteration now start_processing end_processing w =
     (let w1 = sample_depth w; (r, q1) = mq_dequeue (wk_queue w1)
      in case r of
           None \<Rightarrow>
             w1\<lparr>worker := (worker w1)\<lparr>queue_empty_count := queue_empty_count (worker w1) + 1\<rparr>,
                wk_queue := q1\<rparr>
         | Some buf \<Rightarrow>
             let p1 = store (wk_pool w1) buf
                        ((deref (wk_pool w1) buf)\<lparr>worker_dequeue_time_ns := now\<rparr>)
             in handle_buffer start_processing end_processing buf
                  (w1\<lparr>wk_pool := p1, wk_queue := q1\<rparr>))"

text \<open>The loop, given the readings of the clock for as many iterations as are looked at.\<close>

fun workerThreadMain :: "(i64 \<times> i64 \<times> i64) list \<Rightarrow> worker_world \<Rightarrow> worker_world" where
  "workerThreadMain [] w = w"
| "workerThreadMain ((now, s, e) # ts) w =
     (if wk_running (worker w) then workerThreadMain ts (worker_iteration now s e w) else w)"

section \<open>Statistics\<close>

record WorkerStatistics =
  ws_messages_processed :: u64
  ws_messages_invalid :: u64
  ws_messages_duplicate :: u64
  ws_queue_empty_count :: u64
  ws_avg_processing_time_us :: real
  ws_avg_queue_depth :: real

definition wk_getStatistics :: "MessageWorker \<Rightarrow> WorkerStatistics" where
  "wk_getStatistics k =
     \<lparr>ws_messages_processed = messages_processed k,
      ws_messages_invalid = messages_invalid k,
      ws_messages_duplicate = messages_duplicate k,
      ws_queue_empty_count = queue_empty_count k,
      ws_avg_processing_time_us =
        (if 0 < processing_count k
         then real (unat (total_processing_time_ns k)) / real (unat (processing_count k)) / 1000
         else 0),
      ws_avg_queue_depth =
        (if 0 < queue_depth_samples k
         then real (unat (total_queue_depth k)) / real (unat (queue_depth_samples k)) else 0)\<rparr>"

section \<open>Lemmas\<close>

lemma checkDuplicate_simps:
  "fst (checkDuplicate b k) \<longleftrightarrow> sequence_number (header b) \<in> seen_sequences k"
  "wk_running (snd (checkDuplicate b k)) = wk_running k"
  "message_handler (snd (checkDuplicate b k)) = message_handler k"
  "messages_processed (snd (checkDuplicate b k)) = messages_processed k"
  "messages_duplicate (snd (checkDuplicate b k)) = messages_duplicate k"
  "messages_invalid (snd (checkDuplicate b k)) = messages_invalid k"
  "queue_empty_count (snd (checkDuplicate b k)) = queue_empty_count k"
  by (simp_all add: checkDuplicate_def Let_def)

text \<open>While fewer than the limit have been seen, nothing is forgotten.\<close>

lemma checkDuplicate_seen:
  assumes "finite (seen_sequences k)" and "card (seen_sequences k) < SEEN_LIMIT"
  shows "seen_sequences (snd (checkDuplicate b k)) = insert (sequence_number (header b)) (seen_sequences k)"
  using assms by (auto simp: checkDuplicate_def Let_def card_insert_if)

lemma checkDuplicate_bounded:
  assumes "finite (seen_sequences k)" and "card (seen_sequences k) \<le> SEEN_LIMIT"
  shows "finite (seen_sequences (snd (checkDuplicate b k)))"
    "card (seen_sequences (snd (checkDuplicate b k))) \<le> SEEN_LIMIT"
  using assms by (auto simp: checkDuplicate_def Let_def)

lemma sendToMonitoring_simps [simp]:
  "worker (sendToMonitoring b w) = worker w" "wk_pool (sendToMonitoring b w) = wk_pool w"
  "wk_queue (sendToMonitoring b w) = wk_queue w"
  "handler_calls (sendToMonitoring b w) = handler_calls w"
  "dispatched (sendToMonitoring b w) = dispatched w"
  by (simp_all add: sendToMonitoring_def)

lemma processMessage_simps [simp]:
  "worker (processMessage b w) = worker w" "wk_pool (processMessage b w) = wk_pool w"
  "wk_queue (processMessage b w) = wk_queue w" "wk_stats (processMessage b w) = wk_stats w"
  "handler_calls (processMessage b w) = handler_calls w @ (if message_handler (worker w) then [b] else [])"
  by (simp_all add: processMessage_def Let_def)

text \<open>Every branch gives the buffer back, and exactly one of the two counters moves.\<close>

lemma handle_buffer_effect:
  assumes "buf \<noteq> nullptr"
  shows "let w' = handle_buffer st en buf w; b = deref (wk_pool w) buf;
             dup = (sequence_number (header b) \<in> seen_sequences (worker w))
         in wk_pool w' = deallocate (wk_pool w) buf \<and> wk_queue w' = wk_queue w
          \<and> messages_processed (worker w') = messages_processed (worker w) + of_bool (\<not> dup)
          \<and> messages_duplicate (worker w') = messages_duplicate (worker w) + of_bool dup
          \<and> messages_invalid (worker w') = messages_invalid (worker w)
          \<and> wk_running (worker w') = wk_running (worker w)
          \<and> message_handler (worker w') = message_handler (worker w)
          \<and> seen_sequences (worker w') = seen_sequences (snd (checkDuplicate b (worker w)))
          \<and> handler_calls w' = handler_calls w
              @ (if \<not> dup \<and> message_handler (worker w) then [b] else [])
          \<and> wk_stats w' = (if dup then wk_stats w else snd (sq_enqueue (wk_stats w) (stats_of b)))"
  using assms
  by (cases "sequence_number (header (deref (wk_pool w) buf)) \<in> seen_sequences (worker w)")
     (simp_all add: handle_buffer_def validateMessage_def checkDuplicate_simps case_prod_beta Let_def,
      simp_all add: sendToMonitoring_def)

lemma sample_depth_simps [simp]:
  "wk_pool (sample_depth w) = wk_pool w" "wk_queue (sample_depth w) = wk_queue w"
  "wk_stats (sample_depth w) = wk_stats w" "handler_calls (sample_depth w) = handler_calls w"
  "seen_sequences (worker (sample_depth w)) = seen_sequences (worker w)"
  "wk_running (worker (sample_depth w)) = wk_running (worker w)"
  "message_handler (worker (sample_depth w)) = message_handler (worker w)"
  "messages_processed (worker (sample_depth w)) = messages_processed (worker w)"
  "messages_duplicate (worker (sample_depth w)) = messages_duplicate (worker w)"
  "messages_invalid (worker (sample_depth w)) = messages_invalid (worker w)"
  "queue_empty_count (worker (sample_depth w)) = queue_empty_count (worker w)"
  by (simp_all add: sample_depth_def)

section \<open>The worker and its resources\<close>

text \<open>What the worker relies on: the pointers in the queue are buffers in use.\<close>

definition worker_inv :: "worker_world \<Rightarrow> bool" where
  "worker_inv w \<longleftrightarrow>
     pool_inv (wk_pool w) \<and> mq_inv (wk_queue w) \<and> distinct (mq_contents (wk_queue w))
     \<and> set (mq_contents (wk_queue w)) \<subseteq> owned (wk_pool w)
     \<and> finite (seen_sequences (worker w)) \<and> card (seen_sequences (worker w)) \<le> SEEN_LIMIT"

abbreviation next_message :: "worker_world \<Rightarrow> MessageBuffer" where
  "next_message w \<equiv> deref (wk_pool w) (hd (mq_contents (wk_queue w)))"

lemma worker_iteration_empty:
  assumes "worker_inv w" and "mq_contents (wk_queue w) = []"
  shows "worker_iteration now st en w =
    (sample_depth w)\<lparr>worker := (worker (sample_depth w))
         \<lparr>queue_empty_count := queue_empty_count (worker w) + 1\<rparr>,
       wk_queue := snd (mq_dequeue (wk_queue w))\<rparr>"
  using assms mq_dequeue_cases [of "wk_queue w"]
  by (simp add: worker_iteration_def Let_def worker_inv_def case_prod_beta)

lemma store_owned:
  assumes "pool_inv p" and "a \<in> owned p"
  shows "pool_inv (store p a ((deref p a)\<lparr>worker_dequeue_time_ns := t\<rparr>))"
    and "deref (store p a ((deref p a)\<lparr>worker_dequeue_time_ns := t\<rparr>)) a
      = (deref p a)\<lparr>worker_dequeue_time_ns := t\<rparr>"
proof -
  have a: "a \<in> pool_ptrs p" by (rule owned_room(2) [OF assms])
  show "pool_inv (store p a ((deref p a)\<lparr>worker_dequeue_time_ns := t\<rparr>))"
    using assms(1) deref_mem [OF a] by (intro pool_inv_store a) (simp_all add: pool_inv_def)
  show "deref (store p a ((deref p a)\<lparr>worker_dequeue_time_ns := t\<rparr>)) a
      = (deref p a)\<lparr>worker_dequeue_time_ns := t\<rparr>"
    using a by simp
qed

text \<open>An iteration on a queue that is not empty.\<close>

lemma worker_iteration_message:
  assumes "worker_inv w" and "mq_contents (wk_queue w) \<noteq> []"
  shows "let w' = worker_iteration now st en w; a = hd (mq_contents (wk_queue w));
             b = (next_message w)\<lparr>worker_dequeue_time_ns := now\<rparr>;
             dup = (sequence_number (header b) \<in> seen_sequences (worker w))
         in mq_contents (wk_queue w') = tl (mq_contents (wk_queue w))
          \<and> owned (wk_pool w') = owned (wk_pool w) - {a}
          \<and> free_count (wk_pool w') = free_count (wk_pool w) + 1
          \<and> messages_processed (worker w') = messages_processed (worker w) + of_bool (\<not> dup)
          \<and> messages_duplicate (worker w') = messages_duplicate (worker w) + of_bool dup
          \<and> messages_invalid (worker w') = messages_invalid (worker w)
          \<and> wk_running (worker w') = wk_running (worker w)
          \<and> message_handler (worker w') = message_handler (worker w)
          \<and> seen_sequences (worker w') = seen_sequences (snd (checkDuplicate b (worker w)))
          \<and> handler_calls w' = handler_calls w
              @ (if \<not> dup \<and> message_handler (worker w) then [b] else [])
          \<and> wk_stats w' = (if dup then wk_stats w else snd (sq_enqueue (wk_stats w) (stats_of b)))
          \<and> worker_inv w'"
proof -
  let ?a = "hd (mq_contents (wk_queue w))"
  let ?b = "(next_message w)\<lparr>worker_dequeue_time_ns := now\<rparr>"
  let ?p = "store (wk_pool w) ?a ?b"
  let ?q = "snd (mq_dequeue (wk_queue w))"
  let ?w = "(sample_depth w)\<lparr>wk_pool := ?p, wk_queue := ?q\<rparr>"
  have inv: "pool_inv (wk_pool w)" "mq_inv (wk_queue w)" and a: "?a \<in> owned (wk_pool w)"
    using assms by (auto simp: worker_inv_def)
  have deq: "fst (mq_dequeue (wk_queue w)) = Some ?a" "mq_contents ?q = tl (mq_contents (wk_queue w))"
    using mq_dequeue_cases [OF inv(2)] assms(2) by simp_all
  note p = store_owned [OF inv(1) a, of now]
  have a': "?a \<in> owned ?p" using a by simp
  have w': "worker_iteration now st en w = handle_buffer st en ?a ?w"
    using deq by (simp add: worker_iteration_def Let_def case_prod_beta)
  have k: "seen_sequences (snd (checkDuplicate b (worker (sample_depth w))))
      = seen_sequences (snd (checkDuplicate b (worker w)))" for b
    by (simp add: checkDuplicate_def Let_def)
  have pool: "pool_inv (deallocate ?p ?a)" "owned (deallocate ?p ?a) = owned (wk_pool w) - {?a}"
    "free_count (deallocate ?p ?a) = free_count (wk_pool w) + 1"
    using deallocate_inv [OF p(1) a'] deallocate_owned(1) [OF p(1) a'] deallocate_simps(5) [OF p(1) a']
    by simp_all
  have "distinct (tl (mq_contents (wk_queue w)))"
    "set (tl (mq_contents (wk_queue w))) \<subseteq> owned (wk_pool w) - {?a}"
    using assms by (cases "mq_contents (wk_queue w)"; auto simp: worker_inv_def)+
  then show ?thesis
    using handle_buffer_effect [OF owned_room(3) [OF inv(1) a], of st en ?w] deq(2) p(2) pool
      checkDuplicate_bounded [of "worker w" ?b] assms(1) mq_dequeue_inv [OF inv(2)]
    unfolding w' by (simp add: Let_def k worker_inv_def)
qed

lemma worker_iteration_inv:
  assumes "worker_inv w"
  shows "worker_inv (worker_iteration now st en w)"
    "wk_running (worker (worker_iteration now st en w)) = wk_running (worker w)"
proof -
  have "mq_inv (snd (mq_dequeue (wk_queue w)))" "mq_contents (wk_queue w) = [] \<Longrightarrow>
      mq_contents (snd (mq_dequeue (wk_queue w))) = []"
    using assms mq_dequeue_cases [of "wk_queue w"] by (simp_all add: worker_inv_def mq_dequeue_inv)
  then show "worker_inv (worker_iteration now st en w)"
    "wk_running (worker (worker_iteration now st en w)) = wk_running (worker w)"
    using assms worker_iteration_message [OF assms, of now st en]
    by (cases "mq_contents (wk_queue w) = []";
        simp add: worker_iteration_empty Let_def worker_inv_def)+
qed

text \<open>Numbers that the handler has seen are remembered while the set is small.\<close>

definition handled_numbers :: "worker_world \<Rightarrow> u64 list" where
  "handled_numbers w = map (\<lambda>b. sequence_number (header b)) (handler_calls w)"

definition at_most_once :: "nat \<Rightarrow> worker_world \<Rightarrow> bool" where
  "at_most_once n w \<longleftrightarrow>
     distinct (handled_numbers w) \<and> set (handled_numbers w) \<subseteq> seen_sequences (worker w)
     \<and> card (seen_sequences (worker w)) \<le> n"

lemma at_most_once_step:
  assumes "worker_inv w" and "at_most_once n w" and "n < SEEN_LIMIT"
  shows "at_most_once (Suc n) (worker_iteration now st en w)"
proof (cases "mq_contents (wk_queue w) = []")
  case True
  then show ?thesis
    using assms by (simp add: worker_iteration_empty at_most_once_def handled_numbers_def)
next
  case False
  let ?b = "(next_message w)\<lparr>worker_dequeue_time_ns := now\<rparr>"
  have fin: "finite (seen_sequences (worker w))" "card (seen_sequences (worker w)) < SEEN_LIMIT"
    using assms by (simp_all add: worker_inv_def at_most_once_def)
  show ?thesis
    using assms(2) worker_iteration_message [OF assms(1) False, of now st en]
      checkDuplicate_seen [OF fin, of ?b] fin(1)
    by (auto simp: at_most_once_def handled_numbers_def Let_def card_insert_if)
qed

lemma workerThreadMain_inv:
  "worker_inv w \<Longrightarrow> worker_inv (workerThreadMain ts w)"
  by (induction ts w rule: workerThreadMain.induct) (auto intro: worker_iteration_inv)

lemma workerThreadMain_at_most_once:
  "worker_inv w \<Longrightarrow> at_most_once n w \<Longrightarrow> n + length ts \<le> SEEN_LIMIT \<Longrightarrow>
     at_most_once (n + length ts) (workerThreadMain ts w)"
proof (induction ts w arbitrary: n rule: workerThreadMain.induct)
  case (1 w)
  then show ?case by simp
next
  case (2 now s e ts w)
  show ?case
  proof (cases "wk_running (worker w)")
    case True
    have "at_most_once (Suc n) (worker_iteration now s e w)"
      using 2 by (intro at_most_once_step) simp_all
    then show ?thesis
      using 2(1) [OF True, of "Suc n"] 2(2,4) True worker_iteration_inv(1) by simp
  next
    case False
    then show ?thesis
      using 2(3) by (auto simp: at_most_once_def)
  qed
qed

text \<open>A run that empties the queue: one iteration per message.\<close>

lemma workerThreadMain_drains:
  "worker_inv w \<Longrightarrow> wk_running (worker w) \<Longrightarrow> length (mq_contents (wk_queue w)) \<le> length ts \<Longrightarrow>
     mq_contents (wk_queue (workerThreadMain ts w)) = []
     \<and> owned (wk_pool (workerThreadMain ts w))
         = owned (wk_pool w) - set (mq_contents (wk_queue w))"
proof (induction ts w rule: workerThreadMain.induct)
  case (1 w)
  then show ?case by simp
next
  case (2 now s e ts w)
  let ?w = "worker_iteration now s e w"
  have inv: "worker_inv ?w" "wk_running (worker ?w)"
    using worker_iteration_inv [OF 2(2), of now s e] 2(3) by simp_all
  have step: "mq_contents (wk_queue ?w) = tl (mq_contents (wk_queue w))
      \<and> owned (wk_pool ?w) = owned (wk_pool w) - set (take 1 (mq_contents (wk_queue w)))"
  proof (cases "mq_contents (wk_queue w)")
    case Nil
    then show ?thesis
      using 2(2) mq_dequeue_cases [of "wk_queue w"]
      by (simp add: worker_iteration_empty worker_inv_def)
  next
    case (Cons a as)
    then show ?thesis
      using worker_iteration_message [OF 2(2), of now s e] by (simp add: Let_def)
  qed
  then show ?case
    using 2(1) [OF 2(3) inv] 2(3,4) by (cases "mq_contents (wk_queue w)") auto
qed

section \<open>A concrete worker\<close>

definition example_worker :: worker_world where
  "example_worker =
     \<lparr>worker = new_MessageWorker\<lparr>wk_running := True, message_handler := True\<rparr>,
      wk_pool = snd (allocate example_pool),
      wk_queue = snd (mq_enqueue (new_MessageQueue 16) (fst (allocate example_pool))),
      wk_stats = new_SPSCQueue 16 default_MessageStats, dispatched = [], handler_calls = []\<rparr>"

lemma example_worker_inv: "worker_inv example_worker"
  and example_worker_queue: "mq_contents (wk_queue example_worker) = [fst (allocate example_pool)]"
  and example_worker_owned: "owned (wk_pool example_worker) = {fst (allocate example_pool)}"
proof -
  have free: "0 < free_count example_pool" by (simp add: example_pool_inv)
  note al = allocate_owned [OF example_pool_inv(1) free] allocate_success [OF example_pool_inv(1) free]
  have n: "fst (allocate example_pool) \<noteq> nullptr"
    using allocate_null_iff [OF example_pool_inv(1)] free by simp
  have q: "mq_inv (new_MessageQueue 16)" "mq_contents (new_MessageQueue 16) = []"
    "mq_capacity (new_MessageQueue 16) = 15"
    by (simp_all add: mq_new_inv size_is_pow2_def) (simp add: mq_capacity_def mq_Size_def new_MessageQueue_def)
  show queue: "mq_contents (wk_queue example_worker) = [fst (allocate example_pool)]"
    using mq_enqueue_contents [OF q(1)] mq_enqueue_accepts [OF q(1)] q n
    by (simp add: example_worker_def)
  show own: "owned (wk_pool example_worker) = {fst (allocate example_pool)}"
    using al by (simp add: example_worker_def example_pool_inv)
  show "worker_inv example_worker"
    unfolding worker_inv_def queue own
    by (simp add: example_worker_def new_MessageWorker_def SEEN_LIMIT_def mq_enqueue_inv [OF q(1)]
        allocate_inv [OF example_pool_inv(1)])
qed

lemma example_worker_simps:
  "worker example_worker = new_MessageWorker\<lparr>wk_running := True, message_handler := True\<rparr>"
  "handler_calls example_worker = []"
  by (simp_all add: example_worker_def)

section \<open>Properties\<close>

text \<open>One iteration of the worker on a queue that is not empty takes the first buffer and gives it
  back to the pool on every branch; it counts the message as processed or as duplicate, never as
  invalid. The handler is called exactly for a message whose number is not in the set of seen
  numbers, with the buffer's content, and such a message is reported to the monitor.\<close>

theorem worker_iteration_outcome:
  assumes "worker_inv w" and "mq_contents (wk_queue w) \<noteq> []"
  shows "let w' = worker_iteration now st en w; a = hd (mq_contents (wk_queue w));
             b = (deref (wk_pool w) a)\<lparr>worker_dequeue_time_ns := now\<rparr>;
             dup = (sequence_number (header b) \<in> seen_sequences (worker w))
         in mq_contents (wk_queue w') = tl (mq_contents (wk_queue w))
          \<and> owned (wk_pool w') = owned (wk_pool w) - {a}
          \<and> available (wk_pool w') = available (wk_pool w) + 1
          \<and> messages_processed (worker w') = messages_processed (worker w) + of_bool (\<not> dup)
          \<and> messages_duplicate (worker w') = messages_duplicate (worker w) + of_bool dup
          \<and> messages_invalid (worker w') = messages_invalid (worker w)
          \<and> handler_calls w' = handler_calls w
              @ (if dup \<or> \<not> message_handler (worker w) then [] else [b])
          \<and> wk_stats w' = (if dup then wk_stats w else snd (sq_enqueue (wk_stats w) (stats_of b)))"
  using worker_iteration_message [OF assms, of now st en] by (auto simp: Let_def available_def)

theorem worker_iteration_outcome_witness:
  "let w' = worker_iteration 5 6 7 example_worker
   in mq_contents (wk_queue w') = [] \<and> owned (wk_pool w') = {}
      \<and> messages_processed (worker w') = 1 \<and> length (handler_calls w') = 1"
  using worker_iteration_outcome [OF example_worker_inv, of 5 6 7]
  by (simp add: Let_def example_worker_queue example_worker_owned example_worker_simps
      new_MessageWorker_def)

text \<open>C37: At most once: over up to a million iterations of a worker that starts with an empty set of
  seen numbers, the handler is never called twice for the same sequence number.\<close>

theorem worker_at_most_once:
  assumes "worker_inv w" and "seen_sequences (worker w) = {}" and "handler_calls w = []"
    and "length ts \<le> 1000000"
  shows "distinct (map (\<lambda>b. sequence_number (header b)) (handler_calls (workerThreadMain ts w)))"
  using workerThreadMain_at_most_once [OF assms(1), of 0 ts] assms(2-4)
  by (simp add: at_most_once_def handled_numbers_def SEEN_LIMIT_def)

theorem worker_at_most_once_witness:
  "distinct (map (\<lambda>b. sequence_number (header b))
     (handler_calls (workerThreadMain [(1, 2, 3), (4, 5, 6)] example_worker)))"
  by (rule worker_at_most_once [OF example_worker_inv])
     (simp_all add: example_worker_simps new_MessageWorker_def)

text \<open>C38: The worker keeps up: as long as it runs, as many iterations as there are messages in the
  queue empty it, and every buffer that was in the queue is back in the pool.\<close>

theorem worker_drains_queue:
  assumes "worker_inv w" and "wk_running (worker w)"
    and "length ts = length (mq_contents (wk_queue w))"
  shows "mq_contents (wk_queue (workerThreadMain ts w)) = []
     \<and> owned (wk_pool (workerThreadMain ts w)) = owned (wk_pool w) - set (mq_contents (wk_queue w))"
  using workerThreadMain_drains [OF assms(1,2)] assms(3) by simp

theorem worker_drains_queue_witness:
  "owned (wk_pool (workerThreadMain [(1, 2, 3)] example_worker)) = {}"
  using worker_drains_queue [OF example_worker_inv, of "[(1, 2, 3)]"]
  by (simp add: example_worker_simps example_worker_queue example_worker_owned)

text \<open>When a million numbers have been seen, the next new message clears the whole set, its own
  number included: an immediate duplicate of that message, and of every message before it, is
  then taken for new.\<close>

theorem seen_set_cleared:
  assumes "finite (seen_sequences k)" and "card (seen_sequences k) = 1000000"
    and "sequence_number (header b) \<notin> seen_sequences k"
  shows "fst (checkDuplicate b k) = False \<and> seen_sequences (snd (checkDuplicate b k)) = {}
     \<and> fst (checkDuplicate c (snd (checkDuplicate b k))) = False"
  using assms by (simp add: checkDuplicate_def Let_def SEEN_LIMIT_def)

theorem seen_set_cleared_witness:
  "fst (checkDuplicate example_valid
     (snd (checkDuplicate example_valid
       (new_MessageWorker\<lparr>seen_sequences := of_nat ` {1..1000000}\<rparr>)))) = False"
proof -
  let ?k = "new_MessageWorker\<lparr>seen_sequences := of_nat ` {1..1000000}\<rparr>"
  have inj: "inj_on (of_nat :: nat \<Rightarrow> u64) {1..1000000}"
    by (rule inj_onI) (simp add: word_of_nat_eq_iff take_bit_nat_eq_self)
  then have card: "card (seen_sequences ?k) = 1000000"
    by (simp add: card_image)
  have "sequence_number (header example_valid) = 0"
    by (simp add: example_valid_def example_header_def zero_header_eq)
  moreover have "(0 :: u64) \<notin> of_nat ` {1..1000000}"
    by (auto simp: word_of_nat_eq_0_iff dest!: dvd_imp_le)
  ultimately show ?thesis
    using seen_set_cleared [of ?k example_valid example_valid] card by simp
qed

end
