(* ===== verification/Zero_Copy_System.thy ===== *)
theory Zero_Copy_System
  imports Subscriber_Reception Message_Worker "HOL-Library.Sublist"
begin

text \<open>
  The zero-copy pipeline that \<open>subscriber/src/main.cpp\<close> puts together: the subscriber thread in
  \<open>handleMessageFastPath\<close>, the worker thread in \<open>workerThreadMain\<close>, and the buffer pool and the
  message queue between them. The two threads interleave at every use of a shared object; each
  operation of the pool and the queue is one step here (their own interleavings are the subject
  of \<open>Buffer_Pool_Steps\<close> and \<open>Message_Queue_Steps\<close>; what of this theory survives the interleaving of
  the accesses to the pool, and what does not, is shown in \<open>Pipeline_Race\<close>).
\<close>

section \<open>State\<close>

datatype sub_pc =
    S_Idle
  | S_Copy i64 "u8 list" i64 ptr
  | S_Track i64 ptr
  | S_Drop_duplicate ptr
  | S_Enqueue i64 ptr
  | S_Drop_full ptr
  | S_Record i64 ptr

datatype worker_pc =
    W_Idle
  | W_Dequeue
  | W_Stamp ptr
  | W_Check ptr
  | W_Process ptr
  | W_Monitor ptr
  | W_Release ptr
  | W_Drop_duplicate ptr

text \<open>\<open>accepted\<close> lists the buffers as they were enqueued and \<open>taken\<close> those that the worker has
  dequeued; the program has neither.\<close>

record zc_system =
  sy_sub :: AeronSubscriber
  sy_pool :: BufferPool
  sy_queue :: MessageQueue
  sy_worker :: MessageWorker
  sy_stats :: "MessageStats SPSCQueue"
  sy_dispatched :: "dispatch list"
  sy_calls :: "MessageBuffer list"
  sub_at :: sub_pc
  worker_at :: worker_pc
  accepted :: "MessageBuffer list"
  taken :: "MessageBuffer list"

definition zc_system_init :: "AeronSubscriber \<Rightarrow> BufferPool \<Rightarrow> MessageQueue \<Rightarrow>
    MessageWorker \<Rightarrow> MessageStats SPSCQueue \<Rightarrow> zc_system" where
  "zc_system_init sb p q k st =
     \<lparr>sy_sub = sb, sy_pool = p, sy_queue = q, sy_worker = k, sy_stats = st,
      sy_dispatched = [], sy_calls = [], sub_at = S_Idle, worker_at = W_Idle, accepted = [], taken = []\<rparr>"

abbreviation buf_of :: "zc_system \<Rightarrow> ptr \<Rightarrow> MessageBuffer" where
  "buf_of s \<equiv> deref (sy_pool s)"

abbreviation seq_of :: "MessageBuffer \<Rightarrow> u64" where
  "seq_of b \<equiv> sequence_number (header b)"

section \<open>Steps\<close>

inductive subscriber_step :: "archive_client \<Rightarrow> zc_system \<Rightarrow> zc_system \<Rightarrow> bool" for ar where
  s_allocate: "sub_at s = S_Idle \<Longrightarrow> allocate (sy_pool s) = (buf, p) \<Longrightarrow> buf \<noteq> nullptr \<Longrightarrow>
     subscriber_step ar s (s\<lparr>sy_pool := p, sub_at := S_Copy t d pos buf\<rparr>)"
| s_exhausted: "sub_at s = S_Idle \<Longrightarrow> allocate (sy_pool s) = (buf, p) \<Longrightarrow> buf = nullptr \<Longrightarrow>
     subscriber_step ar s
       (s\<lparr>sy_pool := p,
          sy_sub := (sy_sub s)
            \<lparr>zc_buffer_allocation_failures := zc_buffer_allocation_failures (sy_sub s) + 1\<rparr>\<rparr>)"
| s_copy: "sub_at s = S_Copy t d pos buf \<Longrightarrow>
     subscriber_step ar s
       (s\<lparr>sy_pool := store (sy_pool s) buf (received_buffer (buf_of s buf) d t),
          sub_at := S_Track pos buf\<rparr>)"
| s_duplicate: "sub_at s = S_Track pos buf \<Longrightarrow> isDuplicate (sy_sub s) (seq_of (buf_of s buf)) \<Longrightarrow>
     subscriber_step ar s
       (s\<lparr>sy_sub := (detectAndRecoverGap ar (seq_of (buf_of s buf)) (sy_sub s))
            \<lparr>duplicates_detected := duplicates_detected (sy_sub s) + 1\<rparr>,
          sub_at := S_Drop_duplicate buf\<rparr>)"
| s_track: "sub_at s = S_Track pos buf \<Longrightarrow> \<not> isDuplicate (sy_sub s) (seq_of (buf_of s buf)) \<Longrightarrow>
     subscriber_step ar s
       (s\<lparr>sy_sub := tracked ar (seq_of (buf_of s buf)) (sy_sub s), sub_at := S_Enqueue pos buf\<rparr>)"
| s_drop_duplicate: "sub_at s = S_Drop_duplicate buf \<Longrightarrow>
     subscriber_step ar s (s\<lparr>sy_pool := deallocate (sy_pool s) buf, sub_at := S_Idle\<rparr>)"
| s_enqueue: "sub_at s = S_Enqueue pos buf \<Longrightarrow> mq_enqueue (sy_queue s) buf = (True, q) \<Longrightarrow>
     subscriber_step ar s
       (s\<lparr>sy_queue := q, accepted := accepted s @ [buf_of s buf], sub_at := S_Record pos buf\<rparr>)"
| s_full: "sub_at s = S_Enqueue pos buf \<Longrightarrow> mq_enqueue (sy_queue s) buf = (False, q) \<Longrightarrow>
     subscriber_step ar s (s\<lparr>sy_queue := q, sub_at := S_Drop_full buf\<rparr>)"
| s_drop_full: "sub_at s = S_Drop_full buf \<Longrightarrow>
     subscriber_step ar s
       (s\<lparr>sy_pool := deallocate (sy_pool s) buf,
          sy_sub := (sy_sub s)\<lparr>zc_queue_full_failures := zc_queue_full_failures (sy_sub s) + 1\<rparr>,
          sub_at := S_Idle\<rparr>)"
| s_record: "sub_at s = S_Record pos buf \<Longrightarrow>
     subscriber_step ar s
       (s\<lparr>sy_sub := recordReception now (seq_of (buf_of s buf)) pos (sy_sub s), sub_at := S_Idle\<rparr>)"

text \<open>The loop condition is not modelled: a worker that is stopped makes no further step.\<close>

inductive worker_step :: "zc_system \<Rightarrow> zc_system \<Rightarrow> bool" where
  w_sample: "worker_at s = W_Idle \<Longrightarrow>
     worker_step s
       (s\<lparr>sy_worker := (sy_worker s)
            \<lparr>total_queue_depth := total_queue_depth (sy_worker s) + mq_size (sy_queue s),
             queue_depth_samples := queue_depth_samples (sy_worker s) + 1\<rparr>,
          worker_at := W_Dequeue\<rparr>)"
| w_dequeue: "worker_at s = W_Dequeue \<Longrightarrow> mq_dequeue (sy_queue s) = (Some buf, q) \<Longrightarrow>
     worker_step s
       (s\<lparr>sy_queue := q, taken := taken s @ [buf_of s buf], worker_at := W_Stamp buf\<rparr>)"
| w_empty: "worker_at s = W_Dequeue \<Longrightarrow> mq_dequeue (sy_queue s) = (None, q) \<Longrightarrow>
     worker_step s
       (s\<lparr>sy_queue := q,
          sy_worker := (sy_worker s)\<lparr>queue_empty_count := queue_empty_count (sy_worker s) + 1\<rparr>,
          worker_at := W_Idle\<rparr>)"
| w_stamp: "worker_at s = W_Stamp buf \<Longrightarrow>
     worker_step s
       (s\<lparr>sy_pool := store (sy_pool s) buf ((buf_of s buf)\<lparr>worker_dequeue_time_ns := now\<rparr>),
          worker_at := W_Check buf\<rparr>)"
| w_duplicate: "worker_at s = W_Check buf \<Longrightarrow>
     checkDuplicate (buf_of s buf) (sy_worker s) = (True, k) \<Longrightarrow>
     worker_step s
       (s\<lparr>sy_worker := k\<lparr>messages_duplicate := messages_duplicate k + 1\<rparr>,
          worker_at := W_Drop_duplicate buf\<rparr>)"
| w_new: "worker_at s = W_Check buf \<Longrightarrow>
     checkDuplicate (buf_of s buf) (sy_worker s) = (False, k) \<Longrightarrow>
     worker_step s (s\<lparr>sy_worker := k, worker_at := W_Process buf\<rparr>)"
| w_process: "worker_at s = W_Process buf \<Longrightarrow>
     worker_step s
       (s\<lparr>sy_dispatched := sy_dispatched s @ [dispatch_of (message_type (header (buf_of s buf)))],
          sy_calls := sy_calls s @ (if message_handler (sy_worker s) then [buf_of s buf] else []),
          sy_worker := (sy_worker s)
            \<lparr>total_processing_time_ns := total_processing_time_ns (sy_worker s) + elapsed,
             processing_count := processing_count (sy_worker s) + 1\<rparr>,
          worker_at := W_Monitor buf\<rparr>)"
| w_monitor: "worker_at s = W_Monitor buf \<Longrightarrow>
     worker_step s
       (s\<lparr>sy_stats := snd (sq_enqueue (sy_stats s) (stats_of (buf_of s buf))),
          worker_at := W_Release buf\<rparr>)"
| w_release: "worker_at s = W_Release buf \<Longrightarrow>
     worker_step s
       (s\<lparr>sy_pool := deallocate (sy_pool s) buf,
          sy_worker := (sy_worker s)\<lparr>messages_processed := messages_processed (sy_worker s) + 1\<rparr>,
          worker_at := W_Idle\<rparr>)"
| w_drop_duplicate: "worker_at s = W_Drop_duplicate buf \<Longrightarrow>
     worker_step s (s\<lparr>sy_pool := deallocate (sy_pool s) buf, worker_at := W_Idle\<rparr>)"

inductive zc_reachable :: "archive_client \<Rightarrow> zc_system \<Rightarrow> zc_system \<Rightarrow> bool" for ar s0 where
  zc_start: "zc_reachable ar s0 s0"
| zc_subscriber: "zc_reachable ar s0 s \<Longrightarrow> subscriber_step ar s t \<Longrightarrow> zc_reachable ar s0 t"
| zc_worker: "zc_reachable ar s0 s \<Longrightarrow> worker_step s t \<Longrightarrow> zc_reachable ar s0 t"

text \<open>The same as sequences of steps of either thread.\<close>

abbreviation zc_step :: "archive_client \<Rightarrow> zc_system \<Rightarrow> zc_system \<Rightarrow> bool" where
  "zc_step ar s t \<equiv> subscriber_step ar s t \<or> worker_step s t"

lemma zc_reachable_steps: "zc_reachable ar s t \<longleftrightarrow> (zc_step ar)\<^sup>*\<^sup>* s t"
proof
  show "(zc_step ar)\<^sup>*\<^sup>* s t" if "zc_reachable ar s t"
    using that by induction (auto intro: rtranclp.rtrancl_into_rtrancl)
  show "zc_reachable ar s t" if "(zc_step ar)\<^sup>*\<^sup>* s t"
    using that by induction (auto intro: zc_reachable.intros)
qed

section \<open>Invariant\<close>

fun sub_held :: "sub_pc \<Rightarrow> ptr list" where
  "sub_held (S_Copy t d pos buf) = [buf]"
| "sub_held (S_Track pos buf) = [buf]"
| "sub_held (S_Drop_duplicate buf) = [buf]"
| "sub_held (S_Enqueue pos buf) = [buf]"
| "sub_held (S_Drop_full buf) = [buf]"
| "sub_held _ = []"

fun worker_held :: "worker_pc \<Rightarrow> ptr list" where
  "worker_held (W_Stamp buf) = [buf]"
| "worker_held (W_Check buf) = [buf]"
| "worker_held (W_Process buf) = [buf]"
| "worker_held (W_Monitor buf) = [buf]"
| "worker_held (W_Release buf) = [buf]"
| "worker_held (W_Drop_duplicate buf) = [buf]"
| "worker_held _ = []"

text \<open>Every buffer in use is in exactly one place: in the queue or with one of the threads.\<close>

definition places :: "zc_system \<Rightarrow> ptr list" where
  "places s = mq_contents (sy_queue s) @ sub_held (sub_at s) @ worker_held (worker_at s)"

definition resources_ok :: "zc_system \<Rightarrow> bool" where
  "resources_ok s \<longleftrightarrow>
     pool_inv (sy_pool s) \<and> mq_inv (sy_queue s)
     \<and> PoolSize (sy_pool s) \<le> mq_capacity (sy_queue s)
     \<and> distinct (places s) \<and> set (places s) = owned (sy_pool s)"

text \<open>The messages in the queue are unchanged since they were enqueued.\<close>

definition data_ok :: "zc_system \<Rightarrow> bool" where
  "data_ok s \<longleftrightarrow> accepted s = taken s @ map (buf_of s) (mq_contents (sy_queue s))"

text \<open>After the enqueue the subscriber looks at a buffer that it no longer owns.\<close>

fun record_ok :: "sub_pc \<Rightarrow> zc_system \<Rightarrow> bool" where
  "record_ok (S_Record pos buf) s =
     (buf \<in> pool_ptrs (sy_pool s) \<and> accepted s \<noteq> []
      \<and> header (buf_of s buf) = header (last (accepted s)))"
| "record_ok (S_Drop_full buf) s = False"
| "record_ok _ s = True"

definition zc_inv :: "zc_system \<Rightarrow> bool" where
  "zc_inv s \<longleftrightarrow> resources_ok s \<and> data_ok s \<and> record_ok (sub_at s) s"

lemma mq_enqueue_pair:
  assumes "mq_inv q" and "mq_enqueue q x = (ok, q')"
  shows "mq_inv q'" "mq_capacity q' = mq_capacity q"
    "mq_contents q' = (if ok then mq_contents q @ [x] else mq_contents q)"
    "ok \<longleftrightarrow> x \<noteq> nullptr \<and> length (mq_contents q) < mq_capacity q"
  using mq_enqueue_inv [OF assms(1), of x] mq_capacity_ops(1) [of q x]
    mq_enqueue_contents [OF assms(1), of x] mq_enqueue_accepts [OF assms(1), of x] assms(2)
  by simp_all

lemma mq_dequeue_pair:
  assumes "mq_inv q" and "mq_dequeue q = (r, q')"
  shows "mq_inv q'" "mq_capacity q' = mq_capacity q"
    "r = (if mq_contents q = [] then None else Some (hd (mq_contents q)))"
    "mq_contents q' = tl (mq_contents q)"
  using mq_dequeue_inv [OF assms(1)] mq_capacity_ops(2) [of q] mq_dequeue_cases [OF assms(1)] assms(2)
  by simp_all

lemma allocate_pair:
  assumes "pool_inv p" and "allocate p = (buf, p')"
  shows "pool_inv p'" "PoolSize p' = PoolSize p" "pool_ptrs p' = pool_ptrs p"
    "buf = nullptr \<Longrightarrow> owned p' = owned p \<and> deref p' = deref p"
    "buf \<noteq> nullptr \<Longrightarrow> owned p' = insert buf (owned p) \<and> buf \<notin> owned p \<and> buf \<in> pool_ptrs p"
    "c \<in> pool_ptrs p \<Longrightarrow> c \<noteq> buf \<Longrightarrow> deref p' c = deref p c"
proof -
  show "pool_inv p'" "PoolSize p' = PoolSize p" "pool_ptrs p' = pool_ptrs p"
    using allocate_inv [OF assms(1)] PoolSize_allocate [OF assms(1)] allocate_simps(1) [OF assms(1)] assms(2)
    by simp_all
  show "buf = nullptr \<Longrightarrow> owned p' = owned p \<and> deref p' = deref p"
    using assms allocate_null_iff [OF assms(1)] by (auto simp: allocate_exhausted)
  show "buf \<noteq> nullptr \<Longrightarrow> owned p' = insert buf (owned p) \<and> buf \<notin> owned p \<and> buf \<in> pool_ptrs p"
    using assms allocate_null_iff [OF assms(1)] allocate_owned [OF assms(1)]
      next_free_ptrs [OF assms(1)] allocate_fst [OF assms(1)] by auto
  show "c \<in> pool_ptrs p \<Longrightarrow> c \<noteq> buf \<Longrightarrow> deref p' c = deref p c"
    using assms deref_allocate [OF assms(1)] allocate_fst [OF assms(1)]
    by (cases "free_count p = 0") (auto simp: allocate_exhausted)
qed

text \<open>A thread writes to a buffer that it holds, or gives it back.\<close>

lemma store_held:
  assumes "pool_inv p" and "a \<in> owned p" and "wf_buffer (deref p a) \<Longrightarrow> wf_buffer b"
    and "in_use b = in_use (deref p a)"
  shows "pool_inv (store p a b)" "c \<in> owned p \<Longrightarrow> c \<noteq> a \<Longrightarrow> deref (store p a b) c = deref p c"
    "c \<in> pool_ptrs p \<Longrightarrow> c \<noteq> a \<Longrightarrow> deref (store p a b) c = deref p c" "deref (store p a b) a = b"
proof -
  have a: "a \<in> pool_ptrs p" by (rule owned_room(2) [OF assms(1,2)])
  moreover have "wf_buffer b"
    using assms(1,3) deref_mem [OF a] by (simp add: pool_inv_def)
  ultimately show "pool_inv (store p a b)"
    using assms by (intro pool_inv_store)
  show "c \<in> owned p \<Longrightarrow> c \<noteq> a \<Longrightarrow> deref (store p a b) c = deref p c"
    "c \<in> pool_ptrs p \<Longrightarrow> c \<noteq> a \<Longrightarrow> deref (store p a b) c = deref p c" "deref (store p a b) a = b"
    using a by (simp_all add: owned_def)
qed

lemma release_held:
  assumes "pool_inv p" and "a \<in> owned p"
  shows "pool_inv (deallocate p a)" "owned (deallocate p a) = owned p - {a}"
    "PoolSize (deallocate p a) = PoolSize p" "pool_ptrs (deallocate p a) = pool_ptrs p"
    "c \<in> pool_ptrs p \<Longrightarrow> header (deref (deallocate p a) c) = header (deref p c)"
    "c \<in> owned p \<Longrightarrow> c \<noteq> a \<Longrightarrow> deref (deallocate p a) c = deref p c"
  using assms deallocate_inv deallocate_owned(1) deallocate_simps(1,2)
    deref_deallocate [OF assms, of c] owned_room(2) [OF assms]
  by (auto simp: owned_def)

lemma resources_ok_places: "resources_ok s \<Longrightarrow> x \<in> set (places s) \<Longrightarrow> x \<in> owned (sy_pool s)"
  by (simp add: resources_ok_def)

lemma places_length:
  assumes "resources_ok s"
  shows "length (places s) = PoolSize (sy_pool s) - free_count (sy_pool s)"
  using assms distinct_card [of "places s"] card_owned [of "sy_pool s"]
  by (simp add: resources_ok_def)

lemma sub_held_owned:
  "resources_ok s \<Longrightarrow> sub_held (sub_at s) = [a] \<Longrightarrow> pool_inv (sy_pool s) \<and> a \<in> owned (sy_pool s)"
  by (auto simp: resources_ok_def places_def)

lemma worker_held_owned:
  "resources_ok s \<Longrightarrow> worker_held (worker_at s) = [a] \<Longrightarrow>
     pool_inv (sy_pool s) \<and> a \<in> owned (sy_pool s)"
  by (auto simp: resources_ok_def places_def)

text \<open>The queue has room whenever the subscriber has a buffer to enqueue.\<close>

lemma queue_has_room:
  assumes "resources_ok s" and "sub_at s = S_Enqueue pos buf"
  shows "length (mq_contents (sy_queue s)) < mq_capacity (sy_queue s)"
proof -
  have "length (mq_contents (sy_queue s)) < length (places s)"
    using assms(2) by (simp add: places_def)
  also have "\<dots> \<le> PoolSize (sy_pool s)"
    using places_length [OF assms(1)] by simp
  also have "\<dots> \<le> mq_capacity (sy_queue s)"
    using assms(1) by (simp add: resources_ok_def)
  finally show ?thesis .
qed

lemma subscriber_step_resources:
  assumes "subscriber_step ar s t" and "resources_ok s"
  shows "resources_ok t"
  using assms
proof (induction rule: subscriber_step.induct)
  case (s_allocate s buf p t d pos)
  then show ?case
    using allocate_pair [of "sy_pool s" buf p] by (auto simp: resources_ok_def places_def)
next
  case (s_exhausted s buf p)
  then show ?case
    using allocate_pair [of "sy_pool s" buf p] by (auto simp: resources_ok_def places_def)
next
  case (s_copy s t d pos buf)
  then have own: "pool_inv (sy_pool s)" "buf \<in> owned (sy_pool s)"
    using sub_held_owned [of s buf] by simp_all
  show ?case
    using s_copy store_held(1) [OF own, of "received_buffer (buf_of s buf) d t"]
    by (auto simp: resources_ok_def places_def wf_received_buffer)
next
  case (s_drop_duplicate s buf)
  then have own: "pool_inv (sy_pool s)" "buf \<in> owned (sy_pool s)"
    using sub_held_owned [of s buf] by simp_all
  show ?case
    using s_drop_duplicate release_held [OF own] by (auto simp: resources_ok_def places_def)
next
  case (s_enqueue s pos buf q)
  then show ?case
    using mq_enqueue_pair [of "sy_queue s" buf True q] by (auto simp: resources_ok_def places_def)
next
  case (s_full s pos buf q)
  then show ?case
    using mq_enqueue_pair [of "sy_queue s" buf False q] by (auto simp: resources_ok_def places_def)
next
  case (s_drop_full s buf)
  then have own: "pool_inv (sy_pool s)" "buf \<in> owned (sy_pool s)"
    using sub_held_owned [of s buf] by simp_all
  show ?case
    using s_drop_full release_held [OF own] by (auto simp: resources_ok_def places_def)
qed (auto simp: resources_ok_def places_def)

lemma worker_step_resources:
  assumes "worker_step s t" and "resources_ok s"
  shows "resources_ok t"
  using assms
proof (induction rule: worker_step.induct)
  case (w_dequeue s buf q)
  then show ?case
    using mq_dequeue_pair [of "sy_queue s" "Some buf" q]
    by (cases "mq_contents (sy_queue s)") (auto simp: resources_ok_def places_def)
next
  case (w_empty s q)
  then show ?case
    using mq_dequeue_pair [of "sy_queue s" None q]
    by (cases "mq_contents (sy_queue s)") (auto simp: resources_ok_def places_def)
next
  case (w_stamp s buf now)
  then have own: "pool_inv (sy_pool s)" "buf \<in> owned (sy_pool s)"
    using worker_held_owned [of s buf] by simp_all
  show ?case
    using w_stamp store_held(1) [OF own, of "(buf_of s buf)\<lparr>worker_dequeue_time_ns := now\<rparr>"]
    by (auto simp: resources_ok_def places_def)
next
  case (w_release s buf)
  then have own: "pool_inv (sy_pool s)" "buf \<in> owned (sy_pool s)"
    using worker_held_owned [of s buf] by simp_all
  show ?case
    using w_release release_held [OF own] by (auto simp: resources_ok_def places_def)
next
  case (w_drop_duplicate s buf)
  then have own: "pool_inv (sy_pool s)" "buf \<in> owned (sy_pool s)"
    using worker_held_owned [of s buf] by simp_all
  show ?case
    using w_drop_duplicate release_held [OF own] by (auto simp: resources_ok_def places_def)
qed (auto simp: resources_ok_def places_def)

text \<open>What a step leaves of the buffers in the queue.\<close>

lemma map_deref_cong:
  "(\<And>c. c \<in> set xs \<Longrightarrow> deref p' c = deref p c) \<Longrightarrow> map (deref p') xs = map (deref p) xs"
  by simp

lemma queue_not_held:
  assumes "resources_ok s" and "c \<in> set (mq_contents (sy_queue s))"
  shows "c \<in> owned (sy_pool s)" "c \<in> pool_ptrs (sy_pool s)"
    "c \<notin> set (sub_held (sub_at s))" "c \<notin> set (worker_held (worker_at s))"
  using assms owned_room(2) [of "sy_pool s" c] by (auto simp: resources_ok_def places_def)

lemma subscriber_step_data:
  assumes "subscriber_step ar s t" and "resources_ok s" and "data_ok s"
  shows "data_ok t"
  using assms
proof (induction rule: subscriber_step.induct)
  case (s_allocate s buf p t d pos)
  have inv: "pool_inv (sy_pool s)" using s_allocate by (simp add: resources_ok_def)
  have "buf \<notin> owned (sy_pool s)"
    using allocate_pair(5) [OF inv s_allocate(2)] s_allocate(3) by simp
  then have "map (deref p) (mq_contents (sy_queue s)) = map (buf_of s) (mq_contents (sy_queue s))"
    using queue_not_held(1,2) [OF s_allocate(4)]
    by (intro map_deref_cong allocate_pair(6) [OF inv s_allocate(2)]) auto
  with s_allocate show ?case by (simp add: data_ok_def)
next
  case (s_exhausted s buf p)
  then show ?case
    using allocate_pair(4) [of "sy_pool s" buf p] by (simp add: data_ok_def resources_ok_def)
next
  case (s_copy s t d pos buf)
  then have own: "pool_inv (sy_pool s)" "buf \<in> owned (sy_pool s)"
    using sub_held_owned [of s buf] by simp_all
  let ?b = "received_buffer (buf_of s buf) d t"
  have "map (deref (store (sy_pool s) buf ?b)) (mq_contents (sy_queue s))
      = map (buf_of s) (mq_contents (sy_queue s))"
    using queue_not_held [OF s_copy(2)] s_copy(1)
    by (intro map_deref_cong store_held(2) [OF own]) (auto simp: wf_received_buffer)
  with s_copy show ?case by (simp add: data_ok_def)
next
  case (s_drop_duplicate s buf)
  then have own: "pool_inv (sy_pool s)" "buf \<in> owned (sy_pool s)"
    using sub_held_owned [of s buf] by simp_all
  have "map (deref (deallocate (sy_pool s) buf)) (mq_contents (sy_queue s))
      = map (buf_of s) (mq_contents (sy_queue s))"
    using queue_not_held [OF s_drop_duplicate(2)] s_drop_duplicate(1)
    by (intro map_deref_cong release_held(6) [OF own]) auto
  with s_drop_duplicate show ?case by (simp add: data_ok_def)
next
  case (s_enqueue s pos buf q)
  then show ?case
    using mq_enqueue_pair(3) [of "sy_queue s" buf True q] by (simp add: data_ok_def resources_ok_def)
next
  case (s_full s pos buf q)
  then show ?case
    using mq_enqueue_pair(3) [of "sy_queue s" buf False q] by (simp add: data_ok_def resources_ok_def)
next
  case (s_drop_full s buf)
  then have own: "pool_inv (sy_pool s)" "buf \<in> owned (sy_pool s)"
    using sub_held_owned [of s buf] by simp_all
  have "map (deref (deallocate (sy_pool s) buf)) (mq_contents (sy_queue s))
      = map (buf_of s) (mq_contents (sy_queue s))"
    using queue_not_held [OF s_drop_full(2)] s_drop_full(1)
    by (intro map_deref_cong release_held(6) [OF own]) auto
  with s_drop_full show ?case by (simp add: data_ok_def)
qed (simp_all add: data_ok_def)

lemma worker_release_data:
  assumes "resources_ok s" and "worker_held (worker_at s) = [buf]"
  shows "map (deref (deallocate (sy_pool s) buf)) (mq_contents (sy_queue s))
       = map (buf_of s) (mq_contents (sy_queue s))"
proof -
  have own: "pool_inv (sy_pool s)" "buf \<in> owned (sy_pool s)"
    using worker_held_owned [OF assms] by simp_all
  show ?thesis
    using queue_not_held [OF assms(1)] assms(2)
    by (intro map_deref_cong release_held(6) [OF own]) auto
qed

lemma worker_step_data:
  assumes "worker_step s t" and "resources_ok s" and "data_ok s"
  shows "data_ok t"
  using assms
proof (induction rule: worker_step.induct)
  case (w_dequeue s buf q)
  then show ?case
    using mq_dequeue_pair [of "sy_queue s" "Some buf" q]
    by (cases "mq_contents (sy_queue s)") (auto simp: data_ok_def resources_ok_def)
next
  case (w_empty s q)
  then show ?case
    using mq_dequeue_pair [of "sy_queue s" None q]
    by (cases "mq_contents (sy_queue s)") (auto simp: data_ok_def resources_ok_def)
next
  case (w_stamp s buf now)
  then have own: "pool_inv (sy_pool s)" "buf \<in> owned (sy_pool s)"
    using worker_held_owned [of s buf] by simp_all
  let ?b = "(buf_of s buf)\<lparr>worker_dequeue_time_ns := now\<rparr>"
  have "map (deref (store (sy_pool s) buf ?b)) (mq_contents (sy_queue s))
      = map (buf_of s) (mq_contents (sy_queue s))"
    using queue_not_held [OF w_stamp(2)] w_stamp(1)
    by (intro map_deref_cong store_held(2) [OF own]) auto
  with w_stamp show ?case by (simp add: data_ok_def)
next
  case (w_release s buf)
  then show ?case
    using worker_release_data [of s buf] by (simp add: data_ok_def)
next
  case (w_drop_duplicate s buf)
  then show ?case
    using worker_release_data [of s buf] by (simp add: data_ok_def)
qed (simp_all add: data_ok_def)

text \<open>The subscriber reads the number again after the enqueue: the worker may have released the
  buffer by then, but only the subscriber allocates, so the header is still that of the message.\<close>

lemma subscriber_step_record:
  assumes "subscriber_step ar s t" and "resources_ok s" and "record_ok (sub_at s) s"
  shows "record_ok (sub_at t) t"
  using assms
proof (induction rule: subscriber_step.induct)
  case (s_enqueue s pos buf q)
  then have "buf \<in> owned (sy_pool s)"
    using sub_held_owned [of s buf] by simp
  then show ?case by (simp add: owned_def)
next
  case (s_full s pos buf q)
  then have "pool_inv (sy_pool s)" "buf \<in> owned (sy_pool s)" "mq_inv (sy_queue s)"
    using sub_held_owned [of s buf] by (simp_all add: resources_ok_def)
  then show ?case
    using s_full queue_has_room [of s pos buf] mq_enqueue_pair(4) [of "sy_queue s" buf False q]
      owned_room(3) [of "sy_pool s" buf] by simp
qed simp_all

lemma record_ok_cong:
  assumes "record_ok pc s" and "accepted t = accepted s" and "pool_ptrs (sy_pool t) = pool_ptrs (sy_pool s)"
    and "\<And>c. c \<in> pool_ptrs (sy_pool s) \<Longrightarrow> header (buf_of t c) = header (buf_of s c)"
  shows "record_ok pc t"
  using assms by (cases pc) simp_all

lemma worker_step_headers:
  assumes "worker_step s t" and "resources_ok s"
  shows "pool_ptrs (sy_pool t) = pool_ptrs (sy_pool s)"
    and "c \<in> pool_ptrs (sy_pool s) \<Longrightarrow> header (buf_of t c) = header (buf_of s c)"
proof -
  have "pool_ptrs (sy_pool t) = pool_ptrs (sy_pool s)
      \<and> (c \<in> pool_ptrs (sy_pool s) \<longrightarrow> header (buf_of t c) = header (buf_of s c))"
    using assms
  proof (induction rule: worker_step.induct)
    case (w_stamp s buf now)
    then have own: "pool_inv (sy_pool s)" "buf \<in> owned (sy_pool s)"
      using worker_held_owned [of s buf] by simp_all
    let ?b = "(buf_of s buf)\<lparr>worker_dequeue_time_ns := now\<rparr>"
    show ?case
      using store_held(3,4) [OF own, of ?b] by (cases "c = buf") simp_all
  next
    case (w_release s buf)
    then show ?case
      using worker_held_owned [of s buf] release_held(4,5) [of "sy_pool s" buf] by simp
  next
    case (w_drop_duplicate s buf)
    then show ?case
      using worker_held_owned [of s buf] release_held(4,5) [of "sy_pool s" buf] by simp
  qed simp_all
  then show "pool_ptrs (sy_pool t) = pool_ptrs (sy_pool s)"
    "c \<in> pool_ptrs (sy_pool s) \<Longrightarrow> header (buf_of t c) = header (buf_of s c)" by simp_all
qed

lemma worker_step_frame:
  assumes "worker_step s t"
  shows "sub_at t = sub_at s" "accepted t = accepted s" "sy_sub t = sy_sub s"
  using assms by (induction rule: worker_step.induct) simp_all

lemma worker_step_record:
  assumes "worker_step s t" and "resources_ok s" and "record_ok (sub_at s) s"
  shows "record_ok (sub_at t) t"
  using assms(3) worker_step_headers [OF assms(1,2)] worker_step_frame [OF assms(1)]
  by (auto elim!: record_ok_cong)

lemma zc_reachable_inv: "zc_reachable ar s0 s \<Longrightarrow> zc_inv s0 \<Longrightarrow> zc_inv s"
proof (induction rule: zc_reachable.induct)
  case zc_start
  then show ?case .
next
  case (zc_subscriber s t)
  then show ?case
    using subscriber_step_resources [of ar s t] subscriber_step_data [of ar s t]
      subscriber_step_record [of ar s t] by (simp add: zc_inv_def)
next
  case (zc_worker s t)
  then show ?case
    using worker_step_resources [of s t] worker_step_data [of s t]
      worker_step_record [of s t] by (simp add: zc_inv_def)
qed

section \<open>What the subscriber has accepted\<close>

text \<open>The number that is tracked but not yet enqueued.\<close>

fun pending_number :: "sub_pc \<Rightarrow> BufferPool \<Rightarrow> u64 list" where
  "pending_number (S_Enqueue pos buf) p = [seq_of (deref p buf)]"
| "pending_number _ p = []"

definition numbers :: "zc_system \<Rightarrow> u64 list" where
  "numbers s = map seq_of (accepted s) @ pending_number (sub_at s) (sy_pool s)"

fun unrecorded :: "sub_pc \<Rightarrow> nat" where
  "unrecorded (S_Record pos buf) = 1"
| "unrecorded _ = 0"

definition counted :: "zc_system \<Rightarrow> bool" where
  "counted s \<longleftrightarrow>
     of_nat (length (accepted s)) = zc_messages_received (sy_sub s) + of_nat (unrecorded (sub_at s))"

definition checkpointed :: "zc_system \<Rightarrow> bool" where
  "checkpointed s \<longleftrightarrow>
     (\<forall>cm. sub_checkpoint (sy_sub s) = Some cm \<longrightarrow> unrecorded (sub_at s) = 0 \<longrightarrow> accepted s \<noteq> [] \<longrightarrow>
        getLastSequence cm = seq_of (last (accepted s))
        \<and> getMessageCount cm = of_nat (length (accepted s)))"

lemma recordReception_checkpoint:
  "sub_checkpoint (recordReception now n pos s) =
     map_option (\<lambda>cm. update cm now n pos (zc_messages_received s + 1)) (sub_checkpoint s)"
  by (simp add: recordReception_def Let_def split: option.split)

lemma subscriber_step_counted:
  assumes "subscriber_step ar s t" and "record_ok (sub_at s) s" and "counted s" and "checkpointed s"
  shows "counted t \<and> checkpointed t"
  using assms
  by (induction rule: subscriber_step.induct)
     (auto simp: counted_def checkpointed_def recordReception_checkpoint update_def
        getLastSequence_def getMessageCount_def)

lemma worker_step_counted:
  "worker_step s t \<Longrightarrow> counted s \<Longrightarrow> checkpointed s \<Longrightarrow> counted t \<and> checkpointed t"
  using worker_step_frame [of s t] by (simp add: counted_def checkpointed_def)

lemma remembers_same_window:
  assumes "dedup.remembers init acc s" and "config t = config s" "duplicate_buffer t = duplicate_buffer s"
    "duplicate_buffer_pos t = duplicate_buffer_pos s"
  shows "dedup.remembers init acc t"
  using assms(1) dup_cong [OF assms(2-4)] by (simp add: dedup.remembers_def)

lemma subscriber_step_numbers:
  assumes "subscriber_step ar s t" and "resources_ok s" and "record_ok (sub_at s) s"
    and "dedup.remembers init (numbers s) (sy_sub s)"
  shows "dedup.remembers init (numbers t) (sy_sub t)"
  using assms
proof (induction rule: subscriber_step.induct)
  case (s_full s pos buf q)
  then have "pool_inv (sy_pool s)" "buf \<in> owned (sy_pool s)" "mq_inv (sy_queue s)"
    using sub_held_owned [of s buf] by (simp_all add: resources_ok_def)
  then show ?case
    using s_full queue_has_room [of s pos buf] mq_enqueue_pair(4) [of "sy_queue s" buf False q]
      owned_room(3) [of "sy_pool s" buf] by simp
next
  case (s_track s pos buf)
  then show ?case
    using tracked_remembers [of init "numbers s" "sy_sub s"] by (simp add: numbers_def)
qed (auto simp: numbers_def elim: remembers_same_window)

lemma worker_step_numbers:
  assumes "worker_step s t" and "resources_ok s"
  shows "numbers t = numbers s"
proof -
  have "pending_number (sub_at s) (sy_pool t) = pending_number (sub_at s) (sy_pool s)"
    using worker_step_headers [OF assms] sub_held_owned [OF assms(2)] owned_room(2) [of "sy_pool s"]
    by (cases "sub_at s") auto
  then show ?thesis
    using worker_step_frame [OF assms(1)] by (simp add: numbers_def)
qed

section \<open>What the handler sees\<close>

fun in_hand :: "worker_pc \<Rightarrow> ptr list" where
  "in_hand (W_Stamp buf) = [buf]"
| "in_hand (W_Check buf) = [buf]"
| "in_hand (W_Process buf) = [buf]"
| "in_hand _ = []"

text \<open>The message in the worker's hand is the last one taken; the calls so far are for earlier ones.\<close>

definition handler_ok :: "zc_system \<Rightarrow> bool" where
  "handler_ok s \<longleftrightarrow>
     (\<exists>done. subseq (map header (sy_calls s)) done
        \<and> map header (taken s) = done @ map (\<lambda>buf. header (buf_of s buf)) (in_hand (worker_at s)))"

lemma handler_okI:
  "subseq (map header (sy_calls s)) d \<Longrightarrow>
   map header (taken s) = d @ map (\<lambda>buf. header (buf_of s buf)) (in_hand (worker_at s)) \<Longrightarrow>
   handler_ok s"
  by (auto simp: handler_ok_def)

lemma worker_held_ptrs:
  assumes "resources_ok s" and "worker_held (worker_at s) = [buf]"
  shows "buf \<in> pool_ptrs (sy_pool s)" "pool_inv (sy_pool s)" "buf \<in> owned (sy_pool s)"
    "buf \<notin> set (sub_held (sub_at s))"
proof -
  show "pool_inv (sy_pool s)" "buf \<in> owned (sy_pool s)"
    using worker_held_owned [OF assms] by simp_all
  then show "buf \<in> pool_ptrs (sy_pool s)"
    by (rule owned_room(2))
  show "buf \<notin> set (sub_held (sub_at s))"
    using assms by (auto simp: resources_ok_def places_def)
qed

lemma in_hand_held: "buf \<in> set (in_hand pc) \<Longrightarrow> worker_held pc = [buf]"
  by (cases pc) auto

text \<open>The subscriber's steps leave the buffer that the worker holds alone.\<close>

lemma subscriber_step_held:
  assumes "subscriber_step ar s t" and "resources_ok s" and "worker_held (worker_at s) = [buf]"
  shows "buf_of t buf = buf_of s buf"
  using assms
proof (induction rule: subscriber_step.induct)
  case (s_allocate s b p t d pos)
  then show ?case
    using worker_held_ptrs [OF s_allocate(4,5)] allocate_pair(5,6) [of "sy_pool s" b p] by auto
next
  case (s_exhausted s b p)
  then show ?case
    using worker_held_ptrs [OF s_exhausted(4,5)] allocate_pair(4) [of "sy_pool s" b p] by simp
next
  case (s_copy s t d pos b)
  then have own: "pool_inv (sy_pool s)" "b \<in> owned (sy_pool s)"
    using sub_held_owned [of s b] by simp_all
  show ?case
    using worker_held_ptrs [OF s_copy(2,3)] s_copy(1)
      store_held(2) [OF own, of "received_buffer (buf_of s b) d t" buf]
    by (auto simp: wf_received_buffer)
next
  case (s_drop_duplicate s b)
  then have own: "pool_inv (sy_pool s)" "b \<in> owned (sy_pool s)"
    using sub_held_owned [of s b] by simp_all
  show ?case
    using worker_held_ptrs [OF s_drop_duplicate(2,3)] s_drop_duplicate(1) release_held(6) [OF own, of buf]
    by auto
next
  case (s_drop_full s b)
  then have own: "pool_inv (sy_pool s)" "b \<in> owned (sy_pool s)"
    using sub_held_owned [of s b] by simp_all
  show ?case
    using worker_held_ptrs [OF s_drop_full(2,3)] s_drop_full(1) release_held(6) [OF own, of buf]
    by auto
qed simp_all

lemma subscriber_step_frame:
  assumes "subscriber_step ar s t"
  shows "worker_at t = worker_at s" "taken t = taken s" "sy_calls t = sy_calls s"
    "sy_worker t = sy_worker s"
  using assms by (induction rule: subscriber_step.induct) simp_all

lemma subscriber_step_handler:
  assumes "subscriber_step ar s t" and "resources_ok s" and "handler_ok s"
  shows "handler_ok t"
proof -
  have same: "map (\<lambda>buf. header (buf_of t buf)) (in_hand (worker_at s))
      = map (\<lambda>buf. header (buf_of s buf)) (in_hand (worker_at s))"
    using subscriber_step_held [OF assms(1,2) in_hand_held] by simp
  show ?thesis
    using assms(3) unfolding handler_ok_def subscriber_step_frame [OF assms(1)] same .
qed

lemma worker_step_handler:
  assumes "worker_step s t" and "resources_ok s" and "handler_ok s"
  shows "handler_ok t"
proof -
  obtain d where d: "subseq (map header (sy_calls s)) d"
      "map header (taken s) = d @ map (\<lambda>buf. header (buf_of s buf)) (in_hand (worker_at s))"
    using assms(3) by (auto simp: handler_ok_def)
  from assms(1) show ?thesis
  proof cases
    case (w_stamp buf now)
    have own: "pool_inv (sy_pool s)" "buf \<in> owned (sy_pool s)"
      using worker_held_owned [OF assms(2), of buf] w_stamp by simp_all
    show ?thesis
      using d w_stamp store_held(4) [OF own, of "(buf_of s buf)\<lparr>worker_dequeue_time_ns := now\<rparr>"]
      by (intro handler_okI [of _ d]) simp_all
  next
    case (w_process buf elapsed)
    have "subseq (map header (sy_calls s) @ xs) (d @ [header (buf_of s buf)])"
      if "xs = [header (buf_of s buf)] \<or> xs = []" for xs
      using that d(1) list_emb_append_mono [of "(=)" "map header (sy_calls s)" d
          "[header (buf_of s buf)]" "[header (buf_of s buf)]"] subseq_rev_drop_many [OF d(1)]
      by auto
    then show ?thesis
      using d(2) w_process by (intro handler_okI [of _ "d @ [header (buf_of s buf)]"]) simp_all
  next
    case (w_duplicate buf k)
    then show ?thesis
      using d by (intro handler_okI [of _ "d @ [header (buf_of s buf)]"]) (simp_all add: subseq_rev_drop_many)
  qed (use d in \<open>auto intro!: handler_okI [of _ d]\<close>)
qed


section \<open>Reachable states\<close>

text \<open>All of the invariants, with the sizes of the pool and the window fixed.\<close>

definition system_ok :: "nat \<Rightarrow> i64 list \<Rightarrow> zc_system \<Rightarrow> bool" where
  "system_ok n init s \<longleftrightarrow>
     zc_inv s \<and> counted s \<and> checkpointed s \<and> handler_ok s
     \<and> PoolSize (sy_pool s) = n \<and> zc_queue_full_failures (sy_sub s) = 0
     \<and> (init \<noteq> [] \<longrightarrow> dedup.remembers init (numbers s) (sy_sub s))"

lemma subscriber_step_sizes:
  assumes "subscriber_step ar s t" and "zc_inv s"
  shows "PoolSize (sy_pool t) = PoolSize (sy_pool s)"
    "zc_queue_full_failures (sy_sub t) = zc_queue_full_failures (sy_sub s)"
proof -
  have "PoolSize (sy_pool t) = PoolSize (sy_pool s)
      \<and> zc_queue_full_failures (sy_sub t) = zc_queue_full_failures (sy_sub s)"
    using assms
  proof (induction rule: subscriber_step.induct)
    case (s_allocate s buf p t d pos)
    then show ?case
      using allocate_pair(2) [of "sy_pool s" buf p] by (simp add: zc_inv_def resources_ok_def)
  next
    case (s_exhausted s buf p)
    then show ?case
      using allocate_pair(2) [of "sy_pool s" buf p] by (simp add: zc_inv_def resources_ok_def)
  next
    case (s_drop_duplicate s buf)
    then show ?case
      using sub_held_owned [of s buf] release_held(3) [of "sy_pool s" buf] by (simp add: zc_inv_def)
  qed (simp_all add: zc_inv_def)
  then show "PoolSize (sy_pool t) = PoolSize (sy_pool s)"
    "zc_queue_full_failures (sy_sub t) = zc_queue_full_failures (sy_sub s)" by simp_all
qed

lemma worker_step_sizes:
  assumes "worker_step s t" and "resources_ok s"
  shows "PoolSize (sy_pool t) = PoolSize (sy_pool s)"
  using assms
proof (induction rule: worker_step.induct)
  case (w_release s buf)
  then show ?case
    using worker_held_owned [of s buf] release_held(3) [of "sy_pool s" buf] by simp
next
  case (w_drop_duplicate s buf)
  then show ?case
    using worker_held_owned [of s buf] release_held(3) [of "sy_pool s" buf] by simp
qed simp_all

lemma system_ok_reachable:
  "zc_reachable ar s0 s \<Longrightarrow> system_ok n init s0 \<Longrightarrow> system_ok n init s"
proof (induction rule: zc_reachable.induct)
  case zc_start
  then show ?case .
next
  case (zc_subscriber s t)
  then have "zc_inv s" by (simp add: system_ok_def)
  then have "zc_inv t"
    by (rule zc_reachable_inv [OF zc_reachable.zc_subscriber [OF zc_reachable.zc_start zc_subscriber(2)]])
  with zc_subscriber show ?case
    using subscriber_step_counted [of ar s t] subscriber_step_numbers [of ar s t init]
      subscriber_step_handler [of ar s t] subscriber_step_sizes [of ar s t]
    by (simp add: system_ok_def zc_inv_def)
next
  case (zc_worker s t)
  then have "zc_inv s" by (simp add: system_ok_def)
  then have "zc_inv t"
    by (rule zc_reachable_inv [OF zc_reachable.zc_worker [OF zc_reachable.zc_start zc_worker(2)]])
  with zc_worker show ?case
    using worker_step_counted [of s t] worker_step_numbers [of s t] worker_step_handler [of s t]
      worker_step_sizes [of s t] worker_step_frame(3) [of s t]
    by (simp add: system_ok_def zc_inv_def)
qed

section \<open>A complete call\<close>

definition world_of :: "zc_system \<Rightarrow> zc_world" where
  "world_of s = \<lparr>sub = sy_sub s, bpool = sy_pool s, mqueue = sy_queue s\<rparr>"

lemma world_of_simps [simp]:
  "sub (world_of s) = sy_sub s" "bpool (world_of s) = sy_pool s" "mqueue (world_of s) = sy_queue s"
  by (simp_all add: world_of_def)

lemma world_of_inv: "zc_inv s \<Longrightarrow> world_inv (world_of s)"
  by (simp add: zc_inv_def resources_ok_def world_inv_def)

lemma idle_not_full:
  assumes "zc_inv s" and "sub_at s = S_Idle"
  shows "fast_path_outcome (world_of s) d \<noteq> Queue_full"
proof
  assume "fast_path_outcome (world_of s) d = Queue_full"
  then have full: "0 < free_count (sy_pool s)"
      "length (mq_contents (sy_queue s)) = mq_capacity (sy_queue s)"
    by (simp_all add: fast_path_outcome_def split: if_splits)
  have ok: "resources_ok s" using assms(1) by (simp add: zc_inv_def)
  have "length (mq_contents (sy_queue s)) \<le> length (places s)"
    by (simp add: places_def)
  also have "\<dots> = PoolSize (sy_pool s) - free_count (sy_pool s)"
    by (rule places_length [OF ok])
  finally have "length (mq_contents (sy_queue s)) \<le> PoolSize (sy_pool s) - free_count (sy_pool s)" .
  moreover have "0 < PoolSize (sy_pool s)" "PoolSize (sy_pool s) \<le> mq_capacity (sy_queue s)"
    using ok by (simp_all add: resources_ok_def pool_inv_def pool_size_ok_def)
  ultimately show False
    using full by linarith
qed

text \<open>The first two steps: the message is in a buffer.\<close>

lemma receive_steps:
  assumes "zc_inv s" and "sub_at s = S_Idle" and "0 < free_count (sy_pool s)"
  shows "\<exists>a. subscriber_step ar s a \<and> sub_at a = S_Copy t d pos (next_free (sy_pool s))
    \<and> subscriber_step ar a
    (s\<lparr>sy_pool := receive_into d t (sy_pool s), sub_at := S_Track pos (next_free (sy_pool s))\<rparr>)"
proof -
  let ?p = "sy_pool s" and ?buf = "next_free (sy_pool s)"
  have inv: "pool_inv ?p" using assms(1) by (simp add: zc_inv_def resources_ok_def)
  define a where "a = s\<lparr>sy_pool := snd (allocate ?p), sub_at := S_Copy t d pos ?buf\<rparr>"
  have "subscriber_step ar s a"
    unfolding a_def using allocate_fst [OF inv assms(3)] next_free_not_null [OF inv assms(3)]
    by (intro s_allocate assms(2)) (simp_all add: prod_eq_iff)
  moreover have "subscriber_step ar a
      (a\<lparr>sy_pool := store (sy_pool a) ?buf (received_buffer (buf_of a ?buf) d t),
         sub_at := S_Track pos ?buf\<rparr>)"
    by (rule s_copy) (simp add: a_def)
  moreover have "a\<lparr>sy_pool := store (sy_pool a) ?buf (received_buffer (buf_of a ?buf) d t),
      sub_at := S_Track pos ?buf\<rparr>
    = s\<lparr>sy_pool := receive_into d t (sy_pool s), sub_at := S_Track pos (next_free (sy_pool s))\<rparr>"
    by (simp add: a_def receive_into_eq [OF inv assms(3)])
  ultimately show ?thesis by (auto intro!: exI [of _ a]) (simp add: a_def)
qed

text \<open>The steps of a call that accepts its message, up to the point after the enqueue, and the last one.\<close>

lemma accepted_steps:
  assumes "zc_inv s" and idle: "sub_at s = S_Idle"
    and Accepted: "fast_path_outcome (world_of s) d = Accepted"
  shows "\<exists>a0 a b c u. subscriber_step ar s a0 \<and> subscriber_step ar a0 a \<and> subscriber_step ar a b
    \<and> subscriber_step ar b c \<and> subscriber_step ar c u
    \<and> sub_at a0 = S_Copy t d pos (next_free (sy_pool s)) \<and> unrecorded (sub_at a) = 0 \<and> unrecorded (sub_at b) = 0
    \<and> sub_at c = S_Record pos (next_free (sy_pool s))
    \<and> sub_at u = S_Idle \<and> worker_at u = worker_at s \<and> sy_worker u = sy_worker s \<and> taken u = taken s
    \<and> seq_of (buf_of c (next_free (sy_pool s))) = number_of d
    \<and> world_of u = handleMessageFastPath ar t now d pos (world_of s)
    \<and> accepted u = accepted s @ [buf_of u (next_free (sy_pool s))]"
proof -
  let ?p = "receive_into d t (sy_pool s)" and ?buf = "next_free (sy_pool s)" and ?n = "number_of d"
  have inv: "pool_inv (sy_pool s)" "mq_inv (sy_queue s)" and free: "0 < free_count (sy_pool s)"
    and new: "\<not> isDuplicate (sy_sub s) ?n"
    using Accepted assms(1) by (simp_all add: fast_path_outcome_def zc_inv_def resources_ok_def split: if_splits)
  define a where "a = s\<lparr>sy_pool := ?p, sub_at := S_Track pos ?buf\<rparr>"
  obtain a0 where a0: "subscriber_step ar s a0" "sub_at a0 = S_Copy t d pos ?buf" "subscriber_step ar a0 a"
    using receive_steps [OF assms(1,2) free, where d = d and t = t and pos = pos] unfolding a_def by blast
  have n: "seq_of (buf_of a ?buf) = ?n"
    by (simp add: a_def header_receive_into [OF inv(1) free])
  define b where "b = a\<lparr>sy_sub := tracked ar (seq_of (buf_of a ?buf)) (sy_sub a), sub_at := S_Enqueue pos ?buf\<rparr>"
  define c where "c = b\<lparr>sy_queue := snd (mq_enqueue (sy_queue b) ?buf),
      accepted := accepted b @ [buf_of b ?buf], sub_at := S_Record pos ?buf\<rparr>"
  define u where "u = c\<lparr>sy_sub := recordReception now (seq_of (buf_of c ?buf)) pos (sy_sub c), sub_at := S_Idle\<rparr>"
  have ab: "subscriber_step ar a b"
    unfolding b_def by (rule s_track) (use n new in \<open>simp_all add: a_def\<close>)
  have "fst (mq_enqueue (sy_queue b) ?buf)"
    using outcome_enqueue [of "world_of s"] inv free Accepted
    by (simp add: b_def a_def fast_path_outcome_def split: if_splits)
  then have bc: "subscriber_step ar b c"
    unfolding c_def by (intro s_enqueue) (simp_all add: b_def prod_eq_iff)
  have cu: "subscriber_step ar c u"
    unfolding u_def by (rule s_record) (simp add: c_def)
  have w: "world_of u = handleMessageFastPath ar t now d pos (world_of s)"
    using fast_path_accepted [of "world_of s" d] inv Accepted n
    by (simp add: u_def c_def b_def world_of_def) (simp add: a_def)
  have "seq_of (buf_of c ?buf) = ?n" using n by (simp add: c_def b_def)
  moreover have "unrecorded (sub_at a) = 0" "unrecorded (sub_at b) = 0" "sub_at c = S_Record pos ?buf"
    by (simp_all add: a_def b_def c_def)
  moreover have "sub_at u = S_Idle \<and> worker_at u = worker_at s \<and> sy_worker u = sy_worker s
      \<and> taken u = taken s \<and> accepted u = accepted s @ [buf_of u ?buf]"
    by (simp add: u_def c_def b_def a_def)
  ultimately show ?thesis using a0 ab bc cu w by blast
qed

lemma message_call:
  assumes "zc_reachable ar s0 s" and "zc_inv s" and idle: "sub_at s = S_Idle"
  shows "\<exists>u. zc_reachable ar s0 u \<and> sub_at u = S_Idle \<and> worker_at u = worker_at s
    \<and> sy_worker u = sy_worker s \<and> taken u = taken s
    \<and> world_of u = handleMessageFastPath ar t now d pos (world_of s)
    \<and> accepted u = accepted s @
        (if fast_path_outcome (world_of s) d = Accepted
         then [buf_of u (next_free (sy_pool s))] else [])"
proof (cases "fast_path_outcome (world_of s) d")
  case Pool_exhausted
  then have "free_count (sy_pool s) = 0"
    by (simp add: fast_path_exhausted_outcome)
  note empty = this
  define u where "u = s\<lparr>sy_pool := (sy_pool s)\<lparr>allocation_failures := allocation_failures (sy_pool s) + 1\<rparr>,
         sy_sub := (sy_sub s)
           \<lparr>zc_buffer_allocation_failures := zc_buffer_allocation_failures (sy_sub s) + 1\<rparr>\<rparr>"
  have "subscriber_step ar s u"
    unfolding u_def using empty
    by (intro s_exhausted [of _ nullptr] idle) (simp_all add: allocate_exhausted)
  with assms(1) have "zc_reachable ar s0 u"
    by (rule zc_subscriber)
  moreover have "world_of u = handleMessageFastPath ar t now d pos (world_of s)"
    using empty by (simp add: fast_path_exhausted u_def world_of_def)
  ultimately show ?thesis
    using Pool_exhausted idle by (intro exI [of _ u]) (simp add: u_def)
next
  case Duplicate
  let ?p = "receive_into d t (sy_pool s)" and ?buf = "next_free (sy_pool s)" and ?n = "number_of d"
  have inv: "pool_inv (sy_pool s)" and free: "0 < free_count (sy_pool s)"
    and dup: "isDuplicate (sy_sub s) ?n"
    using Duplicate assms(2) by (simp_all add: fast_path_outcome_def zc_inv_def resources_ok_def split: if_splits)
  define a where "a = s\<lparr>sy_pool := ?p, sub_at := S_Track pos ?buf\<rparr>"
  have n: "seq_of (buf_of a ?buf) = ?n"
    by (simp add: a_def header_receive_into [OF inv free])
  define b where "b = a\<lparr>sy_sub := (detectAndRecoverGap ar (seq_of (buf_of a ?buf)) (sy_sub a))
      \<lparr>duplicates_detected := duplicates_detected (sy_sub a) + 1\<rparr>, sub_at := S_Drop_duplicate ?buf\<rparr>"
  define u where "u = b\<lparr>sy_pool := deallocate (sy_pool b) ?buf, sub_at := S_Idle\<rparr>"
  have "subscriber_step ar a b"
    unfolding b_def by (rule s_duplicate [of _ pos]) (use n dup in \<open>simp_all add: a_def\<close>)
  moreover have "subscriber_step ar b u"
    unfolding u_def by (rule s_drop_duplicate) (simp add: b_def)
  ultimately have "zc_reachable ar s0 u"
    using receive_steps [OF assms(2) idle free, where d = d and t = t and pos = pos] zc_subscriber assms(1)
    unfolding a_def by blast
  moreover have "world_of u = handleMessageFastPath ar t now d pos (world_of s)"
    using fast_path_duplicate [of "world_of s" d] inv Duplicate n
    by (simp add: u_def b_def world_of_def) (simp add: a_def)
  ultimately show ?thesis
    using Duplicate by (intro exI [of _ u]) (simp add: u_def b_def a_def)
next
  case Queue_full
  then show ?thesis using idle_not_full [OF assms(2) idle] by simp
next
  case Accepted
  obtain a0 a b c u where steps: "subscriber_step ar s a0" "subscriber_step ar a0 a"
      "subscriber_step ar a b" "subscriber_step ar b c" "subscriber_step ar c u"
    and u: "sub_at u = S_Idle" "worker_at u = worker_at s" "sy_worker u = sy_worker s" "taken u = taken s"
      "world_of u = handleMessageFastPath ar t now d pos (world_of s)"
      "accepted u = accepted s @ [buf_of u (next_free (sy_pool s))]"
    using accepted_steps [OF assms(2) idle Accepted, where ar = ar and t = t and pos = pos and now = now] by blast
  have "zc_reachable ar s0 u" by (rule assms(1) zc_subscriber steps)+
  with u Accepted show ?thesis by auto
qed

lemma stats_of_header: "header b = header c \<Longrightarrow> stats_of b = stats_of c"
  by (simp add: stats_of_def)

text \<open>The worker on one message, up to its report, while the other threads wait.\<close>

lemma worker_takes:
  assumes idle: "worker_at s = W_Idle" and res: "resources_ok s"
    and q: "mq_contents (sy_queue s) = buf # bufs" and new: "seq_of (buf_of s buf) \<notin> seen_sequences (sy_worker s)"
  shows "\<exists>t. worker_step\<^sup>*\<^sup>* s t \<and> worker_at t = W_Release buf
    \<and> sy_stats t = snd (sq_enqueue (sy_stats s) (stats_of (buf_of s buf)))
    \<and> mq_contents (sy_queue t) = bufs \<and> taken t = taken s @ [buf_of s buf]
    \<and> sub_at t = sub_at s \<and> sy_sub t = sy_sub s \<and> accepted t = accepted s
    \<and> free_list (sy_pool t) = free_list (sy_pool s) \<and> free_count (sy_pool t) = free_count (sy_pool s)"
proof -
  define a where "a = s\<lparr>sy_worker := (sy_worker s)
            \<lparr>total_queue_depth := total_queue_depth (sy_worker s) + mq_size (sy_queue s),
             queue_depth_samples := queue_depth_samples (sy_worker s) + 1\<rparr>, worker_at := W_Dequeue\<rparr>"
  have "worker_step s a" unfolding a_def by (rule w_sample [OF idle])
  moreover have "fst (mq_dequeue (sy_queue a)) = Some buf"
    using res q mq_dequeue_cases [of "sy_queue s"] by (simp add: a_def resources_ok_def)
  define b where "b = a\<lparr>sy_queue := snd (mq_dequeue (sy_queue a)), taken := taken a @ [buf_of a buf], worker_at := W_Stamp buf\<rparr>"
  have "worker_step a b"
    unfolding b_def using \<open>fst (mq_dequeue (sy_queue a)) = Some buf\<close>
    by (intro w_dequeue) (simp_all add: a_def prod_eq_iff)
  moreover define c where "c = b\<lparr>sy_pool := store (sy_pool b) buf ((buf_of b buf)\<lparr>worker_dequeue_time_ns := 0\<rparr>),
      worker_at := W_Check buf\<rparr>"
  have "worker_step b c" unfolding c_def by (rule w_stamp) (simp add: b_def)
  moreover have "buf \<in> pool_ptrs (sy_pool s)"
    using queue_not_held(2) [OF res, of buf] q by simp
  then have hd: "header (buf_of c buf) = header (buf_of s buf)" by (simp add: c_def b_def a_def)
  define d where "d = c\<lparr>sy_worker := snd (checkDuplicate (buf_of c buf) (sy_worker c)), worker_at := W_Process buf\<rparr>"
  have "worker_step c d"
    unfolding d_def using new hd
    by (intro w_new) (simp_all add: c_def b_def a_def prod_eq_iff checkDuplicate_simps)
  moreover define e where "e = d\<lparr>sy_dispatched := sy_dispatched d @ [dispatch_of (message_type (header (buf_of d buf)))],
          sy_calls := sy_calls d @ (if message_handler (sy_worker d) then [buf_of d buf] else []),
          sy_worker := (sy_worker d)
            \<lparr>total_processing_time_ns := total_processing_time_ns (sy_worker d) + 0,
             processing_count := processing_count (sy_worker d) + 1\<rparr>,
          worker_at := W_Monitor buf\<rparr>"
  have "worker_step d e" unfolding e_def by (rule w_process) (simp add: d_def)
  moreover define f where "f = e\<lparr>sy_stats := snd (sq_enqueue (sy_stats e) (stats_of (buf_of e buf))), worker_at := W_Release buf\<rparr>"
  have "worker_step e f" unfolding f_def by (rule w_monitor) (simp add: e_def)
  ultimately have run: "worker_step\<^sup>*\<^sup>* s f"
    by (meson converse_rtranclp_into_rtranclp rtranclp.rtrancl_refl)
  have "stats_of (buf_of e buf) = stats_of (buf_of s buf)"
    using hd by (intro stats_of_header) (simp add: e_def d_def)
  then have "sy_stats f = snd (sq_enqueue (sy_stats s) (stats_of (buf_of s buf)))"
    by (simp add: f_def) (simp add: e_def d_def c_def b_def a_def)
  moreover have "mq_contents (sy_queue f) = bufs"
    using mq_dequeue_cases [of "sy_queue s"] res q
    by (simp add: f_def e_def d_def c_def b_def) (simp add: a_def resources_ok_def)
  moreover have "worker_at f = W_Release buf \<and> taken f = taken s @ [buf_of s buf]
    \<and> sub_at f = sub_at s \<and> sy_sub f = sy_sub s \<and> accepted f = accepted s
    \<and> free_list (sy_pool f) = free_list (sy_pool s) \<and> free_count (sy_pool f) = free_count (sy_pool s)"
    by (simp add: f_def e_def d_def c_def b_def) (simp add: a_def)
  ultimately show ?thesis using run by blast
qed

section \<open>The system of \<open>main\<close>\<close>

text \<open>A pool of 1024 buffers, a message queue of 4096 slots and a statistics queue of 16384; \<open>base\<close>
  is the pool's address and \<open>junk\<close> the former content of its memory.\<close>

definition main_system :: "ptr \<Rightarrow> u8 list list \<Rightarrow> AeronSubscriber \<Rightarrow> MessageWorker \<Rightarrow> zc_system" where
  "main_system base junk sb k =
     zc_system_init sb (new_BufferPool base junk) (new_MessageQueue 4096) k
       (new_SPSCQueue 16384 default_MessageStats)"

definition main_memory :: "ptr \<Rightarrow> u8 list list \<Rightarrow> bool" where
  "main_memory base junk \<longleftrightarrow>
     0 < base \<and> length junk = 1024 \<and> (\<forall>j \<in> set junk. length j = MAX_PAYLOAD_SIZE)"

definition initial_window :: "SubscriberConfig \<Rightarrow> i64 list" where
  "initial_window cfg =
     (if duplicate_check_enabled cfg then replicate (unat (duplicate_window_size cfg)) (- 1) else [])"

lemma length_initial_window:
  "duplicate_check_enabled cfg \<Longrightarrow> length (initial_window cfg) = unat (duplicate_window_size cfg)"
  by (simp add: initial_window_def)

lemma started_system_ok:
  assumes mem: "main_memory base junk" and new: "new_AeronSubscriber cfg = Inr sb"
    and same: "config t = config sb" "duplicate_buffer t = duplicate_buffer sb"
      "duplicate_buffer_pos t = duplicate_buffer_pos sb"
    and counts: "zc_messages_received t = 0" "zc_queue_full_failures t = 0"
  shows "system_ok 1024 (initial_window cfg) (main_system base junk t k)"
proof -
  let ?s = "main_system base junk t k"
  have m: "0 < base" "length junk = 1024" "\<forall>j \<in> set junk. length j = MAX_PAYLOAD_SIZE"
    using mem by (simp_all add: main_memory_def)
  then have pool: "pool_inv (new_BufferPool base junk)" "owned (new_BufferPool base junk) = {}"
    using new_BufferPool_inv [of base junk] by (simp_all add: pool_size_ok_def)
  have size: "PoolSize (new_BufferPool base junk) = 1024"
    using m by (simp add: new_BufferPool_def PoolSize_def)
  have pow: "size_is_pow2 4096"
    by (simp add: size_is_pow2_def)
  have q: "mq_inv (new_MessageQueue 4096)" "mq_contents (new_MessageQueue 4096) = []"
    "mq_capacity (new_MessageQueue 4096) = 4095"
    by (simp_all add: mq_new_inv pow) (simp add: mq_capacity_def mq_Size_def new_MessageQueue_def)
  have "zc_inv ?s"
    using pool size q
    by (simp add: zc_inv_def resources_ok_def data_ok_def places_def main_system_def zc_system_init_def)
  moreover have "counted ?s" "checkpointed ?s" "handler_ok ?s"
    using counts by (simp_all add: counted_def checkpointed_def handler_ok_def main_system_def zc_system_init_def)
  moreover have "dedup.remembers (initial_window cfg) (numbers ?s) (sy_sub ?s)"
    if "initial_window cfg \<noteq> []"
  proof -
    have en: "duplicate_check_enabled cfg"
      using that by (auto simp: initial_window_def split: if_splits)
    note win = new_AeronSubscriber_window [OF new en]
    have "dedup.remembers (dup_window sb) [] t"
      by (rule remembers_same_window [OF dedup.remembers_start [OF win(1)] same])
    then show ?thesis
      using win(2) en by (simp add: numbers_def main_system_def zc_system_init_def initial_window_def)
  qed
  ultimately show ?thesis
    using counts size by (simp add: system_ok_def main_system_def zc_system_init_def)
qed

lemma main_system_ok:
  assumes mem: "main_memory base junk" and new: "new_AeronSubscriber cfg = Inr sb"
  shows "system_ok 1024 (initial_window cfg) (main_system base junk (sb\<lparr>sub_checkpoint := cp\<rparr>) k)"
proof -
  have "zc_messages_received sb = 0" "zc_queue_full_failures sb = 0"
    using new by (auto simp: new_AeronSubscriber_def Let_def default_AeronSubscriber_def split: if_splits)
  then show ?thesis by (intro started_system_ok [OF mem new]) simp_all
qed

lemma main_reachable_ok:
  "main_memory base junk \<Longrightarrow> new_AeronSubscriber cfg = Inr sb \<Longrightarrow>
   zc_reachable ar (main_system base junk (sb\<lparr>sub_checkpoint := cp\<rparr>) k) s \<Longrightarrow>
     system_ok 1024 (initial_window cfg) s"
  by (rule system_ok_reachable) (auto intro: main_system_ok)

text \<open>A run for the witnesses: one message through the subscriber.\<close>

definition example_memory :: "u8 list list" where
  "example_memory = replicate 1024 (replicate 4096 0)"

definition example_main :: zc_system where
  "example_main = main_system 64 example_memory
     (default_AeronSubscriber\<lparr>config := default_SubscriberConfig,
        duplicate_buffer := replicate 1000 (- 1), sub_checkpoint := Some example_checkpoint\<rparr>)
     new_MessageWorker"

lemma example_memory_ok: "main_memory 64 example_memory"
  by (simp add: main_memory_def example_memory_def MAX_PAYLOAD_SIZE_def)

lemma example_new:
  "new_AeronSubscriber default_SubscriberConfig =
     Inr (default_AeronSubscriber\<lparr>config := default_SubscriberConfig, duplicate_buffer := replicate 1000 (- 1)\<rparr>)"
  by (simp add: new_AeronSubscriber_def Let_def default_SubscriberConfig_def VECTOR_MAX_SIZE_def)

lemma example_main_eq:
  "example_main = main_system 64 example_memory
     ((default_AeronSubscriber\<lparr>config := default_SubscriberConfig,
        duplicate_buffer := replicate 1000 (- 1)\<rparr>)\<lparr>sub_checkpoint := Some example_checkpoint\<rparr>)
     new_MessageWorker"
  by (simp add: example_main_def)

lemma example_main_inv: "zc_inv example_main"
  using main_system_ok [OF example_memory_ok example_new] by (simp add: example_main_eq system_ok_def)

lemma example_main_outcome: "fast_path_outcome (world_of example_main) (example_message 5) = Accepted"
proof -
  have "mq_contents (sy_queue example_main) = []" "mq_capacity (sy_queue example_main) = 4095"
    by (simp_all add: example_main_def main_system_def zc_system_init_def)
       (simp add: mq_capacity_def mq_Size_def new_MessageQueue_def)
  then show ?thesis
    by (simp add: fast_path_outcome_def isDuplicate_def list_ex_iff)
       (simp add: example_main_def main_system_def zc_system_init_def new_BufferPool_def example_memory_def)
qed

lemma example_run:
  "\<exists>u. zc_reachable example_archive example_main u \<and> sub_at u = S_Idle \<and> length (accepted u) = 1
     \<and> sub_checkpoint (sy_sub u) \<noteq> None"
proof -
  have idle: "sub_at example_main = S_Idle" and acc: "accepted example_main = []"
    by (simp_all add: example_main_def main_system_def zc_system_init_def)
  have "sub_checkpoint (sub (handleMessageFastPath example_archive 9 10 (example_message 5) 4096
      (world_of example_main))) \<noteq> None"
    using fast_path_accepted [of "world_of example_main" "example_message 5"] example_main_outcome
      world_of_inv [OF example_main_inv]
    by (simp add: world_inv_def recordReception_checkpoint)
       (simp add: example_main_def main_system_def zc_system_init_def)
  moreover obtain u where u: "zc_reachable example_archive example_main u" "sub_at u = S_Idle"
    "world_of u = handleMessageFastPath example_archive 9 10 (example_message 5) 4096 (world_of example_main)"
    "length (accepted u) = 1"
    using message_call [OF zc_start example_main_inv idle, of example_archive 9 10 "example_message 5" 4096]
      example_main_outcome acc by auto
  moreover have "sy_sub u = sub (world_of u)" by simp
  ultimately show ?thesis by metis
qed

lemma accepted_isDuplicate:
  assumes "world_inv w" and "fast_path_outcome w d = Accepted" and "dup_inv (sub w)"
  shows "isDuplicate (sub (handleMessageFastPath ar t now d pos w)) n
    \<longleftrightarrow> n \<in> set (tl (dup_window (sub w) @ [number_of d]))"
proof -
  let ?s = "tracked ar (number_of d) (sub w)"
  have tr: "dedup.remembers (dup_window (sub w)) [number_of d] ?s"
    using tracked_remembers [OF dedup.remembers_start [OF assms(3)], of "number_of d" ar] assms(2)
    by (simp add: fast_path_outcome_def split: if_splits)
  have "sub (handleMessageFastPath ar t now d pos w) = recordReception now (number_of d) pos ?s"
    using fast_path_accepted [of w d ar t now pos] assms(1,2) by (simp add: world_inv_def)
  moreover have "isDuplicate (recordReception now (number_of d) pos ?s) = isDuplicate ?s"
    by (rule dup_cong(1)) simp_all
  moreover have "dup_window ?s = tl (dup_window (sub w) @ [number_of d])"
    using tr by (cases "dup_window (sub w)") (simp_all add: dedup.remembers_def del: length_dup_window)
  moreover have "dup_inv ?s"
    using tr by (simp add: dedup.remembers_def)
  ultimately show ?thesis
    by (simp only: isDuplicate_iff)
qed

lemma example_run_two:
  "\<exists>u. zc_reachable example_archive example_main u \<and> length (accepted u) = 2"
proof -
  let ?w = "world_of example_main"
  let ?w' = "handleMessageFastPath example_archive 9 10 (example_message 5) 4096 ?w"
  have idle: "sub_at example_main = S_Idle" and acc: "accepted example_main = []"
    by (simp_all add: example_main_def main_system_def zc_system_init_def)
  obtain u where u: "zc_reachable example_archive example_main u" "sub_at u = S_Idle"
    "world_of u = ?w'" "length (accepted u) = 1"
    using message_call [OF zc_start example_main_inv idle, of example_archive 9 10 "example_message 5" 4096]
      example_main_outcome acc by auto
  have inv: "zc_inv u"
    by (rule zc_reachable_inv [OF u(1) example_main_inv])
  note taken = fast_path_taken [OF world_of_inv [OF example_main_inv] example_main_outcome,
      of example_archive 9 10 4096]
  have win: "dup_inv (sub ?w)" "dup_window (sub ?w) = replicate 1000 (- 1)"
    by (simp_all add: example_main_def main_system_def zc_system_init_def dup_inv_def dup_window_def
        default_AeronSubscriber_def default_SubscriberConfig_def)
  have "\<not> isDuplicate (sub ?w') 6"
  proof
    assume "isDuplicate (sub ?w') 6"
    then have "(6 :: i64) \<in> set (tl (replicate 1000 (- 1) @ [5]))"
      using accepted_isDuplicate [OF world_of_inv [OF example_main_inv] example_main_outcome win(1),
          of example_archive 9 10 4096 6] win(2) by simp
    then have "(6 :: i64) \<in> set (replicate 1000 (- 1) @ [5])"
      by (rule list.set_sel(2) [rotated]) simp
    then show False by simp
  qed
  moreover have "free_count (bpool ?w') = 1023"
    using taken by (simp add: Let_def)
       (simp add: example_main_def main_system_def zc_system_init_def new_BufferPool_def example_memory_def)
  ultimately have "fast_path_outcome (world_of u) (example_message 6) = Accepted"
    using idle_not_full [OF inv u(2), of "example_message 6"] u(3)
    by (simp add: fast_path_outcome_def split: if_splits)
  with message_call [OF u(1) inv u(2), of 9 10 "example_message 6" 8192] u(4) show ?thesis
    by auto
qed

section \<open>Properties\<close>



text \<open>Backpressure cannot occur in the queue: it is larger than the pool, so whenever the subscriber
  is about to enqueue, the queue has room, and \<open>zc_queue_full_failures\<close> stays zero for ever.\<close>

theorem zc_queue_never_full:
  assumes "main_memory base junk" and "new_AeronSubscriber cfg = Inr sb"
    and "zc_reachable ar (main_system base junk (sb\<lparr>sub_checkpoint := cp\<rparr>) k) s"
  shows "zc_queue_full_failures (sy_sub s) = 0
     \<and> \<not> (sub_at s = S_Enqueue pos buf \<and> mq_full (sy_queue s))"
proof -
  have ok: "resources_ok s" "zc_queue_full_failures (sy_sub s) = 0"
    using main_reachable_ok [OF assms] by (simp_all add: system_ok_def zc_inv_def)
  then show ?thesis
    using queue_has_room [OF ok(1), of pos buf] mq_full_iff [of "sy_queue s"]
    by (auto simp: resources_ok_def)
qed

theorem zc_queue_never_full_witness:
  "\<exists>u. zc_reachable example_archive example_main u \<and> length (accepted u) = 1
     \<and> zc_queue_full_failures (sy_sub u) = 0"
proof -
  obtain u where u: "zc_reachable example_archive example_main u" "length (accepted u) = 1"
    using example_run by auto
  from zc_queue_never_full [OF example_memory_ok example_new u(1) [unfolded example_main_eq]] u
  show ?thesis by auto
qed



text \<open>C7: Duplicate suppression: two accepted messages that are at most the size of the duplicate
  window apart have different numbers, whatever arrives and however the threads interleave.\<close>

theorem zc_accepted_spaced:
  assumes "main_memory base junk" and "new_AeronSubscriber cfg = Inr sb"
    and "zc_reachable ar (main_system base junk (sb\<lparr>sub_checkpoint := cp\<rparr>) k) s"
    and "duplicate_check_enabled cfg" and "i < j" and "j < length (accepted s)"
    and "j - i \<le> unat (duplicate_window_size cfg)"
  shows "sequence_number (header (accepted s ! i)) \<noteq> sequence_number (header (accepted s ! j))"
proof
  assume same: "sequence_number (header (accepted s ! i)) = sequence_number (header (accepted s ! j))"
  have "initial_window cfg \<noteq> []"
    using assms(4,5,7) length_initial_window [of cfg] by auto
  then have "spaced (initial_window cfg) (numbers s)"
    using main_reachable_ok [OF assms(1-3)] by (simp add: system_ok_def dedup.remembers_def)
  moreover have "numbers s ! i = numbers s ! j" "j < length (numbers s)"
    using assms(5,6) same by (simp_all add: numbers_def nth_append)
  ultimately have "length (initial_window cfg) < j - i"
    using assms(5) by (intro spaced_distance)
  then show False
    using assms(7) by (simp add: length_initial_window assms(4))
qed

theorem zc_accepted_spaced_witness:
  "\<exists>u. zc_reachable example_archive example_main u \<and> length (accepted u) = 2
     \<and> sequence_number (header (accepted u ! 0)) \<noteq> sequence_number (header (accepted u ! 1))"
proof -
  obtain u where u: "zc_reachable example_archive example_main u" "length (accepted u) = 2"
    using example_run_two by auto
  have "sequence_number (header (accepted u ! 0)) \<noteq> sequence_number (header (accepted u ! 1))"
    by (rule zc_accepted_spaced [OF example_memory_ok example_new u(1) [unfolded example_main_eq]])
       (simp_all add: u(2) default_SubscriberConfig_def)
  with u show ?thesis by auto
qed

text \<open>C35: The checkpoint is exact although the subscriber reads the message's number again after it has
  handed the buffer over: between two messages the checkpoint has the number of the last
  message accepted and the count of all of them.\<close>

theorem zc_checkpoint_exact:
  assumes "main_memory base junk" and "new_AeronSubscriber cfg = Inr sb"
    and "zc_reachable ar (main_system base junk (sb\<lparr>sub_checkpoint := cp\<rparr>) k) s"
    and "sub_at s = S_Idle" and "accepted s \<noteq> []" and "sub_checkpoint (sy_sub s) = Some cm"
  shows "getLastSequence cm = sequence_number (header (last (accepted s)))
     \<and> getMessageCount cm = of_nat (length (accepted s))
     \<and> zc_messages_received (sy_sub s) = of_nat (length (accepted s))"
  using main_reachable_ok [OF assms(1-3)] assms(4-6)
  by (simp add: system_ok_def checkpointed_def counted_def)

theorem zc_checkpoint_exact_witness:
  "\<exists>u cm. zc_reachable example_archive example_main u \<and> sub_checkpoint (sy_sub u) = Some cm
     \<and> getMessageCount cm = 1"
proof -
  obtain u cm where u: "zc_reachable example_archive example_main u" "sub_at u = S_Idle"
    "length (accepted u) = 1" "sub_checkpoint (sy_sub u) = Some cm"
    using example_run by auto
  then have "accepted u \<noteq> []" by auto
  from zc_checkpoint_exact [OF example_memory_ok example_new u(1) [unfolded example_main_eq] u(2) this u(4)]
  show ?thesis
    using u by auto
qed

text \<open>C36: Refinement: the steps of the subscriber thread, run without interruption, have exactly the
  effect of \<open>handleMessageFastPath\<close> on subscriber, pool and queue, for every message and outcome.\<close>

theorem subscriber_steps_refine:
  assumes "zc_reachable ar s0 s" and "zc_inv s" and "sub_at s = S_Idle"
  shows "\<exists>u. zc_reachable ar s0 u \<and> sub_at u = S_Idle \<and> worker_at u = worker_at s
     \<and> \<lparr>sub = sy_sub u, bpool = sy_pool u, mqueue = sy_queue u\<rparr>
         = handleMessageFastPath ar t now d pos
             \<lparr>sub = sy_sub s, bpool = sy_pool s, mqueue = sy_queue s\<rparr>"
  using message_call [OF assms, of t now d pos] unfolding world_of_def by blast

theorem subscriber_steps_refine_witness:
  "\<exists>u. zc_reachable example_archive example_main u
     \<and> \<lparr>sub = sy_sub u, bpool = sy_pool u, mqueue = sy_queue u\<rparr>
         = handleMessageFastPath example_archive 9 10 (example_message 5) 4096
             \<lparr>sub = sy_sub example_main, bpool = sy_pool example_main, mqueue = sy_queue example_main\<rparr>"
proof -
  have "sub_at example_main = S_Idle"
    by (simp add: example_main_def main_system_def zc_system_init_def)
  from subscriber_steps_refine [OF zc_start example_main_inv this,
      of example_archive 9 10 "example_message 5" 4096]
  show ?thesis by blast
qed

end
