(* ===== verification/Recording_Controller.thy ===== *)
theory Recording_Controller
  imports Aeron_Config "HOL-Library.Sublist"
begin

text \<open>
  \<open>RecordingController\<close> (\<open>publisher/include/RecordingController.h\<close>,
  \<open>publisher/src/RecordingController.cpp\<close>): starting and stopping the recording of the
  publication. The archive is a server outside the repository, so what each call to it
  answers is an argument: the descriptors that a listing hands to its callback, possibly
  followed by an exception, and the results of starting and stopping.
\<close>

section \<open>The archive's answers\<close>

text \<open>The fields of a recording descriptor that the callbacks look at.\<close>

record recording_descriptor =
  rd_recordingId :: i64
  rd_stopTimestamp :: i64
  rd_sessionId :: i32
  rd_streamId :: i32

type_synonym listing = "recording_descriptor list \<times> exn option"

record start_script =
  list_existing :: listing
  start_result :: "exn + i64"
  list_any :: listing
  list_new :: listing
  list_retry :: listing

fun exn_what :: "exn \<Rightarrow> string" where
  "exn_what (Runtime_error m) = m"
| "exn_what (Sourced_exception m) = m"
| "exn_what _ = ''''"

section \<open>State\<close>

record RecordingController =
  rc_channel :: string
  rc_stream_id :: i32
  recording_id :: i64
  subscription_id :: i64

definition new_RecordingController :: "string \<Rightarrow> i32 \<Rightarrow> RecordingController" where
  "new_RecordingController channel streamId =
     \<lparr>rc_channel = channel, rc_stream_id = streamId, recording_id = - 1, subscription_id = - 1\<rparr>"

definition rc_isRecording :: "RecordingController \<Rightarrow> bool" where
  "rc_isRecording c \<longleftrightarrow> recording_id c \<noteq> - 1"


section \<open>The three callbacks\<close>

definition checkExistingRecording :: "recording_descriptor \<Rightarrow> RecordingController \<Rightarrow> RecordingController"
  where
  "checkExistingRecording d c =
     (if rd_streamId d = rc_stream_id c \<and> rd_stopTimestamp d = 0
      then c\<lparr>recording_id := rd_recordingId d, subscription_id := scast (rd_sessionId d)\<rparr> else c)"

definition findAnyRecording :: "recording_descriptor \<Rightarrow> RecordingController \<Rightarrow> RecordingController"
  where
  "findAnyRecording d c =
     (if rd_streamId d = rc_stream_id c then c\<lparr>recording_id := rd_recordingId d\<rparr> else c)"

definition recordingDescriptorConsumer ::
  "recording_descriptor \<Rightarrow> RecordingController \<Rightarrow> RecordingController" where
  "recordingDescriptorConsumer d c =
     (if rd_streamId d = rc_stream_id c \<and> rd_stopTimestamp d = 0
      then c\<lparr>recording_id := rd_recordingId d\<rparr> else c)"

text \<open>The callback runs for each descriptor listed, before the call returns or throws.\<close>

definition listRecordings ::
  "(recording_descriptor \<Rightarrow> RecordingController \<Rightarrow> RecordingController) \<Rightarrow> listing
    \<Rightarrow> RecordingController \<Rightarrow> exn option \<times> RecordingController" where
  "listRecordings callback l c = (snd l, fold callback (fst l) c)"

section \<open>Operations\<close>

text \<open>After the archive has accepted the recording: look its id up, twice at most.\<close>

definition find_new_recording :: "start_script \<Rightarrow> RecordingController \<Rightarrow> bool \<times> RecordingController"
  where
  "find_new_recording a c =
     (let (e1, c1) = listRecordings recordingDescriptorConsumer (list_new a) c
      in if e1 \<noteq> None then (False, c1)
         else if recording_id c1 = - 1 then
           let (e2, c2) = listRecordings recordingDescriptorConsumer (list_retry a) c1
           in if e2 \<noteq> None then (False, c2)
              else if recording_id c2 = - 1 then (False, c2)
              else (True, c2)
         else (True, c1))"

text \<open>After the archive has refused it: adopt an existing recording if that is the reason.\<close>

definition adopt_existing ::
  "start_script \<Rightarrow> exn \<Rightarrow> RecordingController \<Rightarrow> bool \<times> RecordingController" where
  "adopt_existing a e c =
     (if sublist ''recording exists'' (exn_what e) then
        let (e1, c1) = listRecordings findAnyRecording (list_any a) c
        in if e1 \<noteq> None then (False, c1)
           else if recording_id c1 \<noteq> - 1 then (True, c1)
           else (False, c1)
      else (False, c))"

definition rc_startRecording :: "start_script \<Rightarrow> RecordingController \<Rightarrow> bool \<times> RecordingController"
  where
  "rc_startRecording a c =
     (if rc_isRecording c then (False, c)
      else
        let (e, c1) = listRecordings checkExistingRecording (list_existing a) c
        in if e \<noteq> None then (False, c1)
           else if recording_id c1 \<noteq> - 1 then (True, c1)
           else
             (case start_result a of
                Inl err \<Rightarrow> adopt_existing a err c1
              | Inr sid \<Rightarrow> find_new_recording a (c1\<lparr>subscription_id := sid\<rparr>)))"

text \<open>The result of \<open>archive_->stopRecording(subscription_id_)\<close> is a function of the id.\<close>

definition rc_stopRecording ::
  "(i64 \<Rightarrow> exn option) \<Rightarrow> RecordingController \<Rightarrow> bool \<times> RecordingController" where
  "rc_stopRecording stop c =
     (if \<not> rc_isRecording c then (False, c)
      else case stop (subscription_id c) of
             Some e \<Rightarrow> (False, c)
           | None \<Rightarrow> (True, c\<lparr>recording_id := - 1, subscription_id := - 1\<rparr>))"

text \<open>The destructor.\<close>

definition delete_RecordingController ::
  "(i64 \<Rightarrow> exn option) \<Rightarrow> RecordingController \<Rightarrow> RecordingController" where
  "delete_RecordingController stop c =
     (if rc_isRecording c then snd (rc_stopRecording stop c) else c)"

section \<open>Lemmas\<close>

lemma fold_consumer_stream:
  "rc_stream_id (fold checkExistingRecording ds c) = rc_stream_id c"
  "rc_stream_id (fold findAnyRecording ds c) = rc_stream_id c"
  "rc_stream_id (fold recordingDescriptorConsumer ds c) = rc_stream_id c"
  by (induction ds arbitrary: c)
     (simp_all add: checkExistingRecording_def findAnyRecording_def recordingDescriptorConsumer_def)

text \<open>A callback takes the last matching descriptor.\<close>

definition active_of :: "i32 \<Rightarrow> recording_descriptor list \<Rightarrow> recording_descriptor list" where
  "active_of sid ds = filter (\<lambda>d. rd_streamId d = sid \<and> rd_stopTimestamp d = 0) ds"

lemma fold_recordingDescriptorConsumer:
  "fold recordingDescriptorConsumer ds c =
     (if active_of (rc_stream_id c) ds = [] then c
      else c\<lparr>recording_id := rd_recordingId (last (active_of (rc_stream_id c) ds))\<rparr>)"
  by (induction ds arbitrary: c) (simp_all add: recordingDescriptorConsumer_def active_of_def)

lemma fold_checkExistingRecording:
  "fold checkExistingRecording ds c =
     (if active_of (rc_stream_id c) ds = [] then c
      else c\<lparr>recording_id := rd_recordingId (last (active_of (rc_stream_id c) ds)),
             subscription_id := scast (rd_sessionId (last (active_of (rc_stream_id c) ds)))\<rparr>)"
  by (induction ds arbitrary: c) (simp_all add: checkExistingRecording_def active_of_def)

lemma fold_findAnyRecording:
  "fold findAnyRecording ds c =
     (let ms = filter (\<lambda>d. rd_streamId d = rc_stream_id c) ds
      in if ms = [] then c else c\<lparr>recording_id := rd_recordingId (last ms)\<rparr>)"
  by (induction ds arbitrary: c) (simp_all add: findAnyRecording_def Let_def)


lemmas rc_folds = fold_recordingDescriptorConsumer fold_checkExistingRecording fold_findAnyRecording

lemma last_filter:
  assumes "filter P xs \<noteq> []"
  shows "last (filter P xs) \<in> set xs" "P (last (filter P xs))"
  using last_in_set [OF assms] by auto

lemma last_active_of:
  "active_of sid ds \<noteq> [] \<Longrightarrow> last (active_of sid ds) \<in> set ds
     \<and> rd_streamId (last (active_of sid ds)) = sid"
  unfolding active_of_def using last_filter by fast

text \<open>
  Where a recording id can come from: \<open>taken c0 ds c\<close> says that the controller still has the id
  of \<open>c0\<close>, or that of a listed descriptor of its own stream.
\<close>

definition taken :: "RecordingController \<Rightarrow> recording_descriptor set \<Rightarrow> RecordingController \<Rightarrow> bool" where
  "taken c0 ds c \<longleftrightarrow>
     rc_stream_id c = rc_stream_id c0 \<and> rc_channel c = rc_channel c0
     \<and> (recording_id c = recording_id c0
        \<or> (\<exists>d \<in> ds. rd_streamId d = rc_stream_id c0 \<and> rd_recordingId d = recording_id c))"


lemma taken_subscription [simp]:
  "taken c0 ds (c\<lparr>subscription_id := x\<rparr>) = taken c0 ds c"
  "taken c0 ds (c\<lparr>recording_id := r, subscription_id := x\<rparr>) = taken c0 ds (c\<lparr>recording_id := r\<rparr>)"
  by (simp_all add: taken_def)



definition listed :: "start_script \<Rightarrow> recording_descriptor set" where
  "listed a = set (fst (list_existing a)) \<union> set (fst (list_any a)) \<union> set (fst (list_new a))
     \<union> set (fst (list_retry a))"




lemma rc_startRecording_success:
  "fst (rc_startRecording a c) \<Longrightarrow> rc_isRecording (snd (rc_startRecording a c))"
  by (cases "start_result a")
     (auto simp: rc_startRecording_def adopt_existing_def find_new_recording_def rc_isRecording_def
       listRecordings_def split: if_splits)

text \<open>No listing of the call threw.\<close>

definition listings_complete :: "start_script \<Rightarrow> bool" where
  "listings_complete a \<longleftrightarrow> snd (list_existing a) = None \<and> snd (list_any a) = None
     \<and> snd (list_new a) = None \<and> snd (list_retry a) = None"


section \<open>Starting and stopping\<close>

definition example_controller :: RecordingController where
  "example_controller = new_RecordingController PUBLICATION_CHANNEL PUBLICATION_STREAM_ID"

text \<open>A descriptor as the archive reports it: the stop time of an active recording is the
  client's null timestamp, which is \<open>-1\<close>.\<close>

definition example_descriptor :: "i64 \<Rightarrow> i64 \<Rightarrow> recording_descriptor" where
  "example_descriptor rid stop =
     \<lparr>rd_recordingId = rid, rd_stopTimestamp = stop, rd_sessionId = 77, rd_streamId = 10\<rparr>"

definition example_script :: "exn + i64 \<Rightarrow> start_script" where
  "example_script r =
     \<lparr>list_existing = ([example_descriptor 4 1700], None), start_result = r,
      list_any = ([example_descriptor 4 1700, example_descriptor 5 (- 1)], None),
      list_new = ([example_descriptor 4 1700, example_descriptor 5 (- 1)], None),
      list_retry = ([example_descriptor 4 1700, example_descriptor 5 (- 1)], None)\<rparr>"

lemmas example_rc_defs = example_controller_def example_descriptor_def example_script_def
  new_RecordingController_def rc_isRecording_def listRecordings_def PUBLICATION_STREAM_ID_def



lemma no_active_fold:
  assumes "\<forall>d \<in> set ds. rd_stopTimestamp d \<noteq> 0"
  shows "fold recordingDescriptorConsumer ds c = c" "fold checkExistingRecording ds c = c"
proof -
  have "active_of (rc_stream_id c) ds = []"
    using assms by (auto simp: active_of_def filter_empty_conv)
  then show "fold recordingDescriptorConsumer ds c = c" "fold checkExistingRecording ds c = c"
    by (simp_all add: rc_folds)
qed

text \<open>A recording that was started and is lost. The code takes a descriptor for active when its
  stop time is 0; the archive client reports the null timestamp \<open>-1\<close> for a running recording,
  so no listed descriptor has stop time 0. Then an accepted start is answered with false, the
  controller keeps the subscription id but not the recording id, and \<open>stopRecording\<close> and the
  destructor refuse to stop what the archive is recording.\<close>
theorem started_recording_lost:
  assumes "\<not> rc_isRecording c" and "\<forall>d \<in> listed a. rd_stopTimestamp d \<noteq> 0"
    and "listings_complete a" and "start_result a = Inr sid"
  shows "rc_startRecording a c = (False, c\<lparr>subscription_id := sid\<rparr>)
    \<and> rc_stopRecording stop (snd (rc_startRecording a c)) = (False, c\<lparr>subscription_id := sid\<rparr>)
    \<and> delete_RecordingController stop (snd (rc_startRecording a c)) = c\<lparr>subscription_id := sid\<rparr>"
proof -
  have s: "rc_startRecording a c = (False, c\<lparr>subscription_id := sid\<rparr>)"
    using assms no_active_fold
    by (simp add: rc_startRecording_def find_new_recording_def listRecordings_def
        listings_complete_def listed_def rc_isRecording_def)
  show ?thesis
    using assms(1) by (simp add: s rc_stopRecording_def delete_RecordingController_def rc_isRecording_def)
qed

theorem started_recording_lost_witness:
  "rc_startRecording (example_script (Inr 33)) example_controller
     = (False, example_controller\<lparr>subscription_id := 33\<rparr>)"
  by (rule started_recording_lost [THEN conjunct1])
    (auto simp: example_rc_defs listed_def listings_complete_def)

text \<open>An adopted recording cannot be stopped by its subscription. When the archive refuses the
  start because a recording exists, the recording id is taken from the listing but the
  subscription id stays \<open>-1\<close>; \<open>stopRecording\<close> then asks the archive to stop subscription
  \<open>-1\<close>, and while the archive answers that with an exception, every call of \<open>stopRecording\<close>
  and the destructor leave the controller recording.\<close>
theorem adopted_recording_not_stopped:
  assumes "\<not> rc_isRecording c" and "subscription_id c = - 1"
    and "list_existing a = ([], None)" and "start_result a = Inl e"
    and "sublist ''recording exists'' (exn_what e)"
    and "fst (rc_startRecording a c)" and "stop (- 1) = Some err"
  shows "rc_isRecording (snd (rc_startRecording a c))
    \<and> ((snd \<circ> rc_stopRecording stop) ^^ n) (snd (rc_startRecording a c)) = snd (rc_startRecording a c)
    \<and> rc_isRecording (delete_RecordingController stop (snd (rc_startRecording a c)))"
proof -
  let ?c = "snd (rc_startRecording a c)"
  have r: "rc_isRecording ?c" using assms(6) by (rule rc_startRecording_success)
  have "subscription_id ?c = - 1"
    using assms(1-5)
    by (simp add: rc_startRecording_def listRecordings_def adopt_existing_def rc_isRecording_def
        fold_findAnyRecording Let_def)
  then have s: "rc_stopRecording stop ?c = (False, ?c)"
    using r assms(7) by (simp add: rc_stopRecording_def)
  then have "((snd \<circ> rc_stopRecording stop) ^^ n) ?c = ?c"
    by (induction n) simp_all
  with s r show ?thesis
    by (simp add: delete_RecordingController_def)
qed

theorem adopted_recording_not_stopped_witness:
  "let a = (example_script (Inl (Runtime_error ''recording exists'')))\<lparr>list_existing := ([], None)\<rparr>
   in rc_isRecording (snd (rc_startRecording a example_controller))"
proof -
  let ?a = "(example_script (Inl (Runtime_error ''recording exists'')))\<lparr>list_existing := ([], None)\<rparr>"
  have "rc_isRecording (snd (rc_startRecording ?a example_controller))"
    by (rule adopted_recording_not_stopped [where e = "Runtime_error ''recording exists''"
          and stop = "\<lambda>_. Some Out_of_range" and err = Out_of_range, THEN conjunct1])
      (simp_all add: example_rc_defs rc_startRecording_def adopt_existing_def findAnyRecording_def)
  then show ?thesis by simp
qed

end
