(* ===== verification/Polling.thy ===== *)
theory Polling
  imports Aeron_Config
begin

text \<open>
  The waiting loops \<open>while (!x) { sleep; x = poll(); }\<close> of the publisher and the subscriber. The
  loop has no bound: it is a partial function, whose value is \<open>None\<close> exactly when the loop never
  ends. What the \<open>k\<close>-th poll answers, an exception or whether the resource is there, is an
  argument.
\<close>

partial_function (option) wait_for :: "(nat \<Rightarrow> exn + bool) \<Rightarrow> nat \<Rightarrow> (exn + nat) option" where
  "wait_for poll n =
     (case poll n of
        Inl e \<Rightarrow> Some (Inl e)
      | Inr found \<Rightarrow> if found then Some (Inr n) else wait_for poll (n + 1))"

text \<open>The result of the poll that ends the loop.\<close>

definition poll_result :: "(nat \<Rightarrow> exn + bool) \<Rightarrow> nat \<Rightarrow> exn + nat" where
  "poll_result poll k = (case poll k of Inl e \<Rightarrow> Inl e | Inr b \<Rightarrow> Inr k)"

lemma wait_for_skip:
  "(\<And>i. n \<le> i \<Longrightarrow> i < n + d \<Longrightarrow> poll i = Inr False) \<Longrightarrow> wait_for poll n = wait_for poll (n + d)"
proof (induction d arbitrary: n)
  case 0
  then show ?case by simp
next
  case (Suc d)
  have "wait_for poll n = wait_for poll (n + 1)"
    using Suc.prems [of n] by (subst wait_for.simps) simp
  also have "\<dots> = wait_for poll (n + 1 + d)"
    by (rule Suc.IH) (use Suc.prems in auto)
  finally show ?case by simp
qed

lemma wait_for_first:
  assumes "n \<le> k" and "poll k \<noteq> Inr False" and "\<And>i. n \<le> i \<Longrightarrow> i < k \<Longrightarrow> poll i = Inr False"
  shows "wait_for poll n = Some (poll_result poll k)"
proof -
  have "wait_for poll n = wait_for poll k"
    using wait_for_skip [of n "k - n" poll] assms(1,3) by simp
  also have "\<dots> = Some (poll_result poll k)"
    using assms(2) by (subst wait_for.simps) (auto simp: poll_result_def split: sum.split)
  finally show ?thesis .
qed

text \<open>What is known of a poll whose loop has ended.\<close>

definition first_answer :: "(nat \<Rightarrow> exn + bool) \<Rightarrow> nat \<Rightarrow> exn + nat \<Rightarrow> bool" where
  "first_answer poll n r \<longleftrightarrow>
     (\<exists>k\<ge>n. poll k \<noteq> Inr False \<and> (\<forall>i. n \<le> i \<and> i < k \<longrightarrow> poll i = Inr False)
        \<and> r = poll_result poll k)"

lemma first_answer_here:
  "poll n \<noteq> Inr False \<Longrightarrow> r = poll_result poll n \<Longrightarrow> first_answer poll n r"
  unfolding first_answer_def by (intro exI [of _ n]) auto

lemma first_answer_next:
  assumes "poll n = Inr False" and "first_answer poll (n + 1) r"
  shows "first_answer poll n r"
proof -
  obtain k where k: "n + 1 \<le> k" "poll k \<noteq> Inr False"
      "\<forall>i. n + 1 \<le> i \<and> i < k \<longrightarrow> poll i = Inr False" "r = poll_result poll k"
    using assms(2) unfolding first_answer_def by blast
  have "poll i = Inr False" if "n \<le> i" "i < k" for i
    using assms(1) k(3) that by (cases "i = n") auto
  with k show ?thesis unfolding first_answer_def by (intro exI [of _ k]) auto
qed

lemma wait_for_SomeD: "wait_for poll n = Some r \<Longrightarrow> first_answer poll n r"
proof (erule wait_for.raw_induct [where P = first_answer, rotated])
  fix w :: "(nat \<Rightarrow> exn + bool) \<Rightarrow> nat \<Rightarrow> (exn + nat) option" and poll n r
  assume IH: "\<And>poll n r. w poll n = Some r \<Longrightarrow> first_answer poll n r"
    and r: "(case poll n of Inl e \<Rightarrow> Some (Inl e)
      | Inr found \<Rightarrow> if found then Some (Inr n) else w poll (n + 1)) = Some r"
  show "first_answer poll n r"
  proof (cases "poll n = Inr False")
    case True
    with r have "first_answer poll (n + 1) r" by (intro IH) simp
    with True show ?thesis by (rule first_answer_next)
  next
    case False
    with r show ?thesis
      by (intro first_answer_here) (auto simp: poll_result_def split: sum.splits if_splits)
  qed
qed

lemma wait_for_None_iff: "wait_for poll n = None \<longleftrightarrow> (\<forall>k\<ge>n. poll k = Inr False)"
proof
  assume none: "wait_for poll n = None"
  show "\<forall>k\<ge>n. poll k = Inr False"
  proof (rule ccontr)
    assume "\<not> (\<forall>k\<ge>n. poll k = Inr False)"
    then have ex: "\<exists>k. n \<le> k \<and> poll k \<noteq> Inr False" by blast
    define k where "k = (LEAST k. n \<le> k \<and> poll k \<noteq> Inr False)"
    have "n \<le> k \<and> poll k \<noteq> Inr False"
      unfolding k_def using ex by (rule LeastI_ex)
    moreover have "poll i = Inr False" if "n \<le> i" "i < k" for i
      using that not_less_Least [of i] unfolding k_def by blast
    ultimately show False
      using none wait_for_first [of n k poll] by simp
  qed
next
  assume "\<forall>k\<ge>n. poll k = Inr False"
  then show "wait_for poll n = None"
    using wait_for_SomeD [of poll n] by (cases "wait_for poll n") (auto simp: first_answer_def)
qed

lemma wait_for_Inr_iff:
  "wait_for poll 0 = Some (Inr k) \<longleftrightarrow> poll k = Inr True \<and> (\<forall>i<k. poll i = Inr False)"
proof
  assume "wait_for poll 0 = Some (Inr k)"
  then obtain j where j: "poll j \<noteq> Inr False" "\<forall>i<j. poll i = Inr False" "Inr k = poll_result poll j"
    using wait_for_SomeD by (fastforce simp: first_answer_def)
  then show "poll k = Inr True \<and> (\<forall>i<k. poll i = Inr False)"
    by (cases "poll j") (auto simp: poll_result_def)
next
  assume "poll k = Inr True \<and> (\<forall>i<k. poll i = Inr False)"
  then show "wait_for poll 0 = Some (Inr k)"
    using wait_for_first [of 0 k poll] by (simp add: poll_result_def)
qed

lemma wait_for_Inl_iff:
  "wait_for poll 0 = Some (Inl e) \<longleftrightarrow> (\<exists>k. poll k = Inl e \<and> (\<forall>i<k. poll i = Inr False))"
proof
  assume "wait_for poll 0 = Some (Inl e)"
  then obtain j where j: "poll j \<noteq> Inr False" "\<forall>i<j. poll i = Inr False" "Inl e = poll_result poll j"
    using wait_for_SomeD by (fastforce simp: first_answer_def)
  then show "\<exists>k. poll k = Inl e \<and> (\<forall>i<k. poll i = Inr False)"
    by (cases "poll j") (auto simp: poll_result_def)
next
  assume "\<exists>k. poll k = Inl e \<and> (\<forall>i<k. poll i = Inr False)"
  then obtain k where "poll k = Inl e" "\<forall>i<k. poll i = Inr False" by blast
  then show "wait_for poll 0 = Some (Inl e)"
    using wait_for_first [of 0 k poll] by (simp add: poll_result_def)
qed

section \<open>Receiving fragments\<close>

text \<open>
  The contract of a receiver that is polled again and again: in a state in which it is ready, a
  poll hands the delivered fragments one after the other to the handler and leaves the receiver
  ready. \<open>view\<close> is what the handler works on, \<open>good\<close> says which polls end well.
\<close>

locale fragment_receiver =
  fixes poll :: "'i \<Rightarrow> 's \<Rightarrow> 's"
    and delivered :: "'i \<Rightarrow> 'f list"
    and good :: "'i \<Rightarrow> bool"
    and ready :: "'s \<Rightarrow> bool"
    and handle :: "'f \<Rightarrow> 'w \<Rightarrow> 'w"
    and view :: "'s \<Rightarrow> 'w"
  assumes poll_ready: "ready s \<Longrightarrow> good i \<Longrightarrow> ready (poll i s)"
    and poll_view: "ready s \<Longrightarrow> good i \<Longrightarrow> view (poll i s) = fold handle (delivered i) (view s)"
begin

lemma polls_ready: "ready s \<Longrightarrow> list_all good xs \<Longrightarrow> ready (fold poll xs s)"
  by (induction xs arbitrary: s) (simp_all add: poll_ready)

lemma polls_view:
  "ready s \<Longrightarrow> list_all good xs \<Longrightarrow>
   view (fold poll xs s) = fold handle (concat (map delivered xs)) (view s)"
  by (induction xs arbitrary: s) (simp_all add: poll_ready poll_view)

lemma polls_append:
  "ready s \<Longrightarrow> list_all good xs \<Longrightarrow> list_all good ys \<Longrightarrow>
   view (fold poll (xs @ ys) s)
     = fold handle (concat (map delivered ys)) (fold handle (concat (map delivered xs)) (view s))"
  by (simp add: polls_ready polls_view)

end

end
