(* ===== verification/Text.thy ===== *)
theory Text
  imports Aeron_Config "HOL-Library.Sublist"
begin

text \<open>
  The operations of \<open>std::string\<close> and of the C library that the program uses on text: searching,
  cutting, trimming, and the conversions between numbers and their decimal images. Strings are
  lists of characters; \<open>std::string::npos\<close> is \<open>None\<close>.
\<close>

section \<open>Searching and cutting\<close>

text \<open>\<open>s.find(pat, pos)\<close>: the first position from \<open>pos\<close> on at which \<open>pat\<close> occurs.\<close>

fun find_from :: "string \<Rightarrow> string \<Rightarrow> nat \<Rightarrow> nat option" where
  "find_from pat [] k = (if pat = [] then Some k else None)"
| "find_from pat (c # cs) k = (if prefix pat (c # cs) then Some k else find_from pat cs (k + 1))"

definition str_find :: "string \<Rightarrow> string \<Rightarrow> nat \<Rightarrow> nat option" where
  "str_find s pat pos = (if length s < pos then None else find_from pat (drop pos s) pos)"

definition substr :: "string \<Rightarrow> nat \<Rightarrow> nat \<Rightarrow> string" where
  "substr s pos n = take n (drop pos s)"

text \<open>\<open>isspace\<close> and \<open>isdigit\<close> in the C locale.\<close>

definition is_space :: "char \<Rightarrow> bool" where
  "is_space c \<longleftrightarrow> c \<in> {CHR 0x20, CHR 0x09, CHR 0x0A, CHR 0x0B, CHR 0x0C, CHR 0x0D}"

definition is_digit :: "char \<Rightarrow> bool" where
  "is_digit c \<longleftrightarrow> 48 \<le> (of_char c :: nat) \<and> (of_char c :: nat) \<le> 57"

definition digit_value :: "char \<Rightarrow> nat" where
  "digit_value c = of_char c - 48"

section \<open>Numbers\<close>

text \<open>\<open>%llu\<close>\<close>

fun decimal :: "nat \<Rightarrow> string" where
  "decimal n =
     (if n < 10 then [char_of (48 + n)] else decimal (n div 10) @ [char_of (48 + n mod 10)])"

declare decimal.simps [simp del]

definition digits_value :: "string \<Rightarrow> nat" where
  "digits_value ds = foldl (\<lambda>v c. 10 * v + digit_value c) 0 ds"

text \<open>
  \<open>strtoll(s, end, 10)\<close> before its value is clamped: white space, a sign, then as many digits as
  there are; \<open>None\<close> when there is no digit. What follows the digits is ignored.
\<close>

definition strtol_int :: "string \<Rightarrow> int option" where
  "strtol_int s =
     (let t = dropWhile is_space s;
          (negative, u) = (case t of
              [] \<Rightarrow> (False, t)
            | c # cs \<Rightarrow> if c = CHR ''-'' then (True, cs) else if c = CHR ''+'' then (False, cs) else (False, t));
          ds = takeWhile is_digit u
      in if ds = [] then None
         else Some (if negative then - int (digits_value ds) else int (digits_value ds)))"

definition stoll :: "string \<Rightarrow> exn + i64" where
  "stoll s =
     (case strtol_int s of
        None \<Rightarrow> Inl Invalid_argument
      | Some v \<Rightarrow> if - (2 ^ 63) \<le> v \<and> v < 2 ^ 63 then Inr (word_of_int v) else Inl Out_of_range)"

definition stoi :: "string \<Rightarrow> exn + i32" where
  "stoi s =
     (case strtol_int s of
        None \<Rightarrow> Inl Invalid_argument
      | Some v \<Rightarrow> if - (2 ^ 31) \<le> v \<and> v < 2 ^ 31 then Inr (word_of_int v) else Inl Out_of_range)"

text \<open>
  \<open>atoi\<close>: the value of \<open>strtol\<close>, clamped to 64 bits, as the C library converts it to an \<open>int\<close>; 0
  when there is no number.
\<close>

definition atoi :: "string \<Rightarrow> i32" where
  "atoi s =
     (case strtol_int s of
        None \<Rightarrow> 0
      | Some v \<Rightarrow> word_of_int (max (- (2 ^ 63)) (min (2 ^ 63 - 1) v)))"

section \<open>The decimal image\<close>

lemma length_decimal: "n < 10 ^ k \<Longrightarrow> 0 < k \<Longrightarrow> length (decimal n) \<le> k"
proof (induction n arbitrary: k rule: decimal.induct)
  case (1 n)
  show ?case
  proof (cases "n < 10")
    case True
    then show ?thesis using 1 by (simp add: decimal.simps)
  next
    case False
    then obtain j where k: "k = Suc j" "0 < j"
      using 1 by (cases k; cases "k = 1") auto
    then have "length (decimal (n div 10)) \<le> j"
      using 1 False by (intro "1.IH") (auto simp: less_mult_imp_div_less)
    with False k show ?thesis by (subst decimal.simps) simp
  qed
qed

lemma digit_char:
  assumes "d < 10"
  shows "is_digit (char_of (48 + d :: nat))" "digit_value (char_of (48 + d :: nat)) = d"
  using assms by (simp_all add: is_digit_def digit_value_def)

lemma decimal_digits: "\<forall>c \<in> set (decimal n). is_digit c"
proof (induction n rule: decimal.induct)
  case (1 n)
  then show ?case by (subst decimal.simps) (simp add: digit_char)
qed

lemma decimal_not_Nil [simp]: "decimal n \<noteq> []"
  by (subst decimal.simps) simp

lemma digits_value_snoc: "digits_value (ds @ [c]) = 10 * digits_value ds + digit_value c"
  by (simp add: digits_value_def)

lemma digits_value_decimal [simp]: "digits_value (decimal n) = n"
proof (induction n rule: decimal.induct)
  case (1 n)
  show ?case
  proof (cases "n < 10")
    case True
    then show ?thesis
      by (subst decimal.simps) (simp add: digits_value_def digit_char)
  next
    case False
    then show ?thesis
      using 1 by (subst decimal.simps) (simp add: digits_value_snoc digit_char)
  qed
qed

lemma is_digit_not:
  assumes "is_digit c"
  shows "\<not> is_space c" "c \<noteq> CHR ''-''" "c \<noteq> CHR ''+''" "c \<noteq> CHR '' ''"
  using assms by (auto simp: is_digit_def is_space_def)

lemma takeWhile_digits:
  assumes "\<forall>c \<in> set ds. is_digit c" and "rest = [] \<or> \<not> is_digit (hd rest)"
  shows "takeWhile is_digit (ds @ rest) = ds"
  using assms by (cases rest) (auto simp: takeWhile_append)

lemma strtol_decimal:
  assumes "rest = [] \<or> \<not> is_digit (hd rest)"
  shows "strtol_int (decimal n @ rest) = Some (int n)"
    "strtol_int (CHR ''-'' # decimal n @ rest) = Some (- int n)"
proof -
  obtain c cs where d: "decimal n = c # cs" by (cases "decimal n") simp_all
  have c: "is_digit c" using decimal_digits [of n] by (simp add: d)
  have t: "takeWhile is_digit (decimal n @ rest) = decimal n"
    using decimal_digits assms by (rule takeWhile_digits)
  show "strtol_int (decimal n @ rest) = Some (int n)"
    using is_digit_not [OF c] t by (simp add: strtol_int_def Let_def d del: takeWhile.simps)
        (simp flip: d)
  show "strtol_int (CHR ''-'' # decimal n @ rest) = Some (- int n)"
    using t by (simp add: strtol_int_def is_space_def)
qed

section \<open>Searching\<close>

lemma find_from_None:
  "find_from pat s k = None \<longleftrightarrow> \<not> sublist pat s"
  by (induction s arbitrary: k) (auto simp: sublist_Cons_right)

lemma find_from_skip:
  assumes "\<forall>c \<in> set xs. c \<noteq> d"
  shows "find_from (d # pat) (xs @ ys) k = find_from (d # pat) ys (k + length xs)"
  using assms by (induction xs arbitrary: k) auto

lemma find_from_here: "pat \<noteq> [] \<Longrightarrow> find_from pat (pat @ s) k = Some k"
  by (cases pat) (auto simp: prefix_def)

end
