(* ===== verification/Publisher.thy ===== *)
theory Publisher
  imports Recording_Controller Polling Text Message_Buffer
begin

text \<open>
  \<open>AeronPublisher\<close> (\<open>publisher/include/AeronPublisher.h\<close>, \<open>publisher/src/AeronPublisher.cpp\<close>):
  configuration, initialisation, the frame that the publishing thread builds, \<open>publish\<close>, the
  recording operations and shutdown. The transport is a parameter: what \<open>Publication::offer\<close>
  returns, whether a publication is found, and which exceptions the client library throws.
\<close>

section \<open>Configuration and state\<close>

record PublisherConfig =
  pc_aeron_dir :: string
  pc_publication_channel :: string
  pc_publication_stream_id :: i32
  pc_archive_control_request_channel :: string
  pc_archive_control_response_channel :: string
  message_interval_ms :: i32
  auto_record :: bool

definition default_PublisherConfig :: PublisherConfig where
  "default_PublisherConfig =
     \<lparr>pc_aeron_dir = ''/dev/shm/aeron'',
      pc_publication_channel = ''aeron:udp?endpoint=localhost:40456'',
      pc_publication_stream_id = 10,
      pc_archive_control_request_channel = ''aeron:udp?endpoint=localhost:8010'',
      pc_archive_control_response_channel = ''aeron:udp?endpoint=localhost:0'',
      message_interval_ms = 100, auto_record = False\<rparr>"

text \<open>
  The shared pointers to library objects are modelled by whether they are set; the contexts by
  the settings they were given.
\<close>

record AeronPublisher =
  pub_config :: PublisherConfig
  pub_context :: "string option"
  pub_aeron :: bool
  pub_publication :: bool
  pub_archive_context :: "(string \<times> string) option"
  pub_archive :: bool
  recording_controller :: "RecordingController option"
  pub_running :: bool
  pub_message_count :: i64

definition new_AeronPublisher :: "PublisherConfig \<Rightarrow> AeronPublisher" where
  "new_AeronPublisher cfg =
     \<lparr>pub_config = cfg, pub_context = None, pub_aeron = False, pub_publication = False,
      pub_archive_context = None, pub_archive = False, recording_controller = None,
      pub_running = False, pub_message_count = 0\<rparr>"

section \<open>Recording\<close>

definition pub_startRecording :: "start_script \<Rightarrow> AeronPublisher \<Rightarrow> bool \<times> AeronPublisher" where
  "pub_startRecording a p =
     (case recording_controller p of
        None \<Rightarrow> (False, p)
      | Some c \<Rightarrow>
          (let (ok, c') = rc_startRecording a c in (ok, p\<lparr>recording_controller := Some c'\<rparr>)))"

definition pub_stopRecording :: "(i64 \<Rightarrow> exn option) \<Rightarrow> AeronPublisher \<Rightarrow> bool \<times> AeronPublisher" where
  "pub_stopRecording stop p =
     (case recording_controller p of
        None \<Rightarrow> (False, p)
      | Some c \<Rightarrow>
          (let (ok, c') = rc_stopRecording stop c in (ok, p\<lparr>recording_controller := Some c'\<rparr>)))"

definition pub_isRecording :: "AeronPublisher \<Rightarrow> bool" where
  "pub_isRecording p =
     (case recording_controller p of None \<Rightarrow> False | Some c \<Rightarrow> rc_isRecording c)"

section \<open>Initialisation\<close>

text \<open>What the client library answers during \<open>initialize\<close>, in the order of the calls.\<close>

record publisher_env =
  pe_connect :: "exn option"
  pe_addPublication :: "exn + i64"
  pe_findPublication :: "i64 \<Rightarrow> nat \<Rightarrow> exn + bool"
  pe_archive_connect :: "exn option"
  pe_start :: start_script

text \<open>The tail of \<open>initialize\<close>, from the archive context on.\<close>

definition connect_archive :: "publisher_env \<Rightarrow> AeronPublisher \<Rightarrow> bool \<times> AeronPublisher" where
  "connect_archive env p =
     (let p1 = p\<lparr>pub_archive_context :=
                   Some (pc_archive_control_request_channel (pub_config p),
                         pc_archive_control_response_channel (pub_config p))\<rparr>
      in case pe_archive_connect env of
           Some e \<Rightarrow> (False, p1)
         | None \<Rightarrow>
             let p2 = p1\<lparr>pub_archive := True,
                    recording_controller :=
                      Some (new_RecordingController (pc_publication_channel (pub_config p))
                              (pc_publication_stream_id (pub_config p))),
                    pub_running := True\<rparr>
             in if auto_record (pub_config p2)
                then (True, snd (pub_startRecording (pe_start env) p2))
                else (True, p2))"

text \<open>The result is \<open>None\<close> when the loop that waits for the publication never ends.\<close>

definition pub_initialize :: "publisher_env \<Rightarrow> AeronPublisher \<Rightarrow> (bool \<times> AeronPublisher) option" where
  "pub_initialize env p =
     (let p1 = p\<lparr>pub_context := Some (pc_aeron_dir (pub_config p))\<rparr>
      in case pe_connect env of
           Some e \<Rightarrow> Some (False, p1)
         | None \<Rightarrow>
             let p2 = p1\<lparr>pub_aeron := True\<rparr>
             in case pe_addPublication env of
                  Inl e \<Rightarrow> Some (False, p2)
                | Inr publication_id \<Rightarrow>
                    (case wait_for (pe_findPublication env publication_id) 0 of
                       None \<Rightarrow> None
                     | Some (Inl e) \<Rightarrow>
                         (case pe_findPublication env publication_id 0 of
                            Inl e0 \<Rightarrow> Some (False, p2)
                          | Inr found \<Rightarrow> Some (False, p2\<lparr>pub_publication := False\<rparr>))
                     | Some (Inr k) \<Rightarrow> Some (connect_archive env (p2\<lparr>pub_publication := True\<rparr>))))"

section \<open>Shutdown\<close>

definition pub_shutdown :: "(i64 \<Rightarrow> exn option) \<Rightarrow> AeronPublisher \<Rightarrow> AeronPublisher" where
  "pub_shutdown stop p =
     (let p1 = p\<lparr>pub_running := False\<rparr>;
          p2 = (case recording_controller p1 of
                  None \<Rightarrow> p1
                | Some c \<Rightarrow>
                    if rc_isRecording c
                    then p1\<lparr>recording_controller := Some (snd (rc_stopRecording stop c))\<rparr>
                    else p1)
      in p2\<lparr>recording_controller := None, pub_publication := False, pub_archive := False,
            pub_aeron := False\<rparr>)"

section \<open>Publishing\<close>

text \<open>
  \<open>offer\<close> gives what \<open>Publication::offer\<close> returns for a message. The branches on the negative
  results differ only in what they print.
\<close>

definition publish ::
  "(u8 list \<Rightarrow> i64) \<Rightarrow> u8 list \<Rightarrow> nat \<Rightarrow> AeronPublisher \<Rightarrow> bool \<times> AeronPublisher" where
  "publish offer buffer n p =
     (if \<not> pub_running p \<or> \<not> pub_publication p then (False, p)
      else
        let result = offer (take n buffer)
        in if 0 < sint result then (True, p\<lparr>pub_message_count := pub_message_count p + 1\<rparr>)
           else (False, p))"

text \<open>
  \<open>snprintf(payload, n, ...)\<close> of the text \<open>s\<close> into memory that held \<open>junk\<close>: at most
  \<open>n - 1\<close> characters and a null byte are written, the length of the whole text is returned.
\<close>

definition ascii_bytes :: "string \<Rightarrow> u8 list" where
  "ascii_bytes s = map (\<lambda>c. of_char c) s"

definition snprintf :: "nat \<Rightarrow> string \<Rightarrow> u8 list \<Rightarrow> u8 list \<times> nat" where
  "snprintf n s junk =
     (let written = ascii_bytes (take (n - 1) s) @ [0]
      in (written @ drop (length written) junk, length s))"

definition payload_text :: "u64 \<Rightarrow> string" where
  "payload_text n = ''Test message '' @ decimal (unat n) @ '' from Publisher''"

text \<open>
  The body of the publishing loop up to \<open>publish\<close>: \<open>event_time\<close> and \<open>publish_time\<close> are the
  readings of the clock, \<open>junk\<close> is what the 256 bytes behind the header held. The number printed
  is \<open>sequence_number - 1\<close> after the increment.
\<close>

definition frame_header :: "u64 \<Rightarrow> i64 \<Rightarrow> i64 \<Rightarrow> MessageHeader" where
  "frame_header sequence event_time publish_time =
     (setMagic zero_header)
       \<lparr>version := 1, message_type := MSG_TEST, sequence_number := sequence,
        event_time_ns := event_time, publish_time_ns := publish_time, recv_time_ns := 0,
        publisher_id := 1, priority := 128, flags := FLAG_NONE, session_id := 1,
        checksum := 0, reserved := 0\<rparr>"

definition build_frame :: "u64 \<Rightarrow> i64 \<Rightarrow> i64 \<Rightarrow> u8 list \<Rightarrow> u8 list \<times> nat \<times> u64" where
  "build_frame sequence_number0 event_time publish_time junk =
     (let h0 = frame_header sequence_number0 event_time publish_time;
          next = sequence_number0 + 1;
          (payload, payload_length) = snprintf 256 (payload_text (next - 1)) junk;
          h1 = h0\<lparr>message_length := of_nat (HEADER_SIZE + payload_length)\<rparr>;
          h2 = h1\<lparr>flags := flags h1 OR FLAG_CHECKSUM_ENABLED\<rparr>;
          h3 = h2\<lparr>checksum := calculateMessageCRC32 h2 payload (of_nat payload_length)\<rparr>
      in (header_bytes h3 @ payload, unat (message_length h3), next))"

text \<open>One iteration of the publishing thread: the next sequence number and the publisher.\<close>

definition publish_iteration ::
  "(u8 list \<Rightarrow> i64) \<Rightarrow> i64 \<Rightarrow> i64 \<Rightarrow> u8 list \<Rightarrow> u64 \<Rightarrow> AeronPublisher \<Rightarrow> u64 \<times> AeronPublisher" where
  "publish_iteration offer event_time publish_time junk sequence_number0 p =
     (let (buffer, n, next) = build_frame sequence_number0 event_time publish_time junk
      in (next, snd (publish offer buffer n p)))"

lemma length_payload_text: "length (payload_text n) \<le> 48"
proof -
  have "unat n < 10 ^ 20"
    using unsigned_less [of n] by (rule less_le_trans) simp
  then have "length (decimal (unat n)) \<le> 20"
    by (rule length_decimal) simp
  then show ?thesis by (simp add: payload_text_def)
qed

section \<open>The frame on the wire\<close>

text \<open>The header as it is sent, and the bytes that \<open>publish\<close> offers.\<close>

definition sent_header :: "u64 \<Rightarrow> i64 \<Rightarrow> i64 \<Rightarrow> MessageHeader" where
  "sent_header n t1 t2 =
     (let text = payload_text n;
          h = (frame_header n t1 t2)
                \<lparr>message_length := of_nat (HEADER_SIZE + length text), flags := FLAG_CHECKSUM_ENABLED\<rparr>
      in h\<lparr>checksum := calculateMessageCRC32 h (ascii_bytes text) (of_nat (length text))\<rparr>)"

definition sent_frame :: "u64 \<Rightarrow> i64 \<Rightarrow> i64 \<Rightarrow> u8 list" where
  "sent_frame n t1 t2 = header_bytes (sent_header n t1 t2) @ ascii_bytes (payload_text n)"

lemma length_ascii_bytes [simp]: "length (ascii_bytes s) = length s"
  by (simp add: ascii_bytes_def)

lemma wf_frame_header: "wf_header (frame_header n t1 t2)"
  by (simp add: wf_header_def frame_header_def setMagic_def SEKR_def)

lemma wf_sent_header: "wf_header (sent_header n t1 t2)"
  using wf_frame_header [of n t1 t2] by (simp add: sent_header_def wf_header_def Let_def)

lemma sent_header_fields:
  "magic (sent_header n t1 t2) = SEKR" "version (sent_header n t1 t2) = 1"
  "sequence_number (sent_header n t1 t2) = n" "event_time_ns (sent_header n t1 t2) = t1"
  "publish_time_ns (sent_header n t1 t2) = t2" "flags (sent_header n t1 t2) = FLAG_CHECKSUM_ENABLED"
  "message_length (sent_header n t1 t2) = of_nat (HEADER_SIZE + length (payload_text n))"
  by (simp_all add: sent_header_def frame_header_def setMagic_def Let_def)

lemma unat_of_nat_text:
  assumes "m \<le> 112"
  shows "unat (of_nat m :: u32) = m"
  using assms by (simp add: unat_of_nat)

lemma snprintf_text:
  "snprintf 256 (payload_text n) junk =
     (ascii_bytes (payload_text n) @ 0 # drop (length (payload_text n) + 1) junk,
      length (payload_text n))"
  using length_payload_text [of n] by (simp add: snprintf_def Let_def)

lemma message_crc_prefix:
  "unat k = length p \<Longrightarrow> calculateMessageCRC32 h (p @ q) k = calculateMessageCRC32 h p k"
  by (simp add: calculateMessageCRC32_def)

lemma build_frame_sent:
  "build_frame n t1 t2 junk =
     (header_bytes (sent_header n t1 t2) @ fst (snprintf 256 (payload_text n) junk),
      HEADER_SIZE + length (payload_text n), n + 1)"
proof -
  have "unat (of_nat (length (payload_text n)) :: u32) = length (payload_text n)"
    "unat (of_nat (HEADER_SIZE + length (payload_text n)) :: u32) = HEADER_SIZE + length (payload_text n)"
    using length_payload_text [of n] by (intro unat_of_nat_text; simp add: HEADER_SIZE_def)+
  moreover have "flags (frame_header n t1 t2) OR FLAG_CHECKSUM_ENABLED = FLAG_CHECKSUM_ENABLED"
    by (simp add: frame_header_def FLAG_NONE_def)
  ultimately show ?thesis
    by (simp add: build_frame_def snprintf_text sent_header_def Let_def message_crc_prefix
        del: of_nat_add)
qed

lemma take_frame:
  "take (HEADER_SIZE + length (payload_text n))
      (header_bytes (sent_header n t1 t2) @ fst (snprintf 256 (payload_text n) junk))
   = sent_frame n t1 t2"
  by (simp add: sent_frame_def snprintf_text length_header_bytes wf_sent_header)

lemma length_sent_frame: "length (sent_frame n t1 t2) = HEADER_SIZE + length (payload_text n)"
  by (simp add: sent_frame_def length_header_bytes wf_sent_header)

lemma length_sent_frame_le: "length (sent_frame n t1 t2) \<le> HEADER_SIZE + MAX_PAYLOAD_SIZE"
  using length_payload_text [of n] by (simp add: length_sent_frame MAX_PAYLOAD_SIZE_def)

text \<open>What a subscriber makes of the frame.\<close>

lemma copied_header:
  assumes "wf_header h" and "length d \<ge> HEADER_SIZE" and "d = header_bytes h @ p"
    and "wf_buffer b"
  shows "header (copyFromAeron b d) = h"
  using assms bytes_header_header_bytes [OF assms(1), of "[]"]
  by (simp add: header_copyFromAeron memcpy_header_def length_header_bytes min_absorb2 wf_buffer_def)

lemma copied_frame:
  assumes "wf_buffer b"
  shows "header (copyFromAeron b (sent_frame n t1 t2)) = sent_header n t1 t2"
    "unat (actual_payload_length (copyFromAeron b (sent_frame n t1 t2))) = length (payload_text n)"
    "take (length (payload_text n)) (payload (copyFromAeron b (sent_frame n t1 t2)))
       = ascii_bytes (payload_text n)"
proof -
  let ?d = "sent_frame n t1 t2"
  show "header (copyFromAeron b ?d) = sent_header n t1 t2"
    by (rule copied_header [OF wf_sent_header]) (simp_all add: assms sent_frame_def length_header_bytes wf_sent_header)
  have len: "length (payload_text n) \<le> MAX_PAYLOAD_SIZE"
    using length_payload_text [of n] by (simp add: MAX_PAYLOAD_SIZE_def)
  then show "unat (actual_payload_length (copyFromAeron b ?d)) = length (payload_text n)"
    by (simp add: actual_payload_length_copyFromAeron length_sent_frame)
  have "drop HEADER_SIZE ?d = ascii_bytes (payload_text n)"
    by (simp add: sent_frame_def length_header_bytes wf_sent_header)
  with take_payload_copyFromAeron [of ?d b] len
  show "take (length (payload_text n)) (payload (copyFromAeron b ?d)) = ascii_bytes (payload_text n)"
    by (simp add: length_sent_frame)
qed

lemma validate_sent_frame:
  assumes "wf_buffer b"
  shows "validate (copyFromAeron b (sent_frame n t1 t2))"
proof -
  let ?c = "copyFromAeron b (sent_frame n t1 t2)" and ?k = "length (payload_text n)"
  have k: "unat (of_nat ?k :: u32) = ?k" "unat (of_nat (HEADER_SIZE + ?k) :: u32) = HEADER_SIZE + ?k"
    using length_payload_text [of n] by (intro unat_of_nat_text; simp add: HEADER_SIZE_def)+
  have "calculateMessageCRC32 (header ?c) (payload ?c) (actual_payload_length ?c)
      = calculateMessageCRC32 (header ?c) (ascii_bytes (payload_text n)) (of_nat ?k)"
    by (simp add: calculateMessageCRC32_def copied_frame [OF assms] k)
  also have "\<dots> = checksum (sent_header n t1 t2)"
    by (simp add: copied_frame [OF assms] sent_header_def Let_def)
  finally have "checksum (header ?c)
      = calculateMessageCRC32 (header ?c) (payload ?c) (actual_payload_length ?c)"
    by (simp add: copied_frame [OF assms])
  moreover have "unat (message_length (header ?c)) \<le> HEADER_SIZE + MAX_PAYLOAD_SIZE"
    using length_payload_text [of n]
    by (simp add: copied_frame [OF assms] sent_header_fields k MAX_PAYLOAD_SIZE_def del: of_nat_add)
  ultimately show ?thesis
    by (simp add: validate_iff copied_frame(1) [OF assms] sent_header_fields)
qed

section \<open>Initialisation and shutdown\<close>

text \<open>The publication appears on the \<open>k\<close>-th poll, or never.\<close>

definition publication_found :: "publisher_env \<Rightarrow> nat \<Rightarrow> bool" where
  "publication_found env k \<longleftrightarrow>
     (case pe_addPublication env of
        Inl e \<Rightarrow> False
      | Inr rid \<Rightarrow> pe_findPublication env rid k = Inr True
          \<and> list_all (\<lambda>i. pe_findPublication env rid i = Inr False) [0..<k])"

definition publication_never :: "publisher_env \<Rightarrow> bool" where
  "publication_never env \<longleftrightarrow>
     (case pe_addPublication env of
        Inl e \<Rightarrow> False
      | Inr rid \<Rightarrow> (\<forall>k. pe_findPublication env rid k = Inr False))"

lemma connect_archive_result:
  "fst (connect_archive env p) \<longleftrightarrow> pe_archive_connect env = None"
  "pub_running (snd (connect_archive env p)) \<longleftrightarrow> pub_running p \<or> pe_archive_connect env = None"
  "pub_publication (snd (connect_archive env p)) = pub_publication p"
  "pe_archive_connect env = None \<Longrightarrow> pub_archive (snd (connect_archive env p))
     \<and> recording_controller (snd (connect_archive env p)) \<noteq> None"
  by (simp_all add: connect_archive_def Let_def pub_startRecording_def case_prod_beta split: option.split)

lemma publication_found_iff:
  "publication_found env k \<longleftrightarrow>
     (\<exists>rid. pe_addPublication env = Inr rid \<and> wait_for (pe_findPublication env rid) 0 = Some (Inr k))"
  by (auto simp: publication_found_def wait_for_Inr_iff list_all_iff split: sum.splits)

lemma publication_never_iff:
  "publication_never env \<longleftrightarrow>
     (\<exists>rid. pe_addPublication env = Inr rid \<and> wait_for (pe_findPublication env rid) 0 = None)"
  by (auto simp: publication_never_def wait_for_None_iff split: sum.splits)

lemma pub_initialize_found:
  assumes "pe_connect env = None" and "publication_found env k"
  shows "pub_initialize env p =
    Some (connect_archive env (p\<lparr>pub_context := Some (pc_aeron_dir (pub_config p)), pub_aeron := True,
                                 pub_publication := True\<rparr>))"
  using assms by (auto simp: pub_initialize_def Let_def publication_found_iff)

lemma pub_initialize_never:
  assumes "pe_connect env = None"
  shows "pub_initialize env p = None \<longleftrightarrow> publication_never env"
  using assms
  by (auto simp: pub_initialize_def Let_def publication_never_iff split: sum.splits option.splits)

lemma pub_initialize_not_found:
  assumes "pub_initialize env p = Some (ok, p')" and "\<And>k. \<not> publication_found env k"
  shows "\<not> ok" "pub_running p' = pub_running p"
  using assms
  by (auto simp: pub_initialize_def Let_def publication_found_iff split: sum.splits option.splits)

text \<open>What \<open>AeronPublisher::initialize\<close> does with a publisher that is not running. It does not
  return if and only if the client connects and the publication neither appears nor is reported as
  failed. It returns true if and only if the client connects, the publication appears and the
  archive connects; then the publisher is running with publication, archive and recording
  controller, whether or not the automatic recording has started. When it returns false the
  publisher is not running.\<close>
theorem initialize_publisher_outcome:
  assumes "\<not> pub_running p"
  shows "(pub_initialize env p = None \<longleftrightarrow> pe_connect env = None \<and> publication_never env)
    \<and> (\<forall>ok p'. pub_initialize env p = Some (ok, p') \<longrightarrow>
         (ok \<longleftrightarrow> pe_connect env = None \<and> (\<exists>k. publication_found env k) \<and> pe_archive_connect env = None)
       \<and> (pub_running p' \<longleftrightarrow> ok)
       \<and> (ok \<longrightarrow> pub_publication p' \<and> pub_archive p' \<and> recording_controller p' \<noteq> None))"
proof (cases "pe_connect env")
  case (Some e)
  then show ?thesis using assms by (auto simp: pub_initialize_def Let_def)
next
  case None
  show ?thesis
  proof (cases "\<exists>k. publication_found env k")
    case True
    then obtain k where k: "publication_found env k" ..
    define p1 where "p1 = p\<lparr>pub_context := Some (pc_aeron_dir (pub_config p)), pub_aeron := True,
        pub_publication := True\<rparr>"
    obtain ok p' where r: "connect_archive env p1 = (ok, p')" by fastforce
    have i: "pub_initialize env p = Some (ok, p')"
      using pub_initialize_found [OF None k, of p] r by (simp add: p1_def)
    with pub_initialize_never [OF None, of p] have "\<not> publication_never env" by simp
    moreover have "\<not> pub_running p1" "pub_publication p1" using assms by (simp_all add: p1_def)
    ultimately show ?thesis
      using connect_archive_result [of env p1] True None by (auto simp: i r)
  next
    case False
    with pub_initialize_not_found [of env p] None assms show ?thesis
      by (auto simp: pub_initialize_never)
  qed
qed

text \<open>An environment in which the publication appears on the third poll.\<close>

definition example_env :: publisher_env where
  "example_env =
     \<lparr>pe_connect = None, pe_addPublication = Inr 7,
      pe_findPublication = (\<lambda>rid k. Inr (2 \<le> k)), pe_archive_connect = None,
      pe_start = example_script (Inr 33)\<rparr>"

theorem initialize_publisher_outcome_witness:
  "\<exists>p'. pub_initialize example_env (new_AeronPublisher default_PublisherConfig) = Some (True, p')
     \<and> pub_running p'"
proof -
  let ?p = "new_AeronPublisher default_PublisherConfig"
  have p: "\<not> pub_running ?p" by (simp add: new_AeronPublisher_def)
  have env: "pe_connect example_env = None" "pe_archive_connect example_env = None"
    "publication_found example_env 2" "\<not> publication_never example_env"
    by (auto simp: example_env_def publication_found_def publication_never_def list_all_iff
        intro!: exI [of _ 2])
  then have "pub_initialize example_env ?p \<noteq> None"
    using initialize_publisher_outcome [OF p, of example_env] by simp
  then obtain ok p' where r: "pub_initialize example_env ?p = Some (ok, p')" by auto
  from initialize_publisher_outcome [OF p, of example_env, THEN conjunct2, rule_format, OF r] env
  have "ok" "pub_running p'" by auto
  with r show ?thesis by simp
qed

end
