(* ===== verification/Publisher_Steps.thy ===== *)
theory Publisher_Steps
  imports Publisher Subscriber_Reception
begin

text \<open>
  \<open>AeronPublisher::run\<close>: the publishing thread and the command loop, interleaved at every access
  to the shared \<open>running_\<close>; and what the frames that are offered to the transport look like to
  a subscriber.
\<close>

section \<open>The command loop\<close>

text \<open>One command: the publisher afterwards, and whether the loop goes on.\<close>

definition do_command ::
  "start_script \<Rightarrow> (i64 \<Rightarrow> exn option) \<Rightarrow> string \<Rightarrow> AeronPublisher \<Rightarrow> AeronPublisher \<times> bool" where
  "do_command a stop command p =
     (if command = ''start'' then (snd (pub_startRecording a p), True)
      else if command = ''stop'' then (snd (pub_stopRecording stop p), True)
      else if command = ''quit'' then (p\<lparr>pub_running := False\<rparr>, False)
      else (p, True))"

text \<open>
  \<open>std::cin >> command\<close> takes the next word of the input. At the end of the input the extraction
  fails before it touches the string: the loop does not test the stream and goes on with the
  command it read last.
\<close>

definition read_command :: "string list \<Rightarrow> string \<Rightarrow> string \<times> string list" where
  "read_command input command = (case input of [] \<Rightarrow> (command, []) | w # ws \<Rightarrow> (w, ws))"

text \<open>The loop alone; the \<open>k\<close>-th archive request of a kind is answered by \<open>a k\<close> or \<open>st k\<close>.\<close>

partial_function (option) command_loop ::
  "(nat \<Rightarrow> start_script) \<Rightarrow> (nat \<Rightarrow> i64 \<Rightarrow> exn option) \<Rightarrow> nat \<Rightarrow> string list \<Rightarrow> string
    \<Rightarrow> AeronPublisher \<Rightarrow> AeronPublisher option" where
  "command_loop a st k input command p =
     (if \<not> pub_running p then Some p
      else case read_command input command of (c, input') \<Rightarrow>
        (case do_command (a k) (st k) c p of (p', continue) \<Rightarrow>
           if continue then command_loop a st (k + 1) input' c p' else Some p'))"

lemma pub_recording_frame [simp]:
  "pub_running (snd (pub_startRecording a p)) = pub_running p"
  "pub_publication (snd (pub_startRecording a p)) = pub_publication p"
  "pub_message_count (snd (pub_startRecording a p)) = pub_message_count p"
  "pub_running (snd (pub_stopRecording st p)) = pub_running p"
  "pub_publication (snd (pub_stopRecording st p)) = pub_publication p"
  "pub_message_count (snd (pub_stopRecording st p)) = pub_message_count p"
  by (simp_all add: pub_startRecording_def pub_stopRecording_def case_prod_beta split: option.splits)

lemma do_command_simps [simp]:
  "snd (do_command a st c p) \<longleftrightarrow> c \<noteq> ''quit''"
  "pub_running (fst (do_command a st c p)) \<longleftrightarrow> pub_running p \<and> c \<noteq> ''quit''"
  "pub_publication (fst (do_command a st c p)) = pub_publication p"
  "pub_message_count (fst (do_command a st c p)) = pub_message_count p"
  by (simp_all add: do_command_def)

lemma command_loop_unfold:
  assumes "pub_running p"
  shows "command_loop a st k input command p =
    (let (c, input') = read_command input command; p' = fst (do_command (a k) (st k) c p)
     in if c = ''quit'' then Some p' else command_loop a st (k + 1) input' c p')"
  using assms by (subst command_loop.simps) (simp add: case_prod_beta Let_def)

lemma command_loop_quits:
  assumes "pub_running p" and "''quit'' \<in> set input"
  shows "\<exists>p'. command_loop a st k input command p = Some p' \<and> \<not> pub_running p'"
  using assms
proof (induction input arbitrary: k command p)
  case (Cons w ws)
  show ?case
  proof (cases "w = ''quit''")
    case True
    with Cons.prems show ?thesis
      by (simp add: command_loop_unfold read_command_def do_command_def)
  next
    case False
    let ?p = "fst (do_command (a k) (st k) w p)"
    have "\<exists>p'. command_loop a st (k + 1) ws w ?p = Some p' \<and> \<not> pub_running p'"
      using False Cons.prems by (intro Cons.IH) simp_all
    with False Cons.prems show ?thesis
      by (simp add: command_loop_unfold read_command_def)
  qed
qed simp

text \<open>Without a \<open>quit\<close> to come, no run of the loop has a result.\<close>

definition never_quits :: "string list \<Rightarrow> string \<Rightarrow> AeronPublisher \<Rightarrow> bool" where
  "never_quits input command p \<longleftrightarrow>
     pub_running p \<and> ''quit'' \<notin> set input \<and> command \<noteq> ''quit''"

lemma command_loop_SomeD:
  "command_loop a st k input command p = Some p' \<Longrightarrow> \<not> never_quits input command p"
proof (erule command_loop.raw_induct [where P = "\<lambda>a st k input command p p'. \<not> never_quits input command p",
      rotated])
  fix loop a st k input command and p p' :: AeronPublisher
  assume IH: "\<And>a st k input command p p'.
      loop a st k input command p = Some p' \<Longrightarrow> \<not> never_quits input command p"
    and r: "(if \<not> pub_running p then Some p
      else case read_command input command of (c, input') \<Rightarrow>
        (case do_command (a k) (st k) c p of (p', continue) \<Rightarrow>
           if continue then loop a st (k + 1) input' c p' else Some p')) = Some p'"
  show "\<not> never_quits input command p"
  proof
    assume n: "never_quits input command p"
    define c ws where "c = fst (read_command input command)" and "ws = snd (read_command input command)"
    have c: "c \<noteq> ''quit''" "''quit'' \<notin> set ws"
      using n by (auto simp: c_def ws_def never_quits_def read_command_def split: list.splits)
    have "loop a st (k + 1) ws c (fst (do_command (a k) (st k) c p)) = Some p'"
      using r n c by (simp add: never_quits_def case_prod_beta flip: c_def ws_def)
    from IH [OF this] n c show False by (simp add: never_quits_def)
  qed
qed

section \<open>The two threads\<close>

datatype publish_pc = Pub_check | Pub_publish | Pub_done

text \<open>
  \<open>ps_sequence\<close> is the local counter of the publishing thread, \<open>ps_at\<close> where it stands;
  \<open>ps_offers\<close> records the messages offered to the transport with the results.
\<close>

record publisher_system =
  ps_pub :: AeronPublisher
  ps_sequence :: u64
  ps_at :: publish_pc
  ps_offers :: "(u8 list \<times> i64) list"
  ps_input :: "string list"
  ps_command :: string
  ps_left :: bool

definition start_run :: "string list \<Rightarrow> AeronPublisher \<Rightarrow> publisher_system" where
  "start_run input p =
     \<lparr>ps_pub = p, ps_sequence = 0, ps_at = Pub_check, ps_offers = [], ps_input = input,
      ps_command = [], ps_left = False\<rparr>"

text \<open>One iteration with the clock readings \<open>t1\<close>, \<open>t2\<close> and the transport's answer \<open>r\<close>.\<close>

definition offer_iteration ::
  "i64 \<Rightarrow> i64 \<Rightarrow> u8 list \<Rightarrow> i64 \<Rightarrow> publisher_system \<Rightarrow> publisher_system" where
  "offer_iteration t1 t2 junk r s =
     (let (buffer, n, next) = build_frame (ps_sequence s) t1 t2 junk;
          (seq, p) = publish_iteration (\<lambda>m. r) t1 t2 junk (ps_sequence s) (ps_pub s)
      in s\<lparr>ps_sequence := seq, ps_pub := p, ps_at := Pub_check,
           ps_offers := ps_offers s @
             (if pub_running (ps_pub s) \<and> pub_publication (ps_pub s) then [(take n buffer, r)] else [])\<rparr>)"

inductive publish_step :: "publisher_system \<Rightarrow> publisher_system \<Rightarrow> bool" where
  p_go: "ps_at s = Pub_check \<Longrightarrow> pub_running (ps_pub s) \<Longrightarrow> publish_step s (s\<lparr>ps_at := Pub_publish\<rparr>)"
| p_end: "ps_at s = Pub_check \<Longrightarrow> \<not> pub_running (ps_pub s) \<Longrightarrow> publish_step s (s\<lparr>ps_at := Pub_done\<rparr>)"
| p_publish: "ps_at s = Pub_publish \<Longrightarrow> publish_step s (offer_iteration t1 t2 junk r s)"

inductive command_step :: "publisher_system \<Rightarrow> publisher_system \<Rightarrow> bool" where
  c_end: "\<not> ps_left s \<Longrightarrow> \<not> pub_running (ps_pub s) \<Longrightarrow> command_step s (s\<lparr>ps_left := True\<rparr>)"
| c_command: "\<not> ps_left s \<Longrightarrow> pub_running (ps_pub s) \<Longrightarrow>
     read_command (ps_input s) (ps_command s) = (c, input) \<Longrightarrow>
     do_command a st c (ps_pub s) = (p, continue) \<Longrightarrow>
     command_step s (s\<lparr>ps_pub := p, ps_input := input, ps_command := c, ps_left := \<not> continue\<rparr>)"

inductive_cases publish_stepE: "publish_step s t"
inductive_cases command_stepE: "command_step s t"

inductive ps_reachable :: "string list \<Rightarrow> AeronPublisher \<Rightarrow> publisher_system \<Rightarrow> bool"
  for input p where
  ps_start: "ps_reachable input p (start_run input p)"
| ps_publish: "ps_reachable input p s \<Longrightarrow> publish_step s t \<Longrightarrow> ps_reachable input p t"
| ps_command: "ps_reachable input p s \<Longrightarrow> command_step s t \<Longrightarrow> ps_reachable input p t"

section \<open>The invariant\<close>

definition is_success :: "u8 list \<times> i64 \<Rightarrow> bool" where
  "is_success m \<longleftrightarrow> 0 < sint (snd m)"

text \<open>The \<open>i\<close>-th offer is the frame with number \<open>i\<close>.\<close>

definition offers_numbered :: "(u8 list \<times> i64) list \<Rightarrow> bool" where
  "offers_numbered os \<longleftrightarrow>
     list_all2 (\<lambda>m i. \<exists>t1 t2. fst m = sent_frame (of_nat i) t1 t2) os [0..<length os]"

definition ps_inv :: "publisher_system \<Rightarrow> bool" where
  "ps_inv s \<longleftrightarrow>
     offers_numbered (ps_offers s)
     \<and> pub_message_count (ps_pub s) = of_nat (length (filter is_success (ps_offers s)))
     \<and> (pub_running (ps_pub s) \<longrightarrow> ps_sequence s = of_nat (length (ps_offers s)))
     \<and> pub_publication (ps_pub s)"

lemma offers_numbered_nth:
  "offers_numbered os \<Longrightarrow> i < length os \<Longrightarrow> \<exists>t1 t2. fst (os ! i) = sent_frame (of_nat i) t1 t2"
  by (simp add: offers_numbered_def list_all2_conv_all_nth)

lemma offers_numbered_snoc:
  "offers_numbered os \<Longrightarrow> offers_numbered (os @ [(sent_frame (of_nat (length os)) t1 t2, r)])"
  unfolding offers_numbered_def
  by (simp, rule list_all2_appendI) auto

lemma offer_iteration_idle:
  "\<not> (pub_running (ps_pub s) \<and> pub_publication (ps_pub s)) \<Longrightarrow>
   offer_iteration t1 t2 junk r s = s\<lparr>ps_sequence := ps_sequence s + 1, ps_at := Pub_check\<rparr>"
  by (auto simp: offer_iteration_def publish_iteration_def build_frame_sent publish_def)

lemma offer_iteration_offer:
  assumes "pub_running (ps_pub s)" and "pub_publication (ps_pub s)"
  shows "offer_iteration t1 t2 junk r s =
    s\<lparr>ps_sequence := ps_sequence s + 1,
      ps_pub := (ps_pub s)\<lparr>pub_message_count := pub_message_count (ps_pub s) + of_bool (0 < sint r)\<rparr>,
      ps_at := Pub_check, ps_offers := ps_offers s @ [(sent_frame (ps_sequence s) t1 t2, r)]\<rparr>"
  using assms
  by (simp add: offer_iteration_def publish_iteration_def build_frame_sent publish_def Let_def take_frame
      del: take_append)

lemma offer_iteration_inv: "ps_inv s \<Longrightarrow> ps_inv (offer_iteration t1 t2 junk r s)"
  by (cases "pub_running (ps_pub s)")
     (simp_all add: ps_inv_def offer_iteration_idle offer_iteration_offer offers_numbered_snoc is_success_def)

lemma publish_step_inv: "publish_step s t \<Longrightarrow> ps_inv s \<Longrightarrow> ps_inv t"
  by (erule publish_stepE) (auto simp: offer_iteration_inv, simp_all add: ps_inv_def)

lemma command_step_inv:
  assumes "command_step s t" and "ps_inv s"
  shows "ps_inv t"
  using assms(1)
proof (rule command_stepE)
  assume "t = s\<lparr>ps_left := True\<rparr>"
  with assms(2) show ?thesis by (simp add: ps_inv_def)
next
  fix c input a st p continue
  assume t: "t = s\<lparr>ps_pub := p, ps_input := input, ps_command := c, ps_left := \<not> continue\<rparr>"
    and d: "do_command a st c (ps_pub s) = (p, continue)"
  have "p = fst (do_command a st c (ps_pub s))" using d by simp
  with t assms(2) show ?thesis by (simp add: ps_inv_def)
qed

lemma ps_reachable_inv:
  assumes "ps_reachable input p s" and "pub_publication p" and "pub_message_count p = 0"
  shows "ps_inv s"
  using assms(1)
proof induction
  case ps_start
  then show ?case using assms(2,3) by (simp add: ps_inv_def start_run_def offers_numbered_def)
qed (simp_all add: publish_step_inv command_step_inv)

lemma number_of_sent_frame [simp]: "number_of (sent_frame n t1 t2) = n"
  by (simp add: sent_frame_def number_of_header wf_sent_header sent_header_fields)

lemma offer_number:
  "offers_numbered os \<Longrightarrow> i < length os \<Longrightarrow> number_of (fst (os ! i)) = of_nat i"
  using offers_numbered_nth [of os i] by auto

lemma of_nat_u64_inject:
  assumes "i < 2 ^ 64" and "j < 2 ^ 64"
  shows "(of_nat i :: u64) = of_nat j \<longleftrightarrow> i = j"
proof -
  have "unat (of_nat i :: u64) = i" "unat (of_nat j :: u64) = j"
    using assms by (simp_all add: unat_of_nat)
  then show ?thesis by metis
qed

section \<open>A concrete run\<close>

definition example_publisher :: AeronPublisher where
  "example_publisher =
     (new_AeronPublisher default_PublisherConfig)\<lparr>pub_aeron := True, pub_publication := True, pub_running := True\<rparr>"

text \<open>The run in which the transport answers \<open>rs\<close>, one after the other.\<close>

fun publish_all :: "i64 list \<Rightarrow> publisher_system \<Rightarrow> publisher_system" where
  "publish_all [] s = s"
| "publish_all (r # rs) s = publish_all rs (offer_iteration 1 2 [] r s)"

lemma publish_all_reachable:
  "ps_reachable input p s \<Longrightarrow> ps_at s = Pub_check \<Longrightarrow> pub_running (ps_pub s)
    \<Longrightarrow> pub_publication (ps_pub s) \<Longrightarrow> ps_reachable input p (publish_all rs s)"
proof (induction rs arbitrary: s)
  case (Cons r rs)
  have "publish_step s (s\<lparr>ps_at := Pub_publish\<rparr>)"
    using Cons.prems by (intro p_go) simp_all
  moreover have "publish_step (s\<lparr>ps_at := Pub_publish\<rparr>) (offer_iteration 1 2 [] r (s\<lparr>ps_at := Pub_publish\<rparr>))"
    by (rule p_publish) simp
  moreover have "offer_iteration 1 2 [] r (s\<lparr>ps_at := Pub_publish\<rparr>) = offer_iteration 1 2 [] r s"
    using Cons.prems by (simp add: offer_iteration_offer)
  ultimately have "ps_reachable input p (offer_iteration 1 2 [] r s)"
    using Cons.prems(1) by (metis ps_publish)
  then show ?case
    using Cons.IH [of "offer_iteration 1 2 [] r s"] Cons.prems by (simp add: offer_iteration_offer)
qed simp

definition example_run_of :: "i64 list \<Rightarrow> publisher_system" where
  "example_run_of rs = publish_all rs (start_run [''start'', ''quit''] example_publisher)"

lemma example_run_reachable:
  "ps_reachable [''start'', ''quit''] example_publisher (example_run_of rs)"
  unfolding example_run_of_def
  by (rule publish_all_reachable [OF ps_start])
     (simp_all add: start_run_def example_publisher_def)

lemma example_run_offers:
  "ps_offers (example_run_of [64, - 2, 128]) =
     [(sent_frame 0 1 2, 64), (sent_frame 1 1 2, - 2), (sent_frame 2 1 2, 128)]"
  by (simp add: example_run_of_def offer_iteration_offer start_run_def example_publisher_def)

lemma example_publisher_simps:
  "pub_publication example_publisher" "pub_message_count example_publisher = 0"
  "pub_running example_publisher"
  by (simp_all add: example_publisher_def new_AeronPublisher_def)

section \<open>Properties\<close>

text \<open>C3: What the publisher sends. In every interleaving of the publishing thread with the commands,
  the \<open>i\<close>-th message offered to the transport has sequence number \<open>i\<close>, and a subscriber that
  copies it into any buffer gets its bytes unchanged, its payload text, and a message that
  \<open>validate\<close> accepts with the checksum enabled; \<open>message_count_\<close> is the number of offers that the
  transport took (modulo 2 to the 64).\<close>
theorem published_frames_valid:
  assumes "ps_reachable input p s" and "pub_publication p" and "pub_message_count p = 0"
  shows "(\<forall>i < length (ps_offers s). \<forall>b. wf_buffer b \<longrightarrow>
            (let c = copyFromAeron b (fst (ps_offers s ! i))
             in validate c \<and> hasChecksum (header c) \<and> sequence_number (header c) = of_nat i
              \<and> take (unat (actual_payload_length c)) (payload c) = ascii_bytes (payload_text (of_nat i))
              \<and> wire_bytes c = fst (ps_offers s ! i)))
    \<and> pub_message_count (ps_pub s) = of_nat (length (filter is_success (ps_offers s)))"
proof -
  have inv: "ps_inv s" using assms by (rule ps_reachable_inv)
  have "let c = copyFromAeron b (fst (ps_offers s ! i))
      in validate c \<and> hasChecksum (header c) \<and> sequence_number (header c) = of_nat i
        \<and> take (unat (actual_payload_length c)) (payload c) = ascii_bytes (payload_text (of_nat i))
        \<and> wire_bytes c = fst (ps_offers s ! i)"
    if i: "i < length (ps_offers s)" and b: "wf_buffer b" for i b
  proof -
    obtain t1 t2 where f: "fst (ps_offers s ! i) = sent_frame (of_nat i) t1 t2"
      using inv offers_numbered_nth [OF _ i] by (auto simp: ps_inv_def)
    have "wire_bytes (copyFromAeron b (sent_frame (of_nat i) t1 t2)) = sent_frame (of_nat i) t1 t2"
      using length_sent_frame_le by (subst wire_bytes_copyFromAeron [OF b])
        (simp_all add: length_sent_frame)
    then show ?thesis
      by (simp add: Let_def f validate_sent_frame [OF b] copied_frame [OF b] hasChecksum_def
          sent_header_fields FLAG_CHECKSUM_ENABLED_def)
  qed
  with inv show ?thesis by (simp add: ps_inv_def)
qed

theorem published_frames_valid_witness:
  "validate (copyFromAeron example_buffer (fst (ps_offers (example_run_of [64, - 2, 128]) ! 2)))
   \<and> pub_message_count (ps_pub (example_run_of [64, - 2, 128])) = 2"
proof -
  note p = published_frames_valid [OF example_run_reachable [of "[64, - 2, 128]"] example_publisher_simps(1,2)]
  from p [THEN conjunct1, rule_format, of 2 example_buffer] p [THEN conjunct2]
  show ?thesis
    by (simp add: example_run_offers wf_example_buffer Let_def is_success_def)
qed

lemma checkForGaps_next:
  assumes "0 < k" and "k + 1 < 2 ^ 63" and "expected_sequence u = of_nat k"
    and "1 \<le> sint (max_gap_tolerance (config u))"
  shows "fst (checkForGaps (of_nat (k + 1)) u)"
proof -
  have s: "sint (of_nat (k + 1) :: i64) = int k + 1" "sint (of_nat k :: i64) = int k"
    using sint_of_nat_i64 [of "k + 1"] sint_of_nat_i64 [of k] assms(2) by simp_all
  have "unat (of_nat k :: i64) = k"
    using assms(2) by (simp add: unat_of_nat)
  then have "(of_nat k :: i64) \<noteq> 0"
    using assms(1) by (metis neq0_conv unat_0)
  moreover have "(of_nat (k + 1) - of_nat k :: i64) = 1" by simp
  ultimately show ?thesis
    using s assms(3,4) by (simp add: checkForGaps_def Let_def)
qed

text \<open>C32: A message that the transport refuses is lost. Its sequence number is used up: among fewer
  than 2 to the 64 offers no other has the number, so the message is never offered again, and a
  subscriber that received the messages before it reports a gap on the message after it.\<close>
theorem refused_message_lost:
  assumes "ps_reachable input p s" and "pub_publication p" and "pub_message_count p = 0"
    and "length (ps_offers s) < 2 ^ 63" and "0 < i" and "Suc i < length (ps_offers s)"
    and "\<not> is_success (ps_offers s ! i)"
    and "expected_sequence u = of_nat i" and "1 \<le> sint (max_gap_tolerance (config u))"
  shows "(\<forall>j < length (ps_offers s). j \<noteq> i \<longrightarrow> number_of (fst (ps_offers s ! j)) \<noteq> of_nat i)
    \<and> fst (checkForGaps (number_of (fst (ps_offers s ! Suc i))) u)"
proof -
  have "offers_numbered (ps_offers s)"
    using ps_reachable_inv [OF assms(1-3)] by (simp add: ps_inv_def)
  then have n: "number_of (fst (ps_offers s ! j)) = of_nat j" if "j < length (ps_offers s)" for j
    using offer_number that by blast
  have "(of_nat j :: u64) \<noteq> of_nat i" if "j < length (ps_offers s)" "j \<noteq> i" for j
    using of_nat_u64_inject [of j i] assms(4,6) that by simp
  with n show ?thesis
    using checkForGaps_next [OF assms(5) _ assms(8,9)] assms(4,6) by simp
qed

theorem refused_message_lost_witness:
  "fst (checkForGaps (number_of (fst (ps_offers (example_run_of [64, - 2, 128]) ! Suc 1)))
     (example_subscriber\<lparr>expected_sequence := 1\<rparr>))"
proof -
  let ?s = "example_run_of [64, - 2, 128]" and ?u = "example_subscriber\<lparr>expected_sequence := 1\<rparr>"
  have "length (ps_offers ?s) = 3" "\<not> is_success (ps_offers ?s ! 1)"
    by (simp_all add: example_run_offers is_success_def)
  moreover have "1 \<le> sint (max_gap_tolerance (config ?u))"
    by (simp add: example_subscriber_def default_SubscriberConfig_def)
  ultimately show ?thesis
    using refused_message_lost [OF example_run_reachable [of "[64, - 2, 128]"]
        example_publisher_simps(1,2), of 1 ?u] by simp
qed

text \<open>From the publisher to the worker's queue. When a subscriber accepts the \<open>i\<close>-th offered
  message, the last buffer of its queue holds the publisher's header with number \<open>i\<close>, in which
  only the receive time differs, and the publisher's payload text.\<close>
theorem published_message_delivered:
  assumes "ps_reachable input p s" and "pub_publication p" and "pub_message_count p = 0"
    and "i < length (ps_offers s)"
    and "world_inv w" and "fast_path_outcome w (fst (ps_offers s ! i)) = Accepted"
  shows "let w' = handleMessageFastPath ar t now (fst (ps_offers s ! i)) pos w;
             b = deref (bpool w') (last (mq_contents (mqueue w')))
         in (\<exists>t1 t2. header b = (sent_header (of_nat i) t1 t2)\<lparr>recv_time_ns := t\<rparr>)
          \<and> sequence_number (header b) = of_nat i
          \<and> take (unat (actual_payload_length b)) (payload b) = ascii_bytes (payload_text (of_nat i))"
proof -
  obtain t1 t2 where f: "fst (ps_offers s ! i) = sent_frame (of_nat i) t1 t2"
    using ps_reachable_inv [OF assms(1-3)] offers_numbered_nth [OF _ assms(4)]
    by (auto simp: ps_inv_def)
  let ?d = "sent_frame (of_nat i) t1 t2" and ?a = "next_free (bpool w)"
  have inv: "pool_inv (bpool w)" "mq_inv (mqueue w)" and free: "0 < free_count (bpool w)"
    using assms(5,6) outcome_free [of w ?d] by (simp_all add: world_inv_def f)
  have m: "?a \<in> pool_ptrs (bpool w)" by (rule next_free_ptrs(1) [OF inv(1) free])
  define b0 where "b0 = (reset (deref (bpool w) ?a))\<lparr>in_use := True\<rparr>"
  have b0: "wf_buffer b0" "header b0 = zero_header"
    using deref_mem [OF m] inv(1) by (simp_all add: b0_def pool_inv_def wf_reset) (simp add: reset_def)
  have "header (received_buffer b0 ?d t) = (sent_header (of_nat i) t1 t2)\<lparr>recv_time_ns := t\<rparr>"
    by (simp add: received_buffer_def Let_def copied_frame [OF b0(1)])
  moreover have "take (unat (actual_payload_length (received_buffer b0 ?d t)))
      (payload (received_buffer b0 ?d t)) = ascii_bytes (payload_text (of_nat i))"
    by (simp add: received_buffer_def Let_def copied_frame [OF b0(1)])
  moreover have "deref (receive_into ?d t (bpool w)) ?a = received_buffer b0 ?d t"
    by (simp add: deref_receive_into [OF inv(1) free m] b0_def)
  moreover have "last (mq_contents (mqueue (handleMessageFastPath ar t now ?d pos w))) = ?a"
    using fast_path_taken [OF assms(5), of ?d ar t now pos] assms(6) by (simp add: f Let_def)
  ultimately show ?thesis
    using assms(6) by (auto simp: f fast_path_accepted [OF inv] sent_header_fields)
qed

theorem published_message_delivered_witness:
  "let w' = handleMessageFastPath example_archive 9 10 (sent_frame 2 1 2) 4096 example_world
   in sequence_number (header (deref (bpool w') (last (mq_contents (mqueue w'))))) = 2"
proof -
  have "fast_path_outcome example_world (sent_frame 2 1 2) = Accepted"
    using example_outcome [of 2] by (auto simp: fast_path_outcome_def split: if_splits)
  with published_message_delivered [OF example_run_reachable [of "[64, - 2, 128]"]
      example_publisher_simps(1,2), of 2 example_world example_archive 9 10 4096]
  show ?thesis
    by (simp add: example_run_offers example_world_inv Let_def)
qed

text \<open>When the command loop returns. A running publisher's command loop ends if and only if the
  word \<open>quit\<close> is in its input; at the end of an input without it, the loop repeats the last
  command for ever. When it ends, the publisher is no longer running.\<close>
lemma command_loop_ends_iff:
  assumes "pub_running p"
  shows "((\<exists>p'. command_loop a st k input [] p = Some p') \<longleftrightarrow> ''quit'' \<in> set input)
    \<and> (\<forall>p'. command_loop a st k input [] p = Some p' \<longrightarrow> \<not> pub_running p')"
proof (cases "''quit'' \<in> set input")
  case True
  with command_loop_quits [OF assms, of input a st k "[]"] show ?thesis by auto
next
  case False
  then have "never_quits input [] p" using assms by (simp add: never_quits_def)
  with command_loop_SomeD [of a st k input "[]" p] False show ?thesis by blast
qed

end
