(* ===== verification/Config_Loader.thy ===== *)
theory Config_Loader
  imports Text
begin

text \<open>
  \<open>AeronSettings\<close> and \<open>ConfigLoader\<close> (\<open>common/include/ConfigLoader.h\<close>,
  \<open>common/src/ConfigLoader.cpp\<close>): default settings, the INI parser, the conversion of numbers, the
  override by environment variables, validation, and the generated templates. The files that can be
  opened and the environment are arguments; printing is left out.
\<close>

section \<open>Settings\<close>

record AeronSettings =
  as_aeron_dir :: string
  as_archive_control_request_channel :: string
  as_archive_control_response_channel :: string
  as_publication_channel :: string
  as_publication_stream_id :: i32
  as_subscription_channel :: string
  as_subscription_stream_id :: i32
  as_replay_channel :: string
  as_replay_stream_id :: i32
  idle_sleep_ms :: i64
  message_timeout_ns :: i64

definition default_AeronSettings :: AeronSettings where
  "default_AeronSettings =
     \<lparr>as_aeron_dir = AERON_DIR,
      as_archive_control_request_channel = ARCHIVE_CONTROL_REQUEST_CHANNEL,
      as_archive_control_response_channel = ARCHIVE_CONTROL_RESPONSE_CHANNEL,
      as_publication_channel = PUBLICATION_CHANNEL,
      as_publication_stream_id = PUBLICATION_STREAM_ID,
      as_subscription_channel = SUBSCRIPTION_CHANNEL,
      as_subscription_stream_id = SUBSCRIPTION_STREAM_ID,
      as_replay_channel = REPLAY_CHANNEL,
      as_replay_stream_id = REPLAY_STREAM_ID,
      idle_sleep_ms = IDLE_SLEEP_MS, message_timeout_ns = MESSAGE_TIMEOUT_NS\<rparr>"

definition loadDefault :: AeronSettings where
  "loadDefault = default_AeronSettings"

text \<open>\<open>validate\<close>: \<open>None\<close> for true, the error message otherwise.\<close>

definition validateChannel :: "string \<Rightarrow> string \<Rightarrow> string option" where
  "validateChannel channel name =
     (if channel = [] then Some (name @ '' is empty'')
      else if str_find channel ''aeron:'' 0 \<noteq> Some 0
      then Some (name @ '' must start with '' @ [CHR 0x27] @ ''aeron:'' @ [CHR 0x27])
      else None)"

text \<open>The first complaint of a sequence of checks.\<close>

fun first_error :: "string option list \<Rightarrow> string option" where
  "first_error [] = None"
| "first_error (None # es) = first_error es"
| "first_error (Some e # es) = Some e"

definition validate_settings :: "AeronSettings \<Rightarrow> string option" where
  "validate_settings s =
     first_error
       [if as_aeron_dir s = [] then Some ''aeron_dir is empty'' else None,
        validateChannel (as_archive_control_request_channel s) ''archive_control_request_channel'',
        validateChannel (as_publication_channel s) ''publication_channel'',
        validateChannel (as_subscription_channel s) ''subscription_channel'',
        validateChannel (as_replay_channel s) ''replay_channel'',
        if sint (as_publication_stream_id s) \<le> 0
          then Some ''publication_stream_id must be positive'' else None,
        if sint (as_subscription_stream_id s) \<le> 0
          then Some ''subscription_stream_id must be positive'' else None,
        if sint (as_replay_stream_id s) \<le> 0
          then Some ''replay_stream_id must be positive'' else None]"

section \<open>Parsing\<close>

definition is_blank :: "char \<Rightarrow> bool" where
  "is_blank c \<longleftrightarrow> c \<in> {CHR 0x20, CHR 0x09, CHR 0x0D, CHR 0x0A}"

text \<open>\<open>find_first_not_of\<close> and \<open>find_last_not_of\<close> the blanks.\<close>

definition find_first_not_blank :: "string \<Rightarrow> nat option" where
  "find_first_not_blank s =
     (let k = length (takeWhile is_blank s) in if k = length s then None else Some k)"

definition find_last_not_blank :: "string \<Rightarrow> nat option" where
  "find_last_not_blank s =
     (let k = length (takeWhile is_blank (rev s)) in if k = length s then None else Some (length s - 1 - k))"

definition trim :: "string \<Rightarrow> string" where
  "trim str =
     (case find_first_not_blank str of
        None \<Rightarrow> []
      | Some first \<Rightarrow>
          let last = the (find_last_not_blank str) in substr str first (last - first + 1))"

text \<open>The lines that \<open>std::getline\<close> delivers: no line after a final newline.\<close>

fun lines_of :: "string \<Rightarrow> string list" where
  "lines_of [] = []"
| "lines_of (c # cs) =
     (if c = CHR 0x0A then [] # lines_of cs
      else case lines_of cs of [] \<Rightarrow> [[c]] | l # ls \<Rightarrow> (c # l) # ls)"

type_synonym ini = "string \<Rightarrow> (string \<rightharpoonup> string) option"

text \<open>The state of the parser: the current section and the result so far.\<close>

type_synonym ini_state = "string \<times> ini"

text \<open>\<open>result[section][key] = value\<close>\<close>

definition ini_set :: "string \<Rightarrow> string \<Rightarrow> string \<Rightarrow> ini \<Rightarrow> ini" where
  "ini_set section key v m =
     m(section \<mapsto> (case m section of None \<Rightarrow> Map.empty | Some kvs \<Rightarrow> kvs)(key \<mapsto> v))"

definition parse_line :: "string \<Rightarrow> ini_state \<Rightarrow> ini_state" where
  "parse_line raw st =
     (let (current_section, result) = st; line = trim raw
      in if line = [] \<or> line ! 0 = CHR ''#'' \<or> line ! 0 = CHR '';'' then st
         else if line ! 0 = CHR ''['' \<and> line ! (length line - 1) = CHR '']''
         then (trim (substr line 1 (length line - 2)), result)
         else case str_find line ''='' 0 of
                None \<Rightarrow> st
              | Some equals_pos \<Rightarrow>
                  let key = trim (take equals_pos line);
                      v = trim (drop (equals_pos + 1) line)
                  in if current_section = [] then st
                     else (current_section, ini_set current_section key v result))"

definition parse_content :: "string \<Rightarrow> ini" where
  "parse_content content = snd (fold parse_line (lines_of content) ([], Map.empty))"

definition parseINI :: "(string \<rightharpoonup> string) \<Rightarrow> string \<Rightarrow> exn + ini" where
  "parseINI files filepath =
     (case files filepath of
        None \<Rightarrow> Inl (Runtime_error (''Cannot open config file: '' @ filepath))
      | Some content \<Rightarrow> Inr (parse_content content))"

definition parseInt :: "string \<Rightarrow> string \<Rightarrow> exn + i32" where
  "parseInt str key =
     (case stoi str of
        Inl e \<Rightarrow> Inl (Runtime_error (''Failed to parse integer for '' @ [CHR 0x27] @ key
                   @ [CHR 0x27] @ '': '' @ str))
      | Inr v \<Rightarrow> Inr v)"

definition parseLongLong :: "string \<Rightarrow> string \<Rightarrow> exn + i64" where
  "parseLongLong str key =
     (case stoll str of
        Inl e \<Rightarrow> Inl (Runtime_error (''Failed to parse long long for '' @ [CHR 0x27] @ key
                   @ [CHR 0x27] @ '': '' @ str))
      | Inr v \<Rightarrow> Inr v)"

section \<open>Loading\<close>

text \<open>\<open>if (ini_data.count(section) && section.count(key))\<close>\<close>

definition ini_get :: "ini \<Rightarrow> string \<Rightarrow> string \<Rightarrow> string option" where
  "ini_get m section key = (case m section of None \<Rightarrow> None | Some kvs \<Rightarrow> kvs key)"

text \<open>Assigning a text or a number that is present; a number that cannot be parsed throws.\<close>

definition set_text :: "string option \<Rightarrow> (string \<Rightarrow> 's \<Rightarrow> 's) \<Rightarrow> exn + 's \<Rightarrow> exn + 's" where
  "set_text t assign r = (case r of Inl e \<Rightarrow> Inl e
     | Inr s \<Rightarrow> (case t of None \<Rightarrow> Inr s | Some v \<Rightarrow> Inr (assign v s)))"

definition set_number ::
  "string option \<Rightarrow> (string \<Rightarrow> exn + 'n) \<Rightarrow> ('n \<Rightarrow> 's \<Rightarrow> 's) \<Rightarrow> exn + 's \<Rightarrow> exn + 's" where
  "set_number t parse assign r = (case r of Inl e \<Rightarrow> Inl e
     | Inr s \<Rightarrow> (case t of None \<Rightarrow> Inr s
        | Some v \<Rightarrow> (case parse v of Inl e \<Rightarrow> Inl e | Inr n \<Rightarrow> Inr (assign n s))))"

text \<open>The sections, in the order in which the code reads them.\<close>

definition apply_ini :: "ini \<Rightarrow> AeronSettings \<Rightarrow> exn + AeronSettings" where
  "apply_ini m s0 =
     (let r1 = set_text (ini_get m ''aeron'' ''dir'') (\<lambda>v s. s\<lparr>as_aeron_dir := v\<rparr>) (Inr s0);
          r2 = set_text (ini_get m ''archive'' ''control_request_channel'')
                 (\<lambda>v s. s\<lparr>as_archive_control_request_channel := v\<rparr>) r1;
          r3 = set_text (ini_get m ''archive'' ''control_response_channel'')
                 (\<lambda>v s. s\<lparr>as_archive_control_response_channel := v\<rparr>) r2;
          r4 = set_text (ini_get m ''publication'' ''channel'')
                 (\<lambda>v s. s\<lparr>as_publication_channel := v\<rparr>) r3;
          r5 = set_number (ini_get m ''publication'' ''stream_id'')
                 (\<lambda>v. parseInt v ''publication.stream_id'') (\<lambda>n s. s\<lparr>as_publication_stream_id := n\<rparr>) r4;
          r6 = set_text (ini_get m ''subscription'' ''channel'')
                 (\<lambda>v s. s\<lparr>as_subscription_channel := v\<rparr>) r5;
          r7 = set_number (ini_get m ''subscription'' ''stream_id'')
                 (\<lambda>v. parseInt v ''subscription.stream_id'') (\<lambda>n s. s\<lparr>as_subscription_stream_id := n\<rparr>) r6;
          r8 = set_text (ini_get m ''replay'' ''channel'')
                 (\<lambda>v s. s\<lparr>as_replay_channel := v\<rparr>) r7;
          r9 = set_number (ini_get m ''replay'' ''stream_id'')
                 (\<lambda>v. parseInt v ''replay.stream_id'') (\<lambda>n s. s\<lparr>as_replay_stream_id := n\<rparr>) r8;
          r10 = set_number (ini_get m ''timeouts'' ''idle_sleep_ms'')
                  (\<lambda>v. parseLongLong v ''timeouts.idle_sleep_ms'') (\<lambda>n s. s\<lparr>idle_sleep_ms := n\<rparr>) r9
      in set_number (ini_get m ''timeouts'' ''message_timeout_ns'')
           (\<lambda>v. parseLongLong v ''timeouts.message_timeout_ns'') (\<lambda>n s. s\<lparr>message_timeout_ns := n\<rparr>) r10)"

text \<open>\<open>getEnv\<close>: an unset variable counts as empty.\<close>

definition getEnv :: "(string \<rightharpoonup> string) \<Rightarrow> string \<Rightarrow> string" where
  "getEnv env name = (case env name of None \<Rightarrow> [] | Some v \<Rightarrow> v)"

definition overrideFromEnvironment :: "(string \<rightharpoonup> string) \<Rightarrow> AeronSettings \<Rightarrow> AeronSettings" where
  "overrideFromEnvironment env s =
     (let d = getEnv env ''AERON_DIR'';
          s1 = (if d \<noteq> [] then s\<lparr>as_aeron_dir := d\<rparr> else s);
          a = getEnv env ''AERON_ARCHIVE_CONTROL'';
          s2 = (if a \<noteq> [] then s1\<lparr>as_archive_control_request_channel := a\<rparr> else s1);
          p = getEnv env ''AERON_PUBLICATION_CHANNEL'';
          s3 = (if p \<noteq> [] then s2\<lparr>as_publication_channel := p\<rparr> else s2);
          u = getEnv env ''AERON_SUBSCRIPTION_CHANNEL''
      in if u \<noteq> [] then s3\<lparr>as_subscription_channel := u\<rparr> else s3)"

definition loadFromFile ::
  "(string \<rightharpoonup> string) \<Rightarrow> (string \<rightharpoonup> string) \<Rightarrow> string \<Rightarrow> exn + AeronSettings" where
  "loadFromFile files env filepath =
     (case parseINI files filepath of
        Inl e \<Rightarrow> Inl e
      | Inr ini_data \<Rightarrow>
          (case apply_ini ini_data default_AeronSettings of
             Inl e \<Rightarrow> Inl e
           | Inr settings0 \<Rightarrow>
               let settings = overrideFromEnvironment env settings0
               in case validate_settings settings of
                    Some error_message \<Rightarrow>
                      Inl (Runtime_error (''Configuration validation failed: '' @ error_message))
                  | None \<Rightarrow> Inr settings))"

section \<open>Templates\<close>

text \<open>The lines that \<open>generateTemplate\<close> writes, each followed by a newline.\<close>

definition unlines :: "string list \<Rightarrow> string" where
  "unlines ls = concat (map (\<lambda>l. l @ [CHR 0x0A]) ls)"

definition template_head :: "string \<Rightarrow> string list" where
  "template_head template_type =
     [''# Aeron Configuration File'', ''# Generated template: '' @ template_type, ''#'',
      ''# Lines starting with # or ; are comments'', ''# Format: key = value'', []]"

definition template_local :: "string list" where
  "template_local =
    [''[aeron]'', ''dir = /dev/shm/aeron'', [], ''[archive]'',
     ''control_request_channel = aeron:udp?endpoint=localhost:8010'',
     ''control_response_channel = aeron:udp?endpoint=localhost:0'', [], ''[publication]'',
     ''channel = aeron:udp?endpoint=localhost:40456'', ''stream_id = 10'', [],
     ''[subscription]'', ''channel = aeron:udp?endpoint=localhost:40456'',
     ''stream_id = 10'', [], ''[replay]'', ''channel = aeron:udp?endpoint=localhost:40457'',
     ''stream_id = 20'', []]"

definition template_distributed :: "string list" where
  "template_distributed =
    [''# Distributed setup with multicast'', ''# Publisher server: 192.168.1.10'',
     ''# Subscriber servers: 192.168.1.20, 192.168.1.21, ...'', [], ''[aeron]'',
     ''dir = /dev/shm/aeron'', [], ''[archive]'', ''# Publisher server IP'',
     ''control_request_channel = aeron:udp?endpoint=192.168.1.10:8010'',
     ''control_response_channel = aeron:udp?endpoint=localhost:0'', [], ''[publication]'',
     ''# Multicast address'',
     ''channel = aeron:udp?endpoint=224.0.1.1:40456|interface=0.0.0.0'', ''stream_id = 10'',
     [], ''[subscription]'',
     ''channel = aeron:udp?endpoint=224.0.1.1:40456|interface=0.0.0.0'', ''stream_id = 10'',
     [], ''[replay]'', ''channel = aeron:udp?endpoint=localhost:40457'', ''stream_id = 20'',
     []]"

definition template_production :: "string list" where
  "template_production =
    [''# Production configuration'', [], ''[aeron]'', ''dir = /dev/shm/aeron'', [],
     ''[archive]'', ''control_request_channel = aeron:udp?endpoint=PUBLISHER_IP:8010'',
     ''control_response_channel = aeron:udp?endpoint=localhost:0'', [], ''[publication]'',
     ''channel = aeron:udp?endpoint=MULTICAST_IP:40456|interface=0.0.0.0'',
     ''stream_id = 10'', [], ''[subscription]'',
     ''channel = aeron:udp?endpoint=MULTICAST_IP:40456|interface=0.0.0.0'',
     ''stream_id = 10'', [], ''[replay]'', ''channel = aeron:udp?endpoint=localhost:40457'',
     ''stream_id = 20'', []]"

definition template_tail :: "string list" where
  "template_tail =
    [''[timeouts]'', ''idle_sleep_ms = 1'', ''message_timeout_ns = 10000000000'']"

definition template_content :: "string \<Rightarrow> string" where
  "template_content template_type =
     unlines (template_head template_type
       @ (if template_type = ''local'' then template_local
          else if template_type = ''distributed'' then template_distributed
          else template_production)
       @ template_tail)"

text \<open>\<open>can_create\<close>: whether the file can be opened for writing.\<close>

definition generateTemplate ::
  "bool \<Rightarrow> string \<Rightarrow> string \<Rightarrow> (string \<rightharpoonup> string) \<Rightarrow> exn + (string \<rightharpoonup> string)" where
  "generateTemplate can_create filepath template_type files =
     (if \<not> can_create then Inl (Runtime_error (''Cannot create config file: '' @ filepath))
      else Inr (files(filepath \<mapsto> template_content template_type)))"

section \<open>Trimming\<close>

text \<open>\<open>trim\<close> drops the blanks at both ends.\<close>

definition trimmed :: "string \<Rightarrow> bool" where
  "trimmed s \<longleftrightarrow> (s \<noteq> [] \<longrightarrow> \<not> is_blank (hd s) \<and> \<not> is_blank (last s))"

lemma trim_eq: "trim s = rev (dropWhile is_blank (rev (dropWhile is_blank s)))"
proof (cases "\<forall>c \<in> set s. is_blank c")
  case True
  then have "takeWhile is_blank s = s" "dropWhile is_blank s = []"
    by (simp_all add: takeWhile_eq_all_conv)
  then show ?thesis
    by (simp only: trim_def find_first_not_blank_def Let_def) simp
next
  case False
  define a where "a = takeWhile is_blank s"
  define t where "t = dropWhile is_blank s"
  have s: "s = a @ t" by (simp add: a_def t_def)
  have t: "t \<noteq> []" using False by (simp add: t_def)
  have nb: "\<exists>c \<in> set (rev t). \<not> is_blank c"
    using hd_dropWhile [of is_blank s] t by (intro bexI [of _ "hd t"]) (simp_all add: t_def)
  define z where "z = takeWhile is_blank (rev t)"
  define m where "m = rev (dropWhile is_blank (rev t))"
  have tz: "t = m @ rev z"
    unfolding m_def z_def by (metis rev_append rev_rev_ident takeWhile_dropWhile_id)
  have m: "m \<noteq> []" using nb by (auto simp: m_def)
  obtain c where c: "c \<in> set (rev t)" "\<not> is_blank c" using nb by blast
  have z: "takeWhile is_blank (rev s) = z"
    unfolding z_def s rev_append using c by (rule takeWhile_append1)
  have "trim s = m"
    using m by (simp add: trim_def find_first_not_blank_def find_last_not_blank_def z Let_def
        substr_def flip: a_def) (simp add: s tz)
  then show ?thesis by (simp add: m_def t_def)
qed

lemma trim_trimmed:
  assumes "trimmed s"
  shows "trim s = s"
proof -
  have "dropWhile is_blank s = s" "dropWhile is_blank (rev s) = rev s"
    using assms by (auto simp: dropWhile_eq_self_iff trimmed_def hd_rev)
  then show ?thesis by (simp add: trim_eq)
qed

lemma trimmed_trim: "trimmed (trim s)"
proof -
  let ?t = "dropWhile is_blank s"
  have l: "last (trim s) \<in> {c. \<not> is_blank c}" if "trim s \<noteq> []"
    using that hd_dropWhile [of is_blank "rev ?t"] by (simp add: trim_eq last_rev)
  have "hd (trim s) = hd ?t" if "trim s \<noteq> []"
  proof -
    have "rev (takeWhile is_blank (rev ?t)) \<noteq> ?t \<or> ?t = []"
      using that by (metis dropWhile_eq_Nil_conv rev.simps(1) rev_rev_ident set_takeWhileD set_rev trim_eq)
    moreover have "?t = trim s @ rev (takeWhile is_blank (rev ?t))"
      unfolding trim_eq by (metis rev_append rev_rev_ident takeWhile_dropWhile_id)
    ultimately show ?thesis using that by (metis hd_append2)
  qed
  moreover have "\<not> is_blank (hd ?t)" if "trim s \<noteq> []"
    using that by (intro hd_dropWhile) (auto simp: trim_eq dest!: set_dropWhileD)
  ultimately show ?thesis using l by (auto simp: trimmed_def)
qed

section \<open>Lines\<close>

lemma lines_of_line:
  assumes "CHR 0x0A \<notin> set l"
  shows "lines_of (l @ CHR 0x0A # rest) = l # lines_of rest"
  using assms by (induction l) auto

lemma lines_of_unlines:
  "\<forall>l \<in> set ls. CHR 0x0A \<notin> set l \<Longrightarrow> lines_of (unlines ls) = ls"
  by (induction ls) (simp_all add: unlines_def lines_of_line)

lemma parse_content_unlines:
  "\<forall>l \<in> set ls. CHR 0x0A \<notin> set l \<Longrightarrow>
   parse_content (unlines ls) = snd (fold parse_line ls ([], Map.empty))"
  by (simp add: parse_content_def lines_of_unlines)

section \<open>What a line means\<close>

datatype ini_line = Ignored | Section string | Entry string string

definition classify :: "string \<Rightarrow> ini_line" where
  "classify raw =
     (let line = trim raw
      in if line = [] \<or> hd line = CHR ''#'' \<or> hd line = CHR '';'' then Ignored
         else if hd line = CHR ''['' \<and> last line = CHR '']'' then Section (trim (butlast (tl line)))
         else if CHR ''='' \<in> set line
         then Entry (trim (takeWhile (\<lambda>c. c \<noteq> CHR ''='') line))
                    (trim (tl (dropWhile (\<lambda>c. c \<noteq> CHR ''='') line)))
         else Ignored)"

fun apply_line :: "ini_line \<Rightarrow> ini_state \<Rightarrow> ini_state" where
  "apply_line Ignored st = st"
| "apply_line (Section n) st = (n, snd st)"
| "apply_line (Entry k v) st = (if fst st = [] then st else (fst st, ini_set (fst st) k v (snd st)))"

lemma find_char:
  "find_from [d] s k =
     (if d \<in> set s then Some (k + length (takeWhile (\<lambda>c. c \<noteq> d) s)) else None)"
  by (induction s arbitrary: k) auto

lemma str_find_char:
  "str_find s [d] 0 = (if d \<in> set s then Some (length (takeWhile (\<lambda>c. c \<noteq> d) s)) else None)"
  by (simp add: str_find_def find_char)

lemma parse_line_classify: "parse_line raw st = apply_line (classify raw) st"
proof -
  let ?l = "trim raw"
  have cut: "substr ?l 1 (length ?l - 2) = butlast (tl ?l)"
    by (simp add: substr_def butlast_conv_take drop_Suc numeral_2_eq_2)
  have key: "take (length (takeWhile (\<lambda>c. c \<noteq> d) ?l)) ?l = takeWhile (\<lambda>c. c \<noteq> d) ?l" for d
    by (metis append_eq_conv_conj takeWhile_dropWhile_id)
  have v: "drop (length (takeWhile (\<lambda>c. c \<noteq> d) ?l) + 1) ?l = tl (dropWhile (\<lambda>c. c \<noteq> d) ?l)" for d
    by (metis append_eq_conv_conj drop_Suc Suc_eq_plus1 takeWhile_dropWhile_id tl_drop)
  show ?thesis
  proof (cases "?l = []")
    case True
    then show ?thesis by (cases st) (simp add: parse_line_def classify_def)
  next
    case False
    then have "?l ! 0 = hd ?l" "?l ! (length ?l - 1) = last ?l"
      by (simp_all add: hd_conv_nth last_conv_nth)
    then show ?thesis
      by (cases st) (simp add: parse_line_def classify_def Let_def str_find_char cut key v False
          del: One_nat_def)
  qed
qed

lemma parse_content_classify:
  "\<forall>l \<in> set ls. CHR 0x0A \<notin> set l \<Longrightarrow>
   parse_content (unlines ls) = snd (fold apply_line (map classify ls) ([], Map.empty))"
  by (simp add: parse_content_unlines fold_map comp_def parse_line_classify [abs_def])

text \<open>Reading the result: the last assignment counts.\<close>

lemma ini_get_set:
  "ini_get (ini_set s k v m) s' k' = (if s' = s \<and> k' = k then Some v else ini_get m s' k')"
  by (simp add: ini_get_def ini_set_def split: option.split)

lemma ini_get_empty [simp]: "ini_get Map.empty s k = None"
  by (simp add: ini_get_def)

section \<open>Printing and parsing\<close>

text \<open>A clean section name, key or value: what the format can carry.\<close>

definition clean_name :: "string \<Rightarrow> bool" where
  "clean_name n \<longleftrightarrow> n \<noteq> [] \<and> trimmed n \<and> CHR 0x0A \<notin> set n"

definition clean_key :: "string \<Rightarrow> bool" where
  "clean_key k \<longleftrightarrow> clean_name k \<and> CHR ''='' \<notin> set k \<and> hd k \<notin> {CHR ''#'', CHR '';'', CHR ''[''}"

definition clean_value :: "string \<Rightarrow> bool" where
  "clean_value v \<longleftrightarrow> trimmed v \<and> CHR 0x0A \<notin> set v"

type_synonym ini_file = "(string \<times> (string \<times> string) list) list"

definition clean_file :: "ini_file \<Rightarrow> bool" where
  "clean_file f \<longleftrightarrow>
     list_all (\<lambda>(n, kvs). clean_name n \<and> list_all (\<lambda>(k, v). clean_key k \<and> clean_value v) kvs) f"

definition section_lines :: "string \<times> (string \<times> string) list \<Rightarrow> string list" where
  "section_lines = (\<lambda>(n, kvs). (CHR ''['' # n @ [CHR '']'']) # map (\<lambda>(k, v). k @ '' = '' @ v) kvs)"

definition print_ini :: "ini_file \<Rightarrow> string" where
  "print_ini f = unlines (concat (map section_lines f))"

definition entries :: "ini_file \<Rightarrow> ((string \<times> string) \<times> string) list" where
  "entries f = concat (map (\<lambda>(n, kvs). map (\<lambda>(k, v). ((n, k), v)) kvs) f)"

lemma classify_section:
  assumes "trimmed n"
  shows "classify (CHR ''['' # n @ [CHR '']'']) = Section n"
proof -
  have "trim (CHR ''['' # n @ [CHR '']'']) = CHR ''['' # n @ [CHR '']'']"
    by (rule trim_trimmed) (simp add: trimmed_def is_blank_def)
  then show ?thesis
    using trim_trimmed [OF assms] by (simp add: classify_def Let_def butlast_append)
qed

lemma trim_blank: "is_blank c \<Longrightarrow> trim (c # s) = trim s"
  "is_blank c \<Longrightarrow> trim (s @ [c]) = trim s"
proof -
  assume c: "is_blank c"
  then show "trim (c # s) = trim s" by (simp add: trim_eq)
  show "trim (s @ [c]) = trim s"
  proof (cases "\<forall>x \<in> set s. is_blank x")
    case True
    with c have "dropWhile is_blank s = []" "dropWhile is_blank (s @ [c]) = []" by simp_all
    then show ?thesis by (simp only: trim_eq)
  next
    case False
    with c show ?thesis by (auto simp: trim_eq dropWhile_append1)
  qed
qed

lemma classify_entry:
  assumes k: "clean_key k" and v: "clean_value v"
  shows "classify (k @ '' = '' @ v) = Entry k v"
proof -
  obtain c cs where kc: "k = c # cs" using k by (auto simp: clean_key_def clean_name_def neq_Nil_conv)
  have c: "\<not> is_blank c" "c \<noteq> CHR ''#''" "c \<noteq> CHR '';''" "c \<noteq> CHR ''[''" "c \<noteq> CHR ''=''"
    using k by (auto simp: clean_key_def clean_name_def trimmed_def kc)
  have tk: "trim k = k" and tv: "trim v = v"
    using k v by (simp_all add: trim_trimmed clean_key_def clean_name_def clean_value_def)
  have sp: "is_blank CHR '' ''" by (simp add: is_blank_def)
  define line where "line = trim (k @ '' = '' @ v)"
  have line: "line = (if v = [] then k @ '' ='' else k @ '' = '' @ v)"
  proof (cases "v = []")
    case True
    have "trimmed (k @ '' ='')" using c by (simp add: trimmed_def kc is_blank_def)
    then show ?thesis
      using trim_blank(2) [OF sp, of "k @ '' =''"] True by (simp add: line_def trim_trimmed)
  next
    case False
    then have "trimmed (k @ '' = '' @ v)" using c v by (simp add: trimmed_def kc clean_value_def)
    with False show ?thesis by (simp add: line_def trim_trimmed)
  qed
  have "takeWhile (\<lambda>x. x \<noteq> CHR ''='') line = k @ '' ''"
    "tl (dropWhile (\<lambda>x. x \<noteq> CHR ''='') line) = (if v = [] then [] else CHR '' '' # v)"
    using k by (auto simp: line clean_key_def takeWhile_append dropWhile_append)
  moreover have "trim (k @ '' '') = k" "trim (if v = [] then [] else CHR '' '' # v) = v"
    using trim_blank [OF sp] tk tv by (auto simp: trim_eq)
  moreover have "CHR ''='' \<in> set line" "line \<noteq> []" "hd line = c" by (simp_all add: line kc)
  ultimately show ?thesis
    using c unfolding classify_def Let_def line_def [symmetric] by simp
qed


lemma unlines_append: "unlines (xs @ ys) = unlines xs @ unlines ys"
  by (simp add: unlines_def)

lemma fold_entries:
  assumes "n \<noteq> []"
  shows "fold apply_line (map (\<lambda>(k, v). Entry k v) kvs) (n, m)
       = (n, fold (\<lambda>(k, v). ini_set n k v) kvs m)"
  using assms by (induction kvs arbitrary: m) auto

lemma ini_get_fold:
  "ini_get (fold (\<lambda>(k, v). ini_set n k v) kvs m) s k
     = (case map_of (rev (map (\<lambda>(k, v). ((n, k), v)) kvs)) (s, k) of
          None \<Rightarrow> ini_get m s k | Some v \<Rightarrow> Some v)"
  by (induction kvs arbitrary: m)
     (auto simp: ini_get_set map_add_def split: option.splits)

lemma clean_fileD:
  assumes "clean_file f" and "(n, kvs) \<in> set f"
  shows "clean_name n" "(k, v) \<in> set kvs \<Longrightarrow> clean_key k \<and> clean_value v"
  using assms by (fastforce simp: clean_file_def list_all_iff)+

lemma clean_lines:
  assumes f: "clean_file f" and "l \<in> set (concat (map section_lines f))"
  shows "CHR 0x0A \<notin> set l"
proof -
  obtain n kvs where s: "(n, kvs) \<in> set f" "l \<in> set (section_lines (n, kvs))"
    using assms(2) by fastforce
  show ?thesis
    using s(2) clean_fileD [OF f s(1)]
    by (auto simp: section_lines_def clean_name_def clean_key_def clean_value_def)
qed

lemma classify_section_lines:
  assumes "clean_name n" and "list_all (\<lambda>(k, v). clean_key k \<and> clean_value v) kvs"
  shows "map classify (section_lines (n, kvs)) = Section n # map (\<lambda>(k, v). Entry k v) kvs"
proof -
  have "map (classify \<circ> (\<lambda>(k, v). k @ '' = '' @ v)) kvs = map (\<lambda>(k, v). Entry k v) kvs"
    using assms(2) classify_entry by (fastforce simp: list_all_iff)
  then show ?thesis
    using assms(1) by (simp add: section_lines_def classify_section clean_name_def comp_def)
qed

lemma fold_print_ini:
  assumes "clean_file f"
  shows "ini_get (snd (fold apply_line (map classify (concat (map section_lines f))) st)) s k
       = (case map_of (rev (entries f)) (s, k) of None \<Rightarrow> ini_get (snd st) s k | Some v \<Rightarrow> Some v)"
  using assms
proof (induction f arbitrary: st)
  case Nil
  then show ?case by (simp add: entries_def)
next
  case (Cons sec f)
  obtain n kvs where sec: "sec = (n, kvs)" by (cases sec)
  have n: "clean_name n" "list_all (\<lambda>(k, v). clean_key k \<and> clean_value v) kvs" "clean_file f"
    using Cons.prems by (simp_all add: sec clean_file_def)
  then have "n \<noteq> []" by (simp add: clean_name_def)
  from fold_entries [OF this] Cons.IH [OF n(3)] show ?case
    by (simp add: sec classify_section_lines [OF n(1,2)] entries_def ini_get_fold map_add_def
        split: option.splits)
qed

section \<open>Valid settings\<close>

definition valid_channel :: "string \<Rightarrow> bool" where
  "valid_channel c \<longleftrightarrow> prefix ''aeron:'' c"

definition valid_settings :: "AeronSettings \<Rightarrow> bool" where
  "valid_settings s \<longleftrightarrow>
     as_aeron_dir s \<noteq> [] \<and> valid_channel (as_archive_control_request_channel s)
     \<and> valid_channel (as_publication_channel s) \<and> valid_channel (as_subscription_channel s)
     \<and> valid_channel (as_replay_channel s)
     \<and> 0 < sint (as_publication_stream_id s) \<and> 0 < sint (as_subscription_stream_id s)
     \<and> 0 < sint (as_replay_stream_id s)"

lemma find_from_at_start:
  "find_from pat s k = Some k \<longleftrightarrow> prefix pat s"
proof (cases s)
  case (Cons c cs)
  have "find_from pat cs (k + 1) \<noteq> Some k" for cs
  proof
    have "find_from pat cs j = Some i \<Longrightarrow> j \<le> i" for i j
      by (induction cs arbitrary: j) (fastforce split: if_splits)+
    moreover assume "find_from pat cs (k + 1) = Some k"
    ultimately show False by fastforce
  qed
  then show ?thesis by (simp add: Cons)
qed simp

lemma validateChannel_None: "validateChannel c name = None \<longleftrightarrow> valid_channel c"
  by (auto simp: validateChannel_def valid_channel_def str_find_def find_from_at_start)

lemma first_error_None: "first_error es = None \<longleftrightarrow> list_all (\<lambda>e. e = None) es"
  by (induction es rule: first_error.induct) simp_all

lemma validate_settings_None: "validate_settings s = None \<longleftrightarrow> valid_settings s"
  by (simp add: validate_settings_def valid_settings_def first_error_None validateChannel_None not_le)

section \<open>What the templates say\<close>

text \<open>A template as an INI file: the sections with their keys and values.\<close>

definition template_archive :: "string \<Rightarrow> string \<times> (string \<times> string) list" where
  "template_archive host =
     (''archive'', [(''control_request_channel'', ''aeron:udp?endpoint='' @ host @ '':8010''),
                    (''control_response_channel'', ''aeron:udp?endpoint=localhost:0'')])"

definition template_sections :: "string \<Rightarrow> string \<Rightarrow> ini_file" where
  "template_sections host channel =
     [(''aeron'', [(''dir'', ''/dev/shm/aeron'')]),
      template_archive host,
      (''publication'', [(''channel'', channel), (''stream_id'', ''10'')]),
      (''subscription'', [(''channel'', channel), (''stream_id'', ''10'')]),
      (''replay'', [(''channel'', ''aeron:udp?endpoint=localhost:40457''), (''stream_id'', ''20'')]),
      (''timeouts'', [(''idle_sleep_ms'', ''1''), (''message_timeout_ns'', ''10000000000'')])]"

definition template_file :: "string \<Rightarrow> ini_file" where
  "template_file t =
     (if t = ''local'' then template_sections ''localhost'' ''aeron:udp?endpoint=localhost:40456''
      else if t = ''distributed''
      then template_sections ''192.168.1.10'' ''aeron:udp?endpoint=224.0.1.1:40456|interface=0.0.0.0''
      else template_sections ''PUBLISHER_IP'' ''aeron:udp?endpoint=MULTICAST_IP:40456|interface=0.0.0.0'')"

lemma classify_template_local:
  "filter (\<lambda>l. l \<noteq> Ignored) (map classify (template_local @ template_tail)) =
   concat (map (\<lambda>(n, kvs). Section n # map (\<lambda>(k, v). Entry k v) kvs) (template_file ''local''))"
  by code_simp

lemma classify_template_distributed:
  "filter (\<lambda>l. l \<noteq> Ignored) (map classify (template_distributed @ template_tail)) =
   concat (map (\<lambda>(n, kvs). Section n # map (\<lambda>(k, v). Entry k v) kvs) (template_file ''distributed''))"
  by code_simp

lemma classify_template_production:
  "filter (\<lambda>l. l \<noteq> Ignored) (map classify (template_production @ template_tail)) =
   concat (map (\<lambda>(n, kvs). Section n # map (\<lambda>(k, v). Entry k v) kvs) (template_file ''production''))"
  by code_simp

lemma template_newlines:
  "\<forall>l \<in> set template_local. CHR 0x0A \<notin> set l"
  "\<forall>l \<in> set template_distributed. CHR 0x0A \<notin> set l"
  "\<forall>l \<in> set template_production. CHR 0x0A \<notin> set l"
  "\<forall>l \<in> set template_tail. CHR 0x0A \<notin> set l"
  by (simp_all add: template_local_def template_distributed_def template_production_def
      template_tail_def)

lemma fold_apply_line_filter:
  "fold apply_line (filter (\<lambda>l. l \<noteq> Ignored) ls) st = fold apply_line ls st"
  by (induction ls arbitrary: st) simp_all

lemma trim_Cons: "\<not> is_blank c \<Longrightarrow> trim (c # s) = c # rev (dropWhile is_blank (rev s))"
  by (simp add: trim_eq dropWhile_append3)

lemma classify_comment: "classify (CHR ''#'' # s) = Ignored"
proof -
  have "trim (CHR ''#'' # s) = CHR ''#'' # rev (dropWhile is_blank (rev s))"
    by (rule trim_Cons) (simp add: is_blank_def)
  then show ?thesis by (simp add: classify_def)
qed

lemma classify_template_head:
  "fold apply_line (map classify (template_head t)) st = st"
proof -
  have "classify [] = Ignored" by (simp add: classify_def trim_eq)
  then show ?thesis
    using classify_comment by (simp add: template_head_def)
qed

lemma template_newline_free:
  assumes "CHR 0x0A \<notin> set t"
  shows "\<forall>l \<in> set (template_head t). CHR 0x0A \<notin> set l"
  using assms by (simp add: template_head_def)

lemma fold_template_sections:
  "fold apply_line (concat (map (\<lambda>(n, kvs). Section n # map (\<lambda>(k, v). Entry k v) kvs) (template_sections h c))) st
   = (''timeouts'', fold (\<lambda>((n, k), v). ini_set n k v) (entries (template_sections h c)) (snd st))"
  by (cases st) (simp add: template_sections_def template_archive_def entries_def)

lemma template_file_cases: "\<exists>h c. template_file t = template_sections h c"
  by (cases "t = ''local''"; cases "t = ''distributed''") (auto simp: template_file_def)

lemma template_body:
  "filter (\<lambda>l. l \<noteq> Ignored) (map classify
       ((if t = ''local'' then template_local
         else if t = ''distributed'' then template_distributed
         else template_production) @ template_tail)) =
   concat (map (\<lambda>(n, kvs). Section n # map (\<lambda>(k, v). Entry k v) kvs) (template_file t))"
proof -
  have "template_file t = template_file ''production''" if "t \<noteq> ''local''" "t \<noteq> ''distributed''"
    using that by (simp add: template_file_def)
  then show ?thesis
    using classify_template_local classify_template_distributed classify_template_production
    by auto
qed

lemma template_parsed:
  assumes "CHR 0x0A \<notin> set t"
  shows "parse_content (template_content t)
       = fold (\<lambda>((n, k), v). ini_set n k v) (entries (template_file t)) Map.empty"
proof -
  let ?b = "(if t = ''local'' then template_local
      else if t = ''distributed'' then template_distributed else template_production) @ template_tail"
  have "\<forall>l \<in> set (template_head t @ ?b). CHR 0x0A \<notin> set l"
    using template_newline_free [OF assms] template_newlines by auto
  then have "parse_content (template_content t)
      = snd (fold apply_line (map classify (template_head t @ ?b)) ([], Map.empty))"
    unfolding template_content_def by (rule parse_content_classify)
  also have "\<dots> = snd (fold apply_line (filter (\<lambda>l. l \<noteq> Ignored) (map classify ?b)) ([], Map.empty))"
    by (simp only: map_append fold_append comp_def classify_template_head fold_apply_line_filter)
  also have "\<dots> = fold (\<lambda>((n, k), v). ini_set n k v) (entries (template_file t)) Map.empty"
  proof -
    obtain h c where "template_file t = template_sections h c" using template_file_cases by blast
    then show ?thesis
      unfolding template_body by (simp add: fold_template_sections del: concat.simps)
  qed
  finally show ?thesis .
qed

section \<open>The settings that a file describes\<close>

definition text_or :: "string option \<Rightarrow> string \<Rightarrow> string" where
  "text_or t d = (case t of None \<Rightarrow> d | Some v \<Rightarrow> v)"

definition number_or :: "string option \<Rightarrow> (string \<Rightarrow> exn + 'n) \<Rightarrow> 'n \<Rightarrow> exn + 'n" where
  "number_or t parse d = (case t of None \<Rightarrow> Inr d | Some v \<Rightarrow> parse v)"

lemma set_text_fields:
  "set_text t (\<lambda>v s. s\<lparr>as_aeron_dir := v\<rparr>) (Inr s) = Inr (s\<lparr>as_aeron_dir := text_or t (as_aeron_dir s)\<rparr>)"
  "set_text t (\<lambda>v s. s\<lparr>as_archive_control_request_channel := v\<rparr>) (Inr s)
     = Inr (s\<lparr>as_archive_control_request_channel := text_or t (as_archive_control_request_channel s)\<rparr>)"
  "set_text t (\<lambda>v s. s\<lparr>as_archive_control_response_channel := v\<rparr>) (Inr s)
     = Inr (s\<lparr>as_archive_control_response_channel := text_or t (as_archive_control_response_channel s)\<rparr>)"
  "set_text t (\<lambda>v s. s\<lparr>as_publication_channel := v\<rparr>) (Inr s)
     = Inr (s\<lparr>as_publication_channel := text_or t (as_publication_channel s)\<rparr>)"
  "set_text t (\<lambda>v s. s\<lparr>as_subscription_channel := v\<rparr>) (Inr s)
     = Inr (s\<lparr>as_subscription_channel := text_or t (as_subscription_channel s)\<rparr>)"
  "set_text t (\<lambda>v s. s\<lparr>as_replay_channel := v\<rparr>) (Inr s)
     = Inr (s\<lparr>as_replay_channel := text_or t (as_replay_channel s)\<rparr>)"
  by (simp_all add: set_text_def text_or_def split: option.split)

lemma set_number_or:
  assumes "\<And>s. assign (get s) s = s"
  shows "set_number t parse assign (Inr s)
    = (case number_or t parse (get s) of Inl e \<Rightarrow> Inl e | Inr n \<Rightarrow> Inr (assign n s))"
  using assms by (simp add: set_number_def number_or_def split: option.split)

lemma set_Inl [simp]: "set_text t assign (Inl e) = Inl e" "set_number t parse assign' (Inl e) = Inl e"
  by (simp_all add: set_text_def set_number_def)

lemmas set_number_fields =
  set_number_or [where get = as_publication_stream_id and assign = "\<lambda>n s. s\<lparr>as_publication_stream_id := n\<rparr>"]
  set_number_or [where get = as_subscription_stream_id and assign = "\<lambda>n s. s\<lparr>as_subscription_stream_id := n\<rparr>"]
  set_number_or [where get = as_replay_stream_id and assign = "\<lambda>n s. s\<lparr>as_replay_stream_id := n\<rparr>"]
  set_number_or [where get = idle_sleep_ms and assign = "\<lambda>n s. s\<lparr>idle_sleep_ms := n\<rparr>"]
  set_number_or [where get = message_timeout_ns and assign = "\<lambda>n s. s\<lparr>message_timeout_ns := n\<rparr>"]

text \<open>The five numbers of a file, or the first that cannot be parsed.\<close>

definition ini_numbers :: "ini \<Rightarrow> exn + i32 \<times> i32 \<times> i32 \<times> i64 \<times> i64" where
  "ini_numbers m =
     (case number_or (ini_get m ''publication'' ''stream_id'')
             (\<lambda>v. parseInt v ''publication.stream_id'') PUBLICATION_STREAM_ID of
        Inl e \<Rightarrow> Inl e
      | Inr a \<Rightarrow>
     (case number_or (ini_get m ''subscription'' ''stream_id'')
             (\<lambda>v. parseInt v ''subscription.stream_id'') SUBSCRIPTION_STREAM_ID of
        Inl e \<Rightarrow> Inl e
      | Inr b \<Rightarrow>
     (case number_or (ini_get m ''replay'' ''stream_id'')
             (\<lambda>v. parseInt v ''replay.stream_id'') REPLAY_STREAM_ID of
        Inl e \<Rightarrow> Inl e
      | Inr c \<Rightarrow>
     (case number_or (ini_get m ''timeouts'' ''idle_sleep_ms'')
             (\<lambda>v. parseLongLong v ''timeouts.idle_sleep_ms'') IDLE_SLEEP_MS of
        Inl e \<Rightarrow> Inl e
      | Inr d \<Rightarrow>
     (case number_or (ini_get m ''timeouts'' ''message_timeout_ns'')
             (\<lambda>v. parseLongLong v ''timeouts.message_timeout_ns'') MESSAGE_TIMEOUT_NS of
        Inl e \<Rightarrow> Inl e
      | Inr t \<Rightarrow> Inr (a, b, c, d, t))))))"

definition ini_settings :: "ini \<Rightarrow> i32 \<times> i32 \<times> i32 \<times> i64 \<times> i64 \<Rightarrow> AeronSettings" where
  "ini_settings m = (\<lambda>(a, b, c, d, t).
     \<lparr>as_aeron_dir = text_or (ini_get m ''aeron'' ''dir'') AERON_DIR,
      as_archive_control_request_channel =
        text_or (ini_get m ''archive'' ''control_request_channel'') ARCHIVE_CONTROL_REQUEST_CHANNEL,
      as_archive_control_response_channel =
        text_or (ini_get m ''archive'' ''control_response_channel'') ARCHIVE_CONTROL_RESPONSE_CHANNEL,
      as_publication_channel = text_or (ini_get m ''publication'' ''channel'') PUBLICATION_CHANNEL,
      as_publication_stream_id = a,
      as_subscription_channel = text_or (ini_get m ''subscription'' ''channel'') SUBSCRIPTION_CHANNEL,
      as_subscription_stream_id = b,
      as_replay_channel = text_or (ini_get m ''replay'' ''channel'') REPLAY_CHANNEL,
      as_replay_stream_id = c, idle_sleep_ms = d, message_timeout_ns = t\<rparr>)"

lemma apply_ini_eq:
  "apply_ini m default_AeronSettings
     = (case ini_numbers m of Inl e \<Rightarrow> Inl e | Inr ns \<Rightarrow> Inr (ini_settings m ns))"
  unfolding apply_ini_def Let_def ini_numbers_def
  by (simp add: set_text_fields set_number_fields default_AeronSettings_def ini_settings_def
      split: sum.split)

lemma ini_numbers_Inl: "ini_numbers m = Inl e \<Longrightarrow> \<exists>msg. e = Runtime_error msg"
  by (auto simp: ini_numbers_def number_or_def parseInt_def parseLongLong_def
      split: sum.splits option.splits)

text \<open>A nonempty environment variable before the file.\<close>

definition env_or :: "(string \<rightharpoonup> string) \<Rightarrow> string \<Rightarrow> string \<Rightarrow> string" where
  "env_or env name d = (if getEnv env name \<noteq> [] then getEnv env name else d)"

lemma overrideFromEnvironment_eq:
  "overrideFromEnvironment env s =
     s\<lparr>as_aeron_dir := env_or env ''AERON_DIR'' (as_aeron_dir s),
       as_archive_control_request_channel :=
         env_or env ''AERON_ARCHIVE_CONTROL'' (as_archive_control_request_channel s),
       as_publication_channel := env_or env ''AERON_PUBLICATION_CHANNEL'' (as_publication_channel s),
       as_subscription_channel := env_or env ''AERON_SUBSCRIPTION_CHANNEL'' (as_subscription_channel s)\<rparr>"
  by (simp add: overrideFromEnvironment_def env_or_def Let_def)

lemma loadFromFile_eq:
  "loadFromFile files env path =
     (case files path of
        None \<Rightarrow> Inl (Runtime_error (''Cannot open config file: '' @ path))
      | Some content \<Rightarrow>
          (case ini_numbers (parse_content content) of
             Inl e \<Rightarrow> Inl e
           | Inr ns \<Rightarrow>
               (case validate_settings
                       (overrideFromEnvironment env (ini_settings (parse_content content) ns)) of
                  Some msg \<Rightarrow> Inl (Runtime_error (''Configuration validation failed: '' @ msg))
                | None \<Rightarrow> Inr (overrideFromEnvironment env (ini_settings (parse_content content) ns)))))"
  by (simp add: loadFromFile_def parseINI_def apply_ini_eq Let_def split: option.split sum.split)

section \<open>Properties\<close>

text \<open>C18: Printing and parsing. For a file of clean sections (trimmed names, keys without \<open>=\<close>, no
  newlines), printed one entry per line as the templates are, the parser's map contains under
  every section and key exactly the value that was printed for them last, and nothing else.\<close>
theorem ini_roundtrip:
  assumes "clean_file f"
  shows "ini_get (parse_content (print_ini f)) section key = map_of (rev (entries f)) (section, key)"
proof -
  have "parse_content (print_ini f)
      = snd (fold apply_line (map classify (concat (map section_lines f))) ([], Map.empty))"
    unfolding print_ini_def by (rule parse_content_classify) (use clean_lines [OF assms] in blast)
  then show ?thesis
    by (simp add: fold_print_ini [OF assms] split: option.split)
qed

theorem ini_roundtrip_witness:
  "ini_get (parse_content (print_ini [(''a'', [(''k'', ''1 = x'')]), (''b'', []), (''a'', [(''k'', ''2'')])]))
     ''a'' ''k'' = Some ''2''"
  by (subst ini_roundtrip)
    (simp_all add: clean_file_def clean_name_def clean_key_def clean_value_def trimmed_def is_blank_def
      entries_def)

section \<open>Loading a template\<close>

definition template_channel :: "string \<Rightarrow> string" where
  "template_channel t =
     (if t = ''local'' then ''aeron:udp?endpoint=localhost:40456''
      else if t = ''distributed'' then ''aeron:udp?endpoint=224.0.1.1:40456|interface=0.0.0.0''
      else ''aeron:udp?endpoint=MULTICAST_IP:40456|interface=0.0.0.0'')"

definition template_host :: "string \<Rightarrow> string" where
  "template_host t =
     (if t = ''local'' then ''localhost'' else if t = ''distributed'' then ''192.168.1.10''
      else ''PUBLISHER_IP'')"

definition template_settings :: "string \<Rightarrow> AeronSettings" where
  "template_settings t =
     \<lparr>as_aeron_dir = ''/dev/shm/aeron'',
      as_archive_control_request_channel = ''aeron:udp?endpoint='' @ template_host t @ '':8010'',
      as_archive_control_response_channel = ''aeron:udp?endpoint=localhost:0'',
      as_publication_channel = template_channel t, as_publication_stream_id = 10,
      as_subscription_channel = template_channel t, as_subscription_stream_id = 10,
      as_replay_channel = ''aeron:udp?endpoint=localhost:40457'', as_replay_stream_id = 20,
      idle_sleep_ms = 1, message_timeout_ns = 10000000000\<rparr>"

lemma template_file_eq: "template_file t = template_sections (template_host t) (template_channel t)"
  by (simp add: template_file_def template_host_def template_channel_def)

lemma template_numbers:
  "parseInt ''10'' k = Inr 10" "parseInt ''20'' k = Inr 20"
  "parseLongLong ''1'' k = Inr 1" "parseLongLong ''10000000000'' k = Inr 10000000000"
  by (simp_all add: parseInt_def parseLongLong_def stoi_def stoll_def strtol_int_def is_space_def
      is_digit_def digits_value_def digit_value_def)

lemma template_ini:
  assumes "CHR 0x0A \<notin> set t"
  shows "ini_numbers (parse_content (template_content t)) = Inr (10, 10, 20, 1, 10000000000)"
    "ini_settings (parse_content (template_content t)) (10, 10, 20, 1, 10000000000) = template_settings t"
  by (simp_all add: template_parsed [OF assms] template_file_eq template_sections_def
      template_archive_def entries_def ini_numbers_def ini_settings_def ini_get_set number_or_def
      text_or_def template_numbers template_settings_def)

lemma template_settings_valid: "valid_settings (template_settings t)"
  by (simp add: valid_settings_def template_settings_def valid_channel_def template_channel_def)

definition env_unset :: "(string \<rightharpoonup> string) \<Rightarrow> bool" where
  "env_unset env \<longleftrightarrow>
     list_all (\<lambda>n. getEnv env n = [])
       [''AERON_DIR'', ''AERON_ARCHIVE_CONTROL'', ''AERON_PUBLICATION_CHANNEL'', ''AERON_SUBSCRIPTION_CHANNEL'']"

lemma override_unset: "env_unset env \<Longrightarrow> overrideFromEnvironment env s = s"
  by (simp add: env_unset_def overrideFromEnvironment_def)

lemma load_template:
  assumes "CHR 0x0A \<notin> set t" and "files path = Some (template_content t)" and "env_unset env"
  shows "loadFromFile files env path = Inr (template_settings t)"
proof -
  have "validate_settings (template_settings t) = None"
    by (simp add: validate_settings_None template_settings_valid)
  then show ?thesis
    by (simp add: loadFromFile_eq assms(2) template_ini [OF assms(1)] override_unset [OF assms(3)])
qed

lemma env_unset_empty: "env_unset Map.empty"
  by (simp add: env_unset_def getEnv_def)

section \<open>Properties of loading\<close>

text \<open>C28: What a loaded configuration guarantees. \<open>loadFromFile\<close> returns settings with a directory,
  with \<open>aeron:\<close> channels for archive control, publication, subscription and replay, and with
  positive stream ids; in every other case it throws a runtime error, and nothing else.\<close>
theorem loaded_settings_valid:
  "(\<forall>s. loadFromFile files env path = Inr s \<longrightarrow> valid_settings s)
   \<and> (\<forall>e. loadFromFile files env path = Inl e \<longrightarrow> (\<exists>msg. e = Runtime_error msg))"
  using ini_numbers_Inl
  by (auto simp: loadFromFile_eq validate_settings_None split: option.splits sum.splits)

theorem loaded_settings_valid_witness:
  "valid_settings (template_settings ''local'')
   \<and> (\<exists>msg. loadFromFile Map.empty Map.empty ''missing.ini'' = Inl (Runtime_error msg))"
proof -
  let ?f = "[''x.ini'' \<mapsto> template_content ''local'']"
  have "loadFromFile ?f Map.empty ''x.ini'' = Inr (template_settings ''local'')"
    by (rule load_template) (simp_all add: env_unset_empty)
  then have "valid_settings (template_settings ''local'')"
    using loaded_settings_valid [of ?f Map.empty "''x.ini''"] by blast
  moreover obtain e where "loadFromFile Map.empty Map.empty ''missing.ini'' = Inl e"
    by (simp add: loadFromFile_eq)
  ultimately show ?thesis
    using loaded_settings_valid [of Map.empty Map.empty "''missing.ini''"] by blast
qed

text \<open>Which source a setting comes from. In loaded settings, the directory and the three channels
  that have an environment variable come from the variable if it is set and not empty, else from
  the last assignment in the file, else from \<open>AeronConfig\<close>; the response and the replay channel
  come from the file or \<open>AeronConfig\<close>, and so do the stream ids and times, whose text in the file
  is then a number that can be parsed.\<close>
theorem settings_precedence:
  assumes "files path = Some content" and "loadFromFile files env path = Inr s"
  shows "let f = ini_get (parse_content content)
         in as_aeron_dir s = env_or env ''AERON_DIR'' (text_or (f ''aeron'' ''dir'') AERON_DIR)
          \<and> as_archive_control_request_channel s = env_or env ''AERON_ARCHIVE_CONTROL''
              (text_or (f ''archive'' ''control_request_channel'') ARCHIVE_CONTROL_REQUEST_CHANNEL)
          \<and> as_publication_channel s = env_or env ''AERON_PUBLICATION_CHANNEL''
              (text_or (f ''publication'' ''channel'') PUBLICATION_CHANNEL)
          \<and> as_subscription_channel s = env_or env ''AERON_SUBSCRIPTION_CHANNEL''
              (text_or (f ''subscription'' ''channel'') SUBSCRIPTION_CHANNEL)
          \<and> as_archive_control_response_channel s
              = text_or (f ''archive'' ''control_response_channel'') ARCHIVE_CONTROL_RESPONSE_CHANNEL
          \<and> as_replay_channel s = text_or (f ''replay'' ''channel'') REPLAY_CHANNEL
          \<and> ini_numbers (parse_content content)
              = Inr (as_publication_stream_id s, as_subscription_stream_id s, as_replay_stream_id s,
                     idle_sleep_ms s, message_timeout_ns s)"
  using assms
  by (auto simp: loadFromFile_eq overrideFromEnvironment_eq ini_settings_def Let_def
      split: sum.splits option.splits)

theorem settings_precedence_witness:
  "\<exists>s. loadFromFile [''x.ini'' \<mapsto> template_content ''local''] [''AERON_PUBLICATION_CHANNEL'' \<mapsto> ''aeron:ipc''] ''x.ini'' = Inr s
     \<and> as_publication_channel s = ''aeron:ipc''"
proof -
  let ?f = "[''x.ini'' \<mapsto> template_content ''local'']"
    and ?e = "[''AERON_PUBLICATION_CHANNEL'' \<mapsto> ''aeron:ipc'']"
  define s where "s = (template_settings ''local'')\<lparr>as_publication_channel := ''aeron:ipc''\<rparr>"
  have o: "overrideFromEnvironment ?e (template_settings ''local'') = s"
    by (simp add: overrideFromEnvironment_def getEnv_def s_def)
  have "validate_settings s = None"
    using template_settings_valid [of "''local''"]
    by (simp add: validate_settings_None valid_settings_def valid_channel_def s_def)
  then have l: "loadFromFile ?f ?e ''x.ini'' = Inr s"
    by (simp add: loadFromFile_eq template_ini o)
  have f: "?f ''x.ini'' = Some (template_content ''local'')" by simp
  from settings_precedence [OF f l] have "as_publication_channel s = ''aeron:ipc''"
    by (simp add: Let_def env_or_def getEnv_def)
  with l show ?thesis by blast
qed

text \<open>A generated template can be loaded. For every template type without a newline, the file that
  \<open>generateTemplate\<close> writes is parsed, and without environment variables loaded, to the settings of
  that template; every type other than \<open>local\<close> and \<open>distributed\<close> gives the production template, whose
  placeholder hosts pass validation.\<close>
theorem template_loads:
  assumes "generateTemplate can_create path t files = Inr files'"
    and "CHR 0x0A \<notin> set t" and "env_unset env"
  shows "loadFromFile files' env path = Inr (template_settings t)"
proof -
  have "files' path = Some (template_content t)"
    using assms(1) by (auto simp: generateTemplate_def split: if_splits)
  then show ?thesis using assms(2,3) by (intro load_template)
qed

theorem template_loads_witness:
  "loadFromFile [''x.ini'' \<mapsto> template_content ''staging''] Map.empty ''x.ini''
     = Inr (template_settings ''production'')"
proof -
  have "loadFromFile [''x.ini'' \<mapsto> template_content ''staging''] Map.empty ''x.ini''
      = Inr (template_settings ''staging'')"
    by (rule template_loads [of True _ _ Map.empty])
      (simp_all add: generateTemplate_def env_unset_empty)
  then show ?thesis
    by (simp add: template_settings_def template_channel_def template_host_def)
qed

text \<open>Which texts the number parsers accept. The decimal image of a number, with or without a
  minus sign, is read back exactly when it fits an \<open>int\<close> (for \<open>parseInt\<close>) or a \<open>long long\<close> (for
  \<open>parseLongLong\<close>), and throws a runtime error otherwise; whatever follows the digits is ignored,
  so that \<open>10abc\<close> is the stream id 10.\<close>
theorem number_parsers:
  assumes "rest = [] \<or> \<not> is_digit (hd rest)"
  shows "(parseInt (decimal n @ rest) key = Inr (of_nat n) \<longleftrightarrow> n < 2 ^ 31)
    \<and> (parseInt (CHR ''-'' # decimal n @ rest) key = Inr (- of_nat n) \<longleftrightarrow> n \<le> 2 ^ 31)
    \<and> (parseLongLong (decimal n @ rest) key = Inr (of_nat n) \<longleftrightarrow> n < 2 ^ 63)
    \<and> (parseLongLong (CHR ''-'' # decimal n @ rest) key = Inr (- of_nat n) \<longleftrightarrow> n \<le> 2 ^ 63)"
  by (simp add: parseInt_def parseLongLong_def stoi_def stoll_def strtol_decimal [OF assms])

theorem number_parsers_witness:
  "parseInt (decimal 10 @ ''abc'') ''replay.stream_id'' = Inr 10"
  using number_parsers [of "''abc''" 10 "''replay.stream_id''"] by (simp add: is_digit_def)

end
