(* ===== verification/Command_Line.thy ===== *)
theory Command_Line
  imports Text
begin

text \<open>
  The option loops of the \<open>main\<close> functions. \<open>getopt_long\<close> is a library function: the sequence of
  options that it returns, each with its argument, is an argument here, and an option that it
  does not know comes as \<open>?\<close>.
\<close>

type_synonym cli_option = "char \<times> string"

text \<open>An option either ends the program or goes on with new settings.\<close>

fun parse_options :: "('o \<Rightarrow> 'c \<Rightarrow> 'e + 'c) \<Rightarrow> 'o list \<Rightarrow> 'c \<Rightarrow> 'e + 'c" where
  "parse_options f [] c = Inr c"
| "parse_options f (opt # opts) c =
     (case f opt c of Inl e \<Rightarrow> Inl e | Inr c' \<Rightarrow> parse_options f opts c')"

text \<open>Options that are accepted one after the other are accepted together.\<close>

lemma parse_options_append:
  "parse_options f (xs @ ys) c =
     (case parse_options f xs c of Inl e \<Rightarrow> Inl e | Inr c' \<Rightarrow> parse_options f ys c')"
  by (induction xs arbitrary: c) (simp_all split: sum.split)

lemma parse_options_invariant:
  assumes "parse_options f opts c = Inr c'" and "I c"
    and "\<And>opt c c'. I c \<Longrightarrow> f opt c = Inr c' \<Longrightarrow> I c'"
  shows "I c'"
  using assms by (induction opts arbitrary: c) (auto split: sum.splits)

end
