(* ===== verification/Publisher_Main.thy ===== *)
theory Publisher_Main
  imports Publisher_Steps Config_Loader Command_Line
begin

text \<open>
  The two programs that publish: \<open>publisher/src/main.cpp\<close>, from the command line to the running
  publisher, and the test program \<open>test_message_publisher.cpp\<close>.
\<close>

section \<open>Options\<close>

record publisher_cli =
  pl_config_file :: string
  pl_print_config_only :: bool
  pl_aeron_dir :: string
  pl_pub_channel :: string
  pl_pub_stream_id :: i32
  pl_archive_control :: string
  pl_archive_response :: string
  pl_interval :: i32
  pl_auto_record :: bool

definition default_publisher_cli :: publisher_cli where
  "default_publisher_cli =
     \<lparr>pl_config_file = '''', pl_print_config_only = False, pl_aeron_dir = '''', pl_pub_channel = '''',
      pl_pub_stream_id = - 1, pl_archive_control = '''', pl_archive_response = '''',
      pl_interval = - 1, pl_auto_record = False\<rparr>"

definition publisher_option :: "cli_option \<Rightarrow> publisher_cli \<Rightarrow> nat + publisher_cli" where
  "publisher_option opt c =
     (let (o', optarg) = opt
      in if o' = CHR ''f'' then Inr (c\<lparr>pl_config_file := optarg\<rparr>)
         else if o' = CHR ''a'' then Inr (c\<lparr>pl_aeron_dir := optarg\<rparr>)
         else if o' = CHR ''c'' then Inr (c\<lparr>pl_pub_channel := optarg\<rparr>)
         else if o' = CHR ''s'' then Inr (c\<lparr>pl_pub_stream_id := atoi optarg\<rparr>)
         else if o' = CHR ''r'' then Inr (c\<lparr>pl_archive_control := optarg\<rparr>)
         else if o' = CHR ''p'' then Inr (c\<lparr>pl_archive_response := optarg\<rparr>)
         else if o' = CHR ''i'' then Inr (c\<lparr>pl_interval := atoi optarg\<rparr>)
         else if o' = CHR ''A'' then Inr (c\<lparr>pl_auto_record := True\<rparr>)
         else if o' = CHR ''P'' then Inr (c\<lparr>pl_print_config_only := True\<rparr>)
         else if o' = CHR ''h'' then Inl 0
         else Inl 1)"

section \<open>Configuration\<close>

definition publisher_override :: "publisher_cli \<Rightarrow> AeronSettings \<Rightarrow> AeronSettings" where
  "publisher_override c s =
     (let s1 = (if pl_aeron_dir c \<noteq> [] then s\<lparr>as_aeron_dir := pl_aeron_dir c\<rparr> else s);
          s2 = (if pl_pub_channel c \<noteq> [] then s1\<lparr>as_publication_channel := pl_pub_channel c\<rparr> else s1);
          s3 = (if pl_pub_stream_id c \<noteq> - 1 then s2\<lparr>as_publication_stream_id := pl_pub_stream_id c\<rparr> else s2);
          s4 = (if pl_archive_control c \<noteq> []
                then s3\<lparr>as_archive_control_request_channel := pl_archive_control c\<rparr> else s3)
      in if pl_archive_response c \<noteq> []
         then s4\<lparr>as_archive_control_response_channel := pl_archive_response c\<rparr> else s4)"

definition publisher_config :: "publisher_cli \<Rightarrow> AeronSettings \<Rightarrow> PublisherConfig" where
  "publisher_config c s =
     (let p = default_PublisherConfig
            \<lparr>pc_aeron_dir := as_aeron_dir s,
             pc_publication_channel := as_publication_channel s,
             pc_publication_stream_id := as_publication_stream_id s,
             pc_archive_control_request_channel := as_archive_control_request_channel s,
             pc_archive_control_response_channel := as_archive_control_response_channel s,
             auto_record := pl_auto_record c\<rparr>
      in if pl_interval c \<noteq> - 1 then p\<lparr>message_interval_ms := pl_interval c\<rparr> else p)"

text \<open>Up to the construction of the publisher: an exit code, or the configuration.\<close>

definition publisher_main_config ::
  "(string \<rightharpoonup> string) \<Rightarrow> (string \<rightharpoonup> string) \<Rightarrow> cli_option list \<Rightarrow> nat + PublisherConfig" where
  "publisher_main_config files env opts =
     (case parse_options publisher_option opts default_publisher_cli of
        Inl code \<Rightarrow> Inl code
      | Inr c \<Rightarrow>
          (case (if pl_config_file c \<noteq> [] then loadFromFile files env (pl_config_file c)
                 else Inr loadDefault) of
             Inl e \<Rightarrow> Inl 1
           | Inr settings \<Rightarrow>
               let s = publisher_override c settings
               in if pl_print_config_only c then Inl 0 else Inr (publisher_config c s)))"

text \<open>The whole program: \<open>None\<close> when it waits for the publication for ever, else the exit code or the
  publisher that \<open>run\<close> is called on.\<close>

definition publisher_main ::
  "(string \<rightharpoonup> string) \<Rightarrow> (string \<rightharpoonup> string) \<Rightarrow> publisher_env \<Rightarrow> cli_option list
    \<Rightarrow> (nat + AeronPublisher) option" where
  "publisher_main files env penv opts =
     (case publisher_main_config files env opts of
        Inl code \<Rightarrow> Some (Inl code)
      | Inr cfg \<Rightarrow>
          (case pub_initialize penv (new_AeronPublisher cfg) of
             None \<Rightarrow> None
           | Some (ok, p) \<Rightarrow> if \<not> ok then Some (Inl 1) else Some (Inr p)))"

section \<open>The test program\<close>

text \<open>\<open>tp_offered\<close> records the messages offered with the results.\<close>

record test_publisher =
  tp_sequence :: u64
  tp_sent :: i32
  tp_offered :: "(u8 list \<times> i64) list"

definition test_interval :: "string list \<Rightarrow> i32" where
  "test_interval argv = (if length argv > 1 then atoi (argv ! 1) else 100)"

definition test_count :: "string list \<Rightarrow> i32" where
  "test_count argv = (if length argv > 2 then atoi (argv ! 2) else 100)"

text \<open>One pass of the loop with the transport's answer \<open>r\<close>; the branches on a refused message
  differ only in what they print and how long they sleep.\<close>

definition test_iteration :: "i64 \<Rightarrow> i64 \<Rightarrow> u8 list \<Rightarrow> i64 \<Rightarrow> test_publisher \<Rightarrow> test_publisher" where
  "test_iteration t1 t2 junk r s =
     (let (buffer, n, next) = build_frame (tp_sequence s) t1 t2 junk;
          s1 = s\<lparr>tp_sequence := next, tp_offered := tp_offered s @ [(take n buffer, r)]\<rparr>
      in if 0 < sint r then s1\<lparr>tp_sent := tp_sent s1 + 1\<rparr> else s1)"

text \<open>The loop over the transport's answers, each with the value of the flag \<open>running\<close> and the two
  clock readings: it ends when the flag is cleared or enough messages were sent.\<close>

fun test_loop ::
  "i32 \<Rightarrow> (bool \<times> i64 \<times> i64 \<times> u8 list \<times> i64) list \<Rightarrow> test_publisher \<Rightarrow> test_publisher" where
  "test_loop wanted [] s = s"
| "test_loop wanted ((go, t1, t2, junk, r) # as) s =
     (if go \<and> sint (tp_sent s) < sint wanted
      then test_loop wanted as (test_iteration t1 t2 junk r s) else s)"

definition test_start :: test_publisher where
  "test_start = \<lparr>tp_sequence = 0, tp_sent = 0, tp_offered = []\<rparr>"

text \<open>The program, up to the transport's last answer in the list: \<open>None\<close> when it waits for the publication
  for ever, else the exit code of a failed start or the state of the loop. Only the first three
  answers of the library in \<open>publisher_env\<close> occur.\<close>

definition test_main ::
  "publisher_env \<Rightarrow> string list \<Rightarrow> (bool \<times> i64 \<times> i64 \<times> u8 list \<times> i64) list
    \<Rightarrow> (nat + test_publisher) option" where
  "test_main env argv answers =
     (case pe_connect env of
        Some e \<Rightarrow> Some (Inl 1)
      | None \<Rightarrow>
          (case pe_addPublication env of
             Inl e \<Rightarrow> Some (Inl 1)
           | Inr pubId \<Rightarrow>
               (case wait_for (pe_findPublication env pubId) 0 of
                  None \<Rightarrow> None
                | Some (Inl e) \<Rightarrow> Some (Inl 1)
                | Some (Inr k) \<Rightarrow> Some (Inr (test_loop (test_count argv) answers test_start)))))"

section \<open>Properties of the publisher program\<close>

lemma publisher_override_simps:
  "as_publication_channel (publisher_override c s)
     = (if pl_pub_channel c \<noteq> [] then pl_pub_channel c else as_publication_channel s)"
  "as_publication_stream_id (publisher_override c s)
     = (if pl_pub_stream_id c \<noteq> - 1 then pl_pub_stream_id c else as_publication_stream_id s)"
  by (simp_all add: publisher_override_def Let_def)

lemma publisher_config_simps:
  "pc_publication_channel (publisher_config c s) = as_publication_channel s"
  "pc_publication_stream_id (publisher_config c s) = as_publication_stream_id s"
  by (simp_all add: publisher_config_def Let_def)

lemma loaded_valid: "loadFromFile files env path = Inr s \<Longrightarrow> valid_settings s"
  by (auto simp: loadFromFile_eq validate_settings_None split: option.splits sum.splits)

text \<open>Options bypass the validation. Whatever text is given as \<open>--pub-channel\<close> and whatever number
  as \<open>--pub-stream-id\<close> (but \<open>-1\<close>), the program goes on to the publisher with them, while no
  configuration file with a channel that lacks \<open>aeron:\<close> or with a stream id that is not positive
  can be loaded.\<close>
theorem options_bypass_validation:
  assumes "loadFromFile files env path = Inr s" and "path \<noteq> []" and "c \<noteq> []" and "atoi t \<noteq> - 1"
  shows "(\<exists>cfg. publisher_main_config files env [(CHR ''f'', path), (CHR ''c'', c), (CHR ''s'', t)] = Inr cfg
            \<and> pc_publication_channel cfg = c \<and> pc_publication_stream_id cfg = atoi t)
    \<and> (\<not> valid_channel c \<or> sint (atoi t) \<le> 0 \<longrightarrow>
        \<not> (\<exists>files' env' path' s'. loadFromFile files' env' path' = Inr s'
             \<and> as_publication_channel s' = c \<and> as_publication_stream_id s' = atoi t))"
proof -
  have "\<exists>cfg. publisher_main_config files env [(CHR ''f'', path), (CHR ''c'', c), (CHR ''s'', t)] = Inr cfg
      \<and> pc_publication_channel cfg = c \<and> pc_publication_stream_id cfg = atoi t"
    using assms
    by (simp add: publisher_main_config_def publisher_option_def default_publisher_cli_def Let_def
        publisher_config_simps publisher_override_simps)
  then show ?thesis
    using loaded_valid by (fastforce simp: valid_settings_def)
qed

theorem options_bypass_validation_witness:
  "\<exists>cfg. publisher_main_config [''x.ini'' \<mapsto> template_content ''local''] Map.empty
      [(CHR ''f'', ''x.ini''), (CHR ''c'', ''udp''), (CHR ''s'', ''ten'')] = Inr cfg
    \<and> pc_publication_channel cfg = ''udp'' \<and> pc_publication_stream_id cfg = 0"
proof -
  have "loadFromFile [''x.ini'' \<mapsto> template_content ''local''] Map.empty ''x.ini'' = Inr (template_settings ''local'')"
    by (rule load_template) (simp_all add: env_unset_empty)
  moreover have "atoi ''ten'' = 0"
    by (simp add: atoi_def strtol_int_def is_space_def is_digit_def)
  ultimately show ?thesis
    using options_bypass_validation [of "[''x.ini'' \<mapsto> template_content ''local'']" Map.empty "''x.ini''"
        "template_settings ''local''" "''udp''" "''ten''"] by simp
qed

lemma connect_archive_count: "pub_message_count (snd (connect_archive env p)) = pub_message_count p"
  by (simp add: connect_archive_def Let_def split: option.split)

lemma pub_initialize_fresh:
  assumes "pub_initialize env (new_AeronPublisher cfg) = Some (True, p)"
  shows "pub_running p" "pub_publication p" "pub_message_count p = 0"
proof -
  let ?p = "new_AeronPublisher cfg"
  have c: "pe_connect env = None"
    using assms by (cases "pe_connect env") (simp_all add: pub_initialize_def Let_def)
  obtain k where k: "publication_found env k"
    using pub_initialize_not_found(1) [OF assms] by blast
  define p1 where "p1 = ?p\<lparr>pub_context := Some (pc_aeron_dir (pub_config ?p)), pub_aeron := True,
      pub_publication := True\<rparr>"
  have r: "connect_archive env p1 = (True, p)"
    using pub_initialize_found [OF c k, of ?p] assms by (simp add: p1_def)
  have "pub_publication p1" "pub_message_count p1 = 0"
    by (simp_all add: p1_def new_AeronPublisher_def)
  with connect_archive_result [of env p1] connect_archive_count [of env p1]
  show "pub_running p" "pub_publication p" "pub_message_count p = 0" by (simp_all add: r)
qed

text \<open>C30: When the publisher program ends. Once the program has initialised its publisher, its command
  loop, and with it the program, ends if and only if the word \<open>quit\<close> is in the input: neither the end
  of the input, after which the last command is repeated for ever, nor a signal, whose handler
  sets a flag that nothing reads, ends it. The messages it offers meanwhile are numbered from 0.\<close>
theorem publisher_ends_iff_quit:
  assumes "publisher_main files env penv opts = Some (Inr p)"
  shows "((\<exists>p'. command_loop a st 0 input [] p = Some p') \<longleftrightarrow> ''quit'' \<in> set input)
    \<and> (\<forall>s. ps_reachable input p s \<longrightarrow> offers_numbered (ps_offers s))"
proof -
  obtain cfg where "pub_initialize penv (new_AeronPublisher cfg) = Some (True, p)"
    using assms by (auto simp: publisher_main_def split: sum.splits option.splits if_splits)
  note p = pub_initialize_fresh [OF this]
  show ?thesis
    using command_loop_ends_iff [OF p(1)] ps_reachable_inv [OF _ p(2,3)] by (auto simp: ps_inv_def)
qed

theorem publisher_ends_iff_quit_witness:
  "\<exists>p. publisher_main Map.empty Map.empty example_env [(CHR ''A'', [])] = Some (Inr p)
     \<and> \<not> (\<exists>p'. command_loop (\<lambda>k. example_script (Inr 3)) (\<lambda>k i. None) 0 [''start'', ''stop''] [] p = Some p')"
proof -
  have e: "pe_connect example_env = None" "publication_found example_env 2"
    by (auto simp: example_env_def publication_found_def list_all_iff)
  have "\<exists>p. publisher_main Map.empty Map.empty example_env [(CHR ''A'', [])] = Some (Inr p)"
    using connect_archive_result(1) [of example_env]
    by (simp add: publisher_main_def publisher_main_config_def publisher_option_def
        default_publisher_cli_def Let_def pub_initialize_found [OF e] case_prod_beta)
      (simp add: example_env_def)
  then obtain p where p: "publisher_main Map.empty Map.empty example_env [(CHR ''A'', [])] = Some (Inr p)" ..
  from publisher_ends_iff_quit [OF p, of "\<lambda>k. example_script (Inr 3)" "\<lambda>k i. None" "[''start'', ''stop'']"]
  show ?thesis using p by auto
qed

section \<open>Properties of the test program\<close>

definition test_inv :: "i32 \<Rightarrow> test_publisher \<Rightarrow> bool" where
  "test_inv wanted s \<longleftrightarrow>
     offers_numbered (tp_offered s) \<and> tp_sequence s = of_nat (length (tp_offered s))
     \<and> sint (tp_sent s) = int (length (filter is_success (tp_offered s)))
     \<and> sint (tp_sent s) \<le> max 0 (sint wanted)"

lemma sint_inc:
  assumes "sint (x :: i32) < sint (y :: i32)"
  shows "sint (x + 1) = sint x + 1"
proof -
  have "sint y < 2 ^ 31" "- (2 ^ 31) \<le> sint x"
    using sint_lt [of y] sint_ge [of x] by simp_all
  with assms show ?thesis
    by (simp add: sint_word_ariths(1) signed_take_bit_int_eq_self)
qed

lemma test_iteration_inv:
  assumes "test_inv wanted s" and "sint (tp_sent s) < sint wanted"
  shows "test_inv wanted (test_iteration t1 t2 junk r s)"
  using assms sint_inc [OF assms(2)]
  by (simp add: test_inv_def test_iteration_def build_frame_sent take_frame offers_numbered_snoc
      is_success_def Let_def del: take_append)

lemma test_loop_inv: "test_inv wanted s \<Longrightarrow> test_inv wanted (test_loop wanted as s)"
  by (induction wanted as s rule: test_loop.induct) (simp_all add: test_iteration_inv)

text \<open>What the test program sends. Whatever the transport answers, the \<open>i\<close>-th message that it offers
  has sequence number \<open>i\<close>, also when the message before was refused and should have been retried;
  it counts exactly the messages taken, and never more than asked for.\<close>
theorem test_publisher_numbers:
  "let s = test_loop wanted answers test_start
   in offers_numbered (tp_offered s)
    \<and> sint (tp_sent s) = int (length (filter is_success (tp_offered s)))
    \<and> sint (tp_sent s) \<le> max 0 (sint wanted)"
proof -
  have "test_inv wanted test_start"
    by (simp add: test_inv_def test_start_def offers_numbered_def)
  from test_loop_inv [OF this, of answers] show ?thesis
    by (simp add: test_inv_def Let_def)
qed

end
