(* ===== verification/Subscriber_Session.thy ===== *)
theory Subscriber_Session
  imports Subscriber_Reception Polling Text
begin

text \<open>
  The life of an \<open>AeronSubscriber\<close> (\<open>subscriber/src/AeronSubscriber.cpp\<close>): \<open>initialize\<close>, \<open>startLive\<close>,
  \<open>startReplayMerge\<close>, \<open>startReplayMergeAuto\<close>, the receive loop \<open>run\<close> and \<open>shutdown\<close>, and the
  parser of the old text messages. What the client library answers is an argument: the exceptions,
  when a subscription is found, and what each poll delivers.
\<close>

section \<open>Initialisation\<close>

text \<open>The subscriber with the library objects it holds beside those in \<open>AeronSubscriber\<close>.\<close>

record session =
  ss_sub :: AeronSubscriber
  ss_context :: "string option"
  ss_aeron :: bool
  ss_archive_context :: "(string \<times> string) option"
  ss_message_callback :: bool

definition new_session :: "AeronSubscriber \<Rightarrow> session" where
  "new_session s = \<lparr>ss_sub = s, ss_context = None, ss_aeron = False, ss_archive_context = None,
     ss_message_callback = False\<rparr>"

text \<open>The deprecated callback is stored and never called.\<close>

definition setMessageCallback :: "session \<Rightarrow> session" where
  "setMessageCallback s = s\<lparr>ss_message_callback := True\<rparr>"

definition getCheckpointManager :: "AeronSubscriber \<Rightarrow> CheckpointManager option" where
  "getCheckpointManager s = sub_checkpoint s"

definition control_channel :: "SubscriberConfig \<Rightarrow> string" where
  "control_channel cfg =
     (if sc_archive_control_channel cfg = [] then ARCHIVE_CONTROL_REQUEST_CHANNEL
      else sc_archive_control_channel cfg)"

text \<open>\<open>connect\<close> and \<open>archive_connect\<close>: the exceptions of the two connection attempts, if any.\<close>

definition sub_initialize ::
  "exn option \<Rightarrow> exn option \<Rightarrow> session \<Rightarrow> bool \<times> session" where
  "sub_initialize connect archive_connect s =
     (let s1 = s\<lparr>ss_context := Some (sc_aeron_dir (config (ss_sub s)))\<rparr>
      in case connect of
           Some e \<Rightarrow> (False, s1)
         | None \<Rightarrow>
             let s2 = s1\<lparr>ss_aeron := True,
                    ss_archive_context :=
                      Some (control_channel (config (ss_sub s)), ARCHIVE_CONTROL_RESPONSE_CHANNEL)\<rparr>
             in case archive_connect of
                  Some e \<Rightarrow> (False, s2)
                | None \<Rightarrow> (True, s2\<lparr>ss_sub := (ss_sub s2)\<lparr>sub_archive := True, sub_running := True\<rparr>\<rparr>))"

section \<open>Starting\<close>

text \<open>
  What the library answers to a start: the result of \<open>addSubscription\<close>, of the polls of
  \<open>findSubscription\<close>, and the exception of the \<open>ReplayMerge\<close> constructor, if any.
\<close>

record start_env =
  st_addSubscription :: "exn + i64"
  st_findSubscription :: "i64 \<Rightarrow> nat \<Rightarrow> exn + bool"
  st_ReplayMerge :: "exn option"

text \<open>\<open>addSubscription\<close> and the loop that waits for it. On an exception of the first
  \<open>findSubscription\<close> the member keeps its value; a later one leaves it null. \<open>None\<close>: it waits for
  ever.\<close>

definition open_subscription ::
  "start_env \<Rightarrow> AeronSubscriber \<Rightarrow> (exn option \<times> AeronSubscriber) option" where
  "open_subscription env s =
     (case st_addSubscription env of
        Inl e \<Rightarrow> Some (Some e, s)
      | Inr subscription_id \<Rightarrow>
          (case wait_for (st_findSubscription env subscription_id) 0 of
             None \<Rightarrow> None
           | Some (Inl e) \<Rightarrow>
               (case st_findSubscription env subscription_id 0 of
                  Inl e0 \<Rightarrow> Some (Some e, s)
                | Inr found \<Rightarrow> Some (Some e, s\<lparr>sub_subscription := None\<rparr>))
           | Some (Inr k) \<Rightarrow> Some (None, s\<lparr>sub_subscription := Some subscription_id\<rparr>)))"

text \<open>\<open>startLive\<close> does not catch anything: an exception is passed on to the caller.\<close>

definition startLive :: "start_env \<Rightarrow> AeronSubscriber \<Rightarrow> ((exn + bool) \<times> AeronSubscriber) option" where
  "startLive env s =
     (case open_subscription env s of
        None \<Rightarrow> None
      | Some (Some e, s') \<Rightarrow> Some (Inl e, s')
      | Some (None, s') \<Rightarrow> Some (Inr True, s'))"

definition startReplayMerge ::
  "start_env \<Rightarrow> i64 \<Rightarrow> i64 \<Rightarrow> AeronSubscriber \<Rightarrow> (bool \<times> AeronSubscriber) option" where
  "startReplayMerge env recordingId startPosition s =
     (case open_subscription env s of
        None \<Rightarrow> None
      | Some (Some e, s') \<Rightarrow> Some (False, s')
      | Some (None, s') \<Rightarrow>
          (case st_ReplayMerge env of
             Some e \<Rightarrow> Some (False, s')
           | None \<Rightarrow> Some (True, s'\<lparr>sub_replay_merge := Some (recordingId, startPosition)\<rparr>)))"

text \<open>The stop position is only printed.\<close>

definition startReplayMergeAuto ::
  "archive_client \<Rightarrow> start_env \<Rightarrow> i64 \<Rightarrow> AeronSubscriber \<Rightarrow> (bool \<times> AeronSubscriber) option" where
  "startReplayMergeAuto ar env startPosition s =
     (let recordingId = findLatestRecording ar (channel_of (config s)) (sc_subscription_stream_id (config s))
      in if sint recordingId < 0 then Some (False, s)
         else startReplayMerge env recordingId startPosition s)"

section \<open>The receive loop\<close>

text \<open>
  A poll delivers up to ten fragments, each with the two clock readings that its handling takes,
  and tells whether the merge has completed or failed.
\<close>

record fragment =
  fr_recv_timestamp :: i64
  fr_now :: i64
  fr_bytes :: "u8 list"
  fr_position :: i64

record poll_answer =
  pa_fragments :: "fragment list"
  pa_merged :: bool
  pa_failed :: bool

definition fragmentHandler :: "archive_client \<Rightarrow> fragment \<Rightarrow> zc_world \<Rightarrow> zc_world" where
  "fragmentHandler ar f w =
     handleMessage ar (fr_recv_timestamp f) (fr_now f) (fr_bytes f) (fr_position f) w"

text \<open>One pass through the body of \<open>while (running_)\<close>: whether the loop is left by \<open>break\<close>, and the world.\<close>

definition run_iteration ::
  "archive_client \<Rightarrow> poll_answer \<Rightarrow> zc_world \<Rightarrow> bool \<times> zc_world" where
  "run_iteration ar a w =
     (if sub_replay_merge (sub w) \<noteq> None then
        let w1 = fold (fragmentHandler ar) (pa_fragments a) w
        in if pa_merged a then (False, w1\<lparr>sub := (sub w1)\<lparr>sub_replay_merge := None\<rparr>\<rparr>)
           else if pa_failed a then (True, w1\<lparr>sub := (sub w1)\<lparr>sub_replay_merge := None\<rparr>\<rparr>)
           else (False, w1)
      else if sub_subscription (sub w) \<noteq> None then
        (False, fold (fragmentHandler ar) (pa_fragments a) w)
      else (False, w))"

text \<open>
  The loop over the polls of a list: the flag tells whether \<open>run\<close> has returned; otherwise it is
  about to make the poll after the last one of the list.
\<close>

fun run_loop :: "archive_client \<Rightarrow> poll_answer list \<Rightarrow> zc_world \<Rightarrow> bool \<times> zc_world" where
  "run_loop ar [] w = (\<not> sub_running (sub w), w)"
| "run_loop ar (a # as) w =
     (if \<not> sub_running (sub w) then (True, w)
      else let (broke, w1) = run_iteration ar a w
           in if broke then (True, w1) else run_loop ar as w1)"

definition sub_run :: "archive_client \<Rightarrow> poll_answer list \<Rightarrow> zc_world \<Rightarrow> bool \<times> zc_world" where
  "sub_run ar as w =
     (if sub_subscription (sub w) = None \<and> sub_replay_merge (sub w) = None then (True, w)
      else run_loop ar as w)"

section \<open>Shutdown\<close>

definition sub_shutdown :: "session \<Rightarrow> session" where
  "sub_shutdown s =
     s\<lparr>ss_sub := (ss_sub s)\<lparr>sub_running := False, sub_replay_merge := None, sub_subscription := None,
                            sub_archive := False\<rparr>,
       ss_aeron := False\<rparr>"

section \<open>The old text messages\<close>

definition extractMessageNumber :: "string \<Rightarrow> i64" where
  "extractMessageNumber message =
     (case str_find message ''Message '' 0 of
        None \<Rightarrow> - 1
      | Some msg_pos \<Rightarrow>
          let num_start = msg_pos + 8
          in case str_find message '' '' num_start of
               None \<Rightarrow> - 1
             | Some num_end \<Rightarrow>
                 (case stoll (substr message num_start (num_end - num_start)) of
                    Inl e \<Rightarrow> - 1
                  | Inr n \<Rightarrow> n))"

section \<open>What the fragment handler keeps\<close>

definition with_merge :: "(i64 \<times> i64) option \<Rightarrow> zc_world \<Rightarrow> zc_world" where
  "with_merge r w = w\<lparr>sub := (sub w)\<lparr>sub_replay_merge := r\<rparr>\<rparr>"

lemma with_merge_simps [simp]:
  "bpool (with_merge r w) = bpool w" "mqueue (with_merge r w) = mqueue w"
  "sub (with_merge r w) = (sub w)\<lparr>sub_replay_merge := r\<rparr>"
  "with_merge r (with_merge r' w) = with_merge r w"
  by (simp_all add: with_merge_def)

lemma with_merge_same: "sub_replay_merge (sub w) = r \<Longrightarrow> with_merge r w = w"
  by (simp add: with_merge_def)

lemma detectAndRecoverGap_merge:
  "detectAndRecoverGap ar n (s\<lparr>sub_replay_merge := r\<rparr>) = (detectAndRecoverGap ar n s)\<lparr>sub_replay_merge := r\<rparr>"
  by (simp add: detectAndRecoverGap_def checkForGaps_def triggerImmediateGapRecovery_def Let_def)

lemma addToDecluplicationBuffer_merge:
  "addToDecluplicationBuffer n (s\<lparr>sub_replay_merge := r\<rparr>)
     = (addToDecluplicationBuffer n s)\<lparr>sub_replay_merge := r\<rparr>"
  by (simp add: addToDecluplicationBuffer_def)

lemma recordReception_merge:
  "recordReception now n pos (s\<lparr>sub_replay_merge := r\<rparr>) = (recordReception now n pos s)\<lparr>sub_replay_merge := r\<rparr>"
  by (simp add: recordReception_def Let_def split: option.split)

lemma isDuplicate_merge: "isDuplicate (s\<lparr>sub_replay_merge := r\<rparr>) = isDuplicate s"
  by (simp add: isDuplicate_def fun_eq_iff)

text \<open>The members that the handling of a message does not touch.\<close>

definition connection :: "AeronSubscriber \<Rightarrow> bool \<times> ptr \<times> ptr \<times> i64 option \<times> (i64 \<times> i64) option" where
  "connection s = (sub_running s, sub_buffer_pool s, sub_message_queue s, sub_subscription s, sub_replay_merge s)"

lemma connection_tracking:
  "connection (detectAndRecoverGap ar n s) = connection s"
  "connection (addToDecluplicationBuffer n s) = connection s"
  "connection (recordReception now n pos s) = connection s"
  "connection (s\<lparr>expected_sequence := m\<rparr>) = connection s"
  by (simp_all add: connection_def detectAndRecoverGap_def checkForGaps_def
      triggerImmediateGapRecovery_def addToDecluplicationBuffer_def recordReception_def Let_def
      split: option.split)

lemma connection_counters:
  "connection (s\<lparr>zc_buffer_allocation_failures := a\<rparr>) = connection s"
  "connection (s\<lparr>duplicates_detected := a\<rparr>) = connection s"
  "connection (s\<lparr>zc_queue_full_failures := a\<rparr>) = connection s"
  by (simp_all add: connection_def)

lemma connection_fast_path:
  "connection (sub (handleMessageFastPath ar t now d pos w)) = connection (sub w)"
  by (simp add: handleMessageFastPath_def Let_def case_prod_beta connection_tracking
      connection_counters)

lemma tracked_merge:
  "tracked ar n (s\<lparr>sub_replay_merge := r\<rparr>) = (tracked ar n s)\<lparr>sub_replay_merge := r\<rparr>"
proof -
  have "tracked ar n u = (let s1 = (detectAndRecoverGap ar n u)\<lparr>expected_sequence := n + 1\<rparr>
      in if duplicate_check_enabled (config u) then addToDecluplicationBuffer n s1 else s1)" for u
    by (simp add: tracked_def Let_def)
  moreover have "(detectAndRecoverGap ar n (s\<lparr>sub_replay_merge := r\<rparr>))\<lparr>expected_sequence := n + 1\<rparr>
      = ((detectAndRecoverGap ar n s)\<lparr>expected_sequence := n + 1\<rparr>)\<lparr>sub_replay_merge := r\<rparr>"
    by (simp add: detectAndRecoverGap_merge)
  ultimately show ?thesis
    by (simp only: Let_def addToDecluplicationBuffer_merge split: if_split) simp
qed

text \<open>The fast path from step 4 on, for the buffer \<open>a\<close> with message number \<open>n\<close> in the pool \<open>p\<close>.\<close>

definition fast_tail ::
  "archive_client \<Rightarrow> i64 \<Rightarrow> i64 \<Rightarrow> ptr \<Rightarrow> BufferPool \<Rightarrow> i64 \<Rightarrow> i64 \<Rightarrow> zc_world \<Rightarrow> zc_world" where
  "fast_tail ar now position a p n n' w =
     (let s1 = detectAndRecoverGap ar n (sub w)
      in if duplicate_check_enabled (config s1) \<and> isDuplicate s1 n then
           w\<lparr>sub := s1\<lparr>duplicates_detected := duplicates_detected s1 + 1\<rparr>, bpool := deallocate p a\<rparr>
         else
           let s3 = tracked ar n (sub w); q = mq_enqueue (mqueue w) a
           in if \<not> fst q then
                w\<lparr>sub := s3\<lparr>zc_queue_full_failures := zc_queue_full_failures s3 + 1\<rparr>,
                  bpool := deallocate p a, mqueue := snd q\<rparr>
              else w\<lparr>sub := recordReception now n' position s3, bpool := p, mqueue := snd q\<rparr>)"

definition fast_head :: "i64 \<Rightarrow> u8 list \<Rightarrow> BufferPool \<Rightarrow> ptr \<times> BufferPool" where
  "fast_head t d p =
     (let (a, p1) = allocate p; p2 = store p1 a (copyFromAeron (deref p1 a) d); b = deref p2 a
      in (a, store p2 a (b\<lparr>header := (header b)\<lparr>recv_time_ns := t\<rparr>\<rparr>)))"

lemma fast_path_head_tail:
  "handleMessageFastPath ar t now d pos w =
     (if fst (allocate (bpool w)) = nullptr then
        w\<lparr>sub := (sub w)\<lparr>zc_buffer_allocation_failures := zc_buffer_allocation_failures (sub w) + 1\<rparr>,
          bpool := snd (allocate (bpool w))\<rparr>
      else let h = fast_head t d (bpool w); n = sequence_number (header (deref (snd h) (fst h)))
        in fast_tail ar now pos (fst h) (snd h) n n w)"
  unfolding handleMessageFastPath_def fast_head_def fast_tail_def tracked_def Let_def case_prod_beta
    fst_conv snd_conv
  by (rule refl)

lemma fast_tail_merge:
  "fast_tail ar now pos a p n n' (with_merge r w) = with_merge r (fast_tail ar now pos a p n n' w)"
  unfolding fast_tail_def Let_def with_merge_simps detectAndRecoverGap_merge tracked_merge
    isDuplicate_merge
  by (cases "duplicate_check_enabled (config (sub w)) \<and> isDuplicate (sub w) n";
      cases "fst (mq_enqueue (mqueue w) a)")
     (auto simp: recordReception_merge with_merge_def)

lemma fast_path_merge:
  "handleMessageFastPath ar t now d pos (with_merge r w)
     = with_merge r (handleMessageFastPath ar t now d pos w)"
  unfolding fast_path_head_tail Let_def fast_tail_merge with_merge_simps
  by (simp add: with_merge_def)

section \<open>The loop\<close>

definition zero_copy_ready :: "AeronSubscriber \<Rightarrow> bool" where
  "zero_copy_ready s \<longleftrightarrow> sub_buffer_pool s \<noteq> nullptr \<and> sub_message_queue s \<noteq> nullptr"

lemma connection_fragment:
  "zero_copy_ready (sub w) \<Longrightarrow> connection (sub (fragmentHandler ar f w)) = connection (sub w)"
  by (simp add: fragmentHandler_def handleMessage_def zero_copy_ready_def connection_fast_path)

lemma ready_connection: "connection s = connection t \<Longrightarrow> zero_copy_ready s = zero_copy_ready t"
  by (simp add: connection_def zero_copy_ready_def)

lemma connection_fragments:
  assumes "zero_copy_ready (sub w)"
  shows "connection (sub (fold (fragmentHandler ar) fs w)) = connection (sub w)"
  using assms
proof (induction fs arbitrary: w)
  case (Cons f fs)
  from connection_fragment [OF Cons.prems] have "zero_copy_ready (sub (fragmentHandler ar f w))"
    using ready_connection Cons.prems by blast
  with Cons.IH connection_fragment [OF Cons.prems] show ?case by simp
qed simp

lemma fragments_merge:
  assumes "zero_copy_ready (sub w)"
  shows "fold (fragmentHandler ar) fs (with_merge r w) = with_merge r (fold (fragmentHandler ar) fs w)"
  using assms
proof (induction fs arbitrary: w)
  case (Cons f fs)
  have "fragmentHandler ar f (with_merge r w) = with_merge r (fragmentHandler ar f w)"
    using Cons.prems
    by (simp add: fragmentHandler_def handleMessage_def zero_copy_ready_def fast_path_merge)
  moreover have "zero_copy_ready (sub (fragmentHandler ar f w))"
    using ready_connection connection_fragment Cons.prems by blast
  ultimately show ?case using Cons.IH by simp
qed simp

lemma connection_fields:
  assumes "connection s = connection t"
  shows "sub_running s = sub_running t" "sub_subscription s = sub_subscription t"
    "sub_replay_merge s = sub_replay_merge t"
  using assms by (simp_all add: connection_def)

text \<open>The state in which \<open>run\<close> receives: running, ready, with a subscription.\<close>

definition receiving :: "AeronSubscriber \<Rightarrow> bool" where
  "receiving s \<longleftrightarrow> sub_running s \<and> zero_copy_ready s \<and> sub_subscription s \<noteq> None"

lemma receiving_merge: "receiving (s\<lparr>sub_replay_merge := r\<rparr>) = receiving s"
  by (simp add: receiving_def zero_copy_ready_def)

lemma receiving_fragments:
  assumes "receiving (sub w)"
  shows "receiving (sub (fold (fragmentHandler ar) fs w))"
proof -
  have "connection (sub (fold (fragmentHandler ar) fs w)) = connection (sub w)"
    using assms by (intro connection_fragments) (simp add: receiving_def)
  then show ?thesis
    using assms ready_connection connection_fields by (metis receiving_def)
qed

text \<open>A pass without a failure handles the fragments of its poll and may end the merge.\<close>

lemma run_iteration_receives:
  assumes "receiving (sub w)" and "pa_failed a \<longrightarrow> pa_merged a"
  shows "\<exists>r. run_iteration ar a w = (False, with_merge r (fold (fragmentHandler ar) (pa_fragments a) w))"
proof (cases "sub_replay_merge (sub w) \<noteq> None \<and> pa_merged a")
  case True
  then show ?thesis
    by (intro exI [of _ None]) (simp add: run_iteration_def with_merge_def Let_def)
next
  case False
  let ?w = "fold (fragmentHandler ar) (pa_fragments a) w"
  have "run_iteration ar a w = (False, ?w)"
  proof (cases "sub_replay_merge (sub w) = None")
    case True
    with assms(1) show ?thesis by (simp add: run_iteration_def receiving_def)
  next
    case merging: False
    with False assms(2) show ?thesis by (simp add: run_iteration_def Let_def)
  qed
  then show ?thesis
    by (intro exI [of _ "sub_replay_merge (sub ?w)"]) (simp add: with_merge_same)
qed

text \<open>The receive loop as a receiver of fragments; its world is seen without \<open>replay_merge_\<close>.\<close>

definition run_once :: "archive_client \<Rightarrow> poll_answer \<Rightarrow> zc_world \<Rightarrow> zc_world" where
  "run_once ar a w = snd (run_iteration ar a w)"

definition ends_well :: "poll_answer \<Rightarrow> bool" where
  "ends_well a \<longleftrightarrow> (pa_failed a \<longrightarrow> pa_merged a)"

lemma run_once_receives:
  assumes "receiving (sub w)" and "ends_well a"
  obtains r where "run_iteration ar a w = (False, run_once ar a w)"
    and "run_once ar a w = with_merge r (fold (fragmentHandler ar) (pa_fragments a) w)"
  using run_iteration_receives [OF assms(1), of a ar] assms(2)
  by (auto simp: run_once_def ends_well_def)

interpretation run: fragment_receiver "run_once ar" pa_fragments ends_well "\<lambda>w. receiving (sub w)"
  "fragmentHandler ar" "with_merge None" for ar
proof unfold_locales
  fix w :: zc_world and a
  assume w: "receiving (sub w)" and a: "ends_well a"
  obtain r where r: "run_once ar a w = with_merge r (fold (fragmentHandler ar) (pa_fragments a) w)"
    by (rule run_once_receives [OF w a])
  show "receiving (sub (run_once ar a w))"
    using receiving_fragments [OF w] by (simp add: r receiving_merge)
  show "with_merge None (run_once ar a w) = fold (fragmentHandler ar) (pa_fragments a) (with_merge None w)"
    using w by (simp add: r fragments_merge receiving_def)
qed

lemma run_loop_polls:
  assumes "receiving (sub w)" and "list_all ends_well as"
  shows "run_loop ar as w = (False, fold (run_once ar) as w)"
  using assms
proof (induction as arbitrary: w)
  case Nil
  then show ?case by (simp add: receiving_def)
next
  case (Cons a as)
  then have a: "receiving (sub w)" "ends_well a" by simp_all
  obtain r where "run_iteration ar a w = (False, run_once ar a w)"
    by (rule run_once_receives [OF a])
  with Cons.IH [OF run.poll_ready [OF a]] Cons.prems show ?case by (simp add: receiving_def)
qed

section \<open>Properties\<close>

definition example_fragment :: "u64 \<Rightarrow> fragment" where
  "example_fragment n =
     \<lparr>fr_recv_timestamp = 9, fr_now = 10, fr_bytes = example_message n, fr_position = 128 * n\<rparr>"

text \<open>A world in which a merge is under way.\<close>

definition merging_world :: zc_world where
  "merging_world =
     example_world\<lparr>sub := (sub example_world)\<lparr>sub_running := True, sub_buffer_pool := 1,
       sub_message_queue := 2, sub_subscription := Some 5, sub_replay_merge := Some (3, 0)\<rparr>\<rparr>"

lemma merging_world_receiving: "receiving (sub merging_world)"
  by (simp add: receiving_def zero_copy_ready_def merging_world_def)

text \<open>C11: The change from the replay to the live stream loses nothing. While no poll reports a failed
  merge, \<open>run\<close> keeps receiving, and whatever the poll at which the merge completes, the messages
  delivered by the polls are handled one after the other, each exactly once and in the order
  of delivery: apart from \<open>replay_merge_\<close> itself the result is the handler folded over them.\<close>
theorem run_handles_every_fragment:
  assumes "receiving (sub w)" and "list_all ends_well as"
  shows "let (returned, w') = sub_run ar as w
         in \<not> returned
          \<and> with_merge None w' = fold (fragmentHandler ar) (concat (map pa_fragments as)) (with_merge None w)"
proof -
  have "sub_run ar as w = (False, fold (run_once ar) as w)"
    using assms by (simp add: sub_run_def run_loop_polls) (simp add: receiving_def)
  then show ?thesis by (simp add: run.polls_view [OF assms])
qed

theorem run_handles_every_fragment_witness:
  "let as = [\<lparr>pa_fragments = [example_fragment 1], pa_merged = True, pa_failed = False\<rparr>,
             \<lparr>pa_fragments = [example_fragment 2], pa_merged = False, pa_failed = False\<rparr>]
   in with_merge None (snd (sub_run example_archive as merging_world))
      = fragmentHandler example_archive (example_fragment 2)
          (fragmentHandler example_archive (example_fragment 1) (with_merge None merging_world))"
  using run_handles_every_fragment [OF merging_world_receiving,
      of "[\<lparr>pa_fragments = [example_fragment 1], pa_merged = True, pa_failed = False\<rparr>,
           \<lparr>pa_fragments = [example_fragment 2], pa_merged = False, pa_failed = False\<rparr>]" example_archive]
  by (simp add: case_prod_beta ends_well_def)

text \<open>C40: A failed merge ends the reception but not the program. The poll that reports the failure is the
  last one of \<open>run\<close>, which returns with \<open>replay_merge_\<close> reset, while \<open>running_\<close> stays true and the
  live subscription stays open: no later message is handled, and nothing tells the main thread.\<close>
theorem failed_merge_stops_reception:
  assumes "receiving (sub w)" and "sub_replay_merge (sub w) \<noteq> None"
    and "pa_failed a" and "\<not> pa_merged a"
  shows "sub_run ar (a # as) w = (True, with_merge None (fold (fragmentHandler ar) (pa_fragments a) w))
    \<and> receiving (sub (snd (sub_run ar (a # as) w)))"
proof -
  let ?w = "fold (fragmentHandler ar) (pa_fragments a) w"
  have r: "sub_run ar (a # as) w = (True, with_merge None ?w)"
    using assms by (auto simp: sub_run_def run_iteration_def receiving_def with_merge_def Let_def)
  then show ?thesis
    using receiving_fragments [OF assms(1)] by (simp add: receiving_merge)
qed

theorem failed_merge_stops_reception_witness:
  "let a = \<lparr>pa_fragments = [], pa_merged = False, pa_failed = True\<rparr>
   in sub_run example_archive [a, a, a] merging_world = (True, with_merge None merging_world)"
  using failed_merge_stops_reception [OF merging_world_receiving,
      of "\<lparr>pa_fragments = [], pa_merged = False, pa_failed = True\<rparr>" example_archive
        "[\<lparr>pa_fragments = [], pa_merged = False, pa_failed = True\<rparr>,
          \<lparr>pa_fragments = [], pa_merged = False, pa_failed = True\<rparr>]"]
  by (simp add: merging_world_def)

text \<open>Recording 0, the first of an archive, is usable for a replay but not for a gap recovery:
  \<open>startReplayMergeAuto\<close> replays it like any other, \<open>triggerImmediateGapRecovery\<close> takes its id for
  a failure.\<close>
theorem recording_zero_not_recovered:
  assumes "findLastMatchingRecording ar 0 (channel_of (config s)) (sc_subscription_stream_id (config s)) (- 1)
      = Inr 0" and "NULL_VALUE ar \<noteq> 0"
  shows "startReplayMergeAuto ar env startPosition s = startReplayMerge env 0 startPosition s
    \<and> triggerImmediateGapRecovery ar gap_start gap_end s = (False, s)"
  using assms
  by (simp add: startReplayMergeAuto_def triggerImmediateGapRecovery_def findLatestRecording_def Let_def)

definition archive_with_recording_0 :: archive_client where
  "archive_with_recording_0 = example_archive\<lparr>findLastMatchingRecording := \<lambda>_ _ _ _. Inr 0\<rparr>"

definition quick_start :: start_env where
  "quick_start =
     \<lparr>st_addSubscription = Inr 5, st_findSubscription = (\<lambda>sid k. Inr True), st_ReplayMerge = None\<rparr>"

theorem recording_zero_not_recovered_witness:
  "(\<exists>s'. startReplayMergeAuto archive_with_recording_0 quick_start 64 example_subscriber = Some (True, s')
        \<and> sub_replay_merge s' = Some (0, 64))
   \<and> triggerImmediateGapRecovery archive_with_recording_0 3 4 example_subscriber = (False, example_subscriber)"
proof -
  have "wait_for (st_findSubscription quick_start 5) 0 = Some (Inr 0)"
    by (simp add: wait_for_Inr_iff quick_start_def)
  then have "startReplayMerge quick_start 0 64 example_subscriber
      = Some (True, example_subscriber\<lparr>sub_subscription := Some 5, sub_replay_merge := Some (0, 64)\<rparr>)"
    by (simp add: startReplayMerge_def open_subscription_def quick_start_def)
  then show ?thesis
    using recording_zero_not_recovered [of archive_with_recording_0 example_subscriber quick_start 64 3 4]
    by (simp add: archive_with_recording_0_def example_archive_def)
qed

text \<open>The number of a text message. \<open>extractMessageNumber\<close> reads back the number of every message
  that contains \<open>Message \<close>, for the first time, followed by a number below 2 to the 63 and a space.\<close>
theorem extractMessageNumber_reads:
  assumes "n < 2 ^ 63" and "CHR ''M'' \<notin> set pre"
  shows "extractMessageNumber (pre @ ''Message '' @ decimal n @ '' '' @ rest) = of_nat n"
proof -
  let ?m = "pre @ ''Message '' @ decimal n @ '' '' @ rest"
  have pre: "\<forall>c \<in> set pre. c \<noteq> CHR ''M''" using assms(2) by auto
  have m: "str_find ?m ''Message '' 0 = Some (length pre)"
    using find_from_skip [OF pre, of "''essage ''" "''Message '' @ decimal n @ '' '' @ rest" 0]
      find_from_here [of "''Message ''" "decimal n @ '' '' @ rest"]
    by (simp add: str_find_def)
  have "find_from '' '' (decimal n @ '' '' @ rest) k = Some (k + length (decimal n))" for k
    using find_from_skip [of "decimal n" "CHR '' ''" "[]" "'' '' @ rest" k] decimal_digits [of n]
      is_digit_not(4) by auto
  then have e: "str_find ?m '' '' (length pre + 8) = Some (length pre + 8 + length (decimal n))"
    by (simp add: str_find_def)
  have s: "substr ?m (length pre + 8) (length (decimal n)) = decimal n"
    by (simp add: substr_def)
  have "stoll (decimal n) = Inr (of_nat n)"
    using strtol_decimal(1) [of "[]" n] assms(1) by (simp add: stoll_def)
  then show ?thesis
    by (simp only: extractMessageNumber_def m e s Let_def option.case add_diff_cancel_left' sum.case)
qed

theorem extractMessageNumber_reads_witness:
  "extractMessageNumber (''12:00 '' @ ''Message '' @ decimal 42 @ '' '' @ ''at 99'') = 42"
  by (subst extractMessageNumber_reads) simp_all

end
