(* ===== verification/Subscriber_Main.thy ===== *)
theory Subscriber_Main
  imports Subscriber_Session Config_Loader Command_Line Spsc_Queue
begin

text \<open>
  \<open>subscriber/src/main.cpp\<close>: the command line, the configuration of the subscriber, the start
  sequence up to the running threads with the resumption from a checkpoint, and the monitoring
  thread. The steps of the running threads are those of \<open>Zero_Copy_System\<close> and \<open>Subscriber_Session\<close>.
\<close>

section \<open>Options\<close>

text \<open>How the program ends, or the subscriber that it runs. \<open>Aborted\<close>: an exception that nothing
  catches; \<open>Waiting\<close>: it waits for a subscription for ever.\<close>

datatype main_outcome = Exited nat | Aborted exn | Waiting | Running session

record subscriber_cli =
  sl_config_file :: string
  sl_print_config_only :: bool
  sl_replay_auto_mode :: bool
  sl_start_position :: i64
  sl_aeron_dir :: string
  sl_archive_control :: string
  sl_gap_recovery_override :: bool
  sl_gap_recovery_enabled :: bool
  sl_duplicate_check_override :: bool
  sl_duplicate_check_enabled :: bool
  sl_gap_tolerance :: i64
  sl_duplicate_window :: i64

definition default_subscriber_cli :: subscriber_cli where
  "default_subscriber_cli =
     \<lparr>sl_config_file = '''', sl_print_config_only = False, sl_replay_auto_mode = False,
      sl_start_position = 0, sl_aeron_dir = '''', sl_archive_control = '''',
      sl_gap_recovery_override = False, sl_gap_recovery_enabled = True,
      sl_duplicate_check_override = False, sl_duplicate_check_enabled = True,
      sl_gap_tolerance = - 1, sl_duplicate_window = - 1\<rparr>"

text \<open>\<open>std::stoll(optarg)\<close> is not in a \<open>try\<close> block.\<close>

definition number_option ::
  "string \<Rightarrow> (i64 \<Rightarrow> subscriber_cli) \<Rightarrow> main_outcome + subscriber_cli" where
  "number_option optarg assign = (case stoll optarg of Inl e \<Rightarrow> Inl (Aborted e) | Inr n \<Rightarrow> Inr (assign n))"

definition subscriber_option :: "cli_option \<Rightarrow> subscriber_cli \<Rightarrow> main_outcome + subscriber_cli" where
  "subscriber_option opt c =
     (let (o', optarg) = opt
      in if o' = CHR ''f'' then Inr (c\<lparr>sl_config_file := optarg\<rparr>)
         else if o' = CHR ''a'' then Inr (c\<lparr>sl_aeron_dir := optarg\<rparr>)
         else if o' = CHR ''c'' then Inr (c\<lparr>sl_archive_control := optarg\<rparr>)
         else if o' = CHR ''R'' then Inr (c\<lparr>sl_replay_auto_mode := True\<rparr>)
         else if o' = CHR ''p'' then number_option optarg (\<lambda>n. c\<lparr>sl_start_position := n\<rparr>)
         else if o' = CHR ''P'' then Inr (c\<lparr>sl_print_config_only := True\<rparr>)
         else if o' = CHR ''G''
         then Inr (c\<lparr>sl_gap_recovery_override := True, sl_gap_recovery_enabled := False\<rparr>)
         else if o' = CHR ''T'' then number_option optarg (\<lambda>n. c\<lparr>sl_gap_tolerance := n\<rparr>)
         else if o' = CHR ''D''
         then Inr (c\<lparr>sl_duplicate_check_override := True, sl_duplicate_check_enabled := False\<rparr>)
         else if o' = CHR ''W'' then number_option optarg (\<lambda>n. c\<lparr>sl_duplicate_window := n\<rparr>)
         else if o' = CHR ''h'' then Inl (Exited 0)
         else Inl (Exited 1))"

section \<open>Configuration\<close>

definition subscriber_override :: "subscriber_cli \<Rightarrow> AeronSettings \<Rightarrow> AeronSettings" where
  "subscriber_override c s =
     (let s1 = (if sl_aeron_dir c \<noteq> [] then s\<lparr>as_aeron_dir := sl_aeron_dir c\<rparr> else s)
      in if sl_archive_control c \<noteq> []
         then s1\<lparr>as_archive_control_request_channel := sl_archive_control c\<rparr> else s1)"

definition subscriber_config :: "subscriber_cli \<Rightarrow> AeronSettings \<Rightarrow> SubscriberConfig" where
  "subscriber_config c s =
     (let k0 = default_SubscriberConfig
            \<lparr>sc_aeron_dir := as_aeron_dir s,
             sc_archive_control_channel := as_archive_control_request_channel s,
             sc_subscription_channel := as_subscription_channel s,
             sc_subscription_stream_id := as_subscription_stream_id s,
             sc_replay_destination := as_replay_channel s\<rparr>;
          k1 = (if sl_gap_recovery_override c
                then k0\<lparr>gap_recovery_enabled := sl_gap_recovery_enabled c\<rparr> else k0);
          k2 = (if sl_duplicate_check_override c
                then k1\<lparr>duplicate_check_enabled := sl_duplicate_check_enabled c\<rparr> else k1);
          k3 = (if 0 < sint (sl_gap_tolerance c)
                then k2\<lparr>max_gap_tolerance := sl_gap_tolerance c\<rparr> else k2)
      in if 0 < sint (sl_duplicate_window c)
         then k3\<lparr>duplicate_window_size := sl_duplicate_window c\<rparr> else k3)"

definition load_settings ::
  "(string \<rightharpoonup> string) \<Rightarrow> (string \<rightharpoonup> string) \<Rightarrow> subscriber_cli \<Rightarrow> exn + AeronSettings" where
  "load_settings files vars c =
     (case (if sl_config_file c \<noteq> [] then loadFromFile files vars (sl_config_file c) else Inr loadDefault) of
        Inl e \<Rightarrow> Inl e
      | Inr s \<Rightarrow> Inr (subscriber_override c s))"

section \<open>The start sequence\<close>

text \<open>
  What the program finds: files and environment variables, the connections, the archive, the
  checkpoint files with the values that uninitialised variables hold while one is read, what
  the two kinds of start are answered, and the addresses of the pool and the queue.
\<close>

record main_env =
  sm_files :: "string \<rightharpoonup> string"
  sm_vars :: "string \<rightharpoonup> string"
  sm_connect :: "exn option"
  sm_archive_connect :: "exn option"
  sm_archive :: archive_client
  sm_stack :: load_stack
  sm_checkpoints :: filesystem
  sm_replay :: start_env
  sm_live :: start_env
  sm_pool :: ptr
  sm_queue :: ptr

definition checkpoint_path :: "SubscriberConfig \<Rightarrow> string" where
  "checkpoint_path cfg = sc_aeron_dir cfg @ ''/subscriber.checkpoint''"

definition checkpoint_position :: "AeronSubscriber \<Rightarrow> i64" where
  "checkpoint_position s = (case getCheckpointManager s of None \<Rightarrow> 0 | Some checkpoint \<Rightarrow> getLastPosition checkpoint)"

text \<open>Where a replay starts: the checkpoint, if there is one, comes before \<open>--position\<close>.\<close>

definition start_position_of :: "subscriber_cli \<Rightarrow> AeronSubscriber \<Rightarrow> i64" where
  "start_position_of c s =
     (if 0 < sint (checkpoint_position s) \<and> sl_replay_auto_mode c then checkpoint_position s
      else sl_start_position c)"

definition start_live_mode :: "main_env \<Rightarrow> session \<Rightarrow> main_outcome" where
  "start_live_mode env s =
     (case startLive (sm_live env) (ss_sub s) of
        None \<Rightarrow> Waiting
      | Some (Inl e, s') \<Rightarrow> Aborted e
      | Some (Inr ok, s') \<Rightarrow> if \<not> ok then Exited 1 else Running (s\<lparr>ss_sub := s'\<rparr>))"

definition start_reception :: "main_env \<Rightarrow> subscriber_cli \<Rightarrow> session \<Rightarrow> main_outcome" where
  "start_reception env c s =
     (if sl_replay_auto_mode c then
        (case startReplayMergeAuto (sm_archive env) (sm_replay env) (start_position_of c (ss_sub s)) (ss_sub s) of
           None \<Rightarrow> Waiting
         | Some (ok, s') \<Rightarrow>
             if \<not> ok then start_live_mode env (s\<lparr>ss_sub := s'\<rparr>) else Running (s\<lparr>ss_sub := s'\<rparr>))
      else start_live_mode env s)"

definition run_subscriber :: "main_env \<Rightarrow> subscriber_cli \<Rightarrow> SubscriberConfig \<Rightarrow> main_outcome" where
  "run_subscriber env c cfg =
     (case new_AeronSubscriber cfg of
        Inl e \<Rightarrow> Aborted e
      | Inr s0 \<Rightarrow>
          let (ok, s1) = sub_initialize (sm_connect env) (sm_archive_connect env) (new_session s0)
          in if \<not> ok then Exited 1
             else case initializeZeroCopy (sm_pool env) (sm_queue env) (ss_sub s1) of
                    Inl e \<Rightarrow> Aborted e
                  | Inr s2 \<Rightarrow>
                      let s3 = enableCheckpoint (sm_stack env) (sm_checkpoints env) (checkpoint_path cfg) 1 s2
                      in start_reception env c (s1\<lparr>ss_sub := s3\<rparr>))"

definition subscriber_main :: "main_env \<Rightarrow> cli_option list \<Rightarrow> main_outcome" where
  "subscriber_main env opts =
     (case parse_options subscriber_option opts default_subscriber_cli of
        Inl out \<Rightarrow> out
      | Inr c \<Rightarrow>
          (case load_settings (sm_files env) (sm_vars env) c of
             Inl e \<Rightarrow> Exited 1
           | Inr settings \<Rightarrow>
               if sl_print_config_only c then Exited 0
               else run_subscriber env c (subscriber_config c settings)))"

section \<open>The monitoring thread\<close>

record monitor =
  mn_counter :: i64
  mn_total_latency_us :: i64
  mn_min_latency_us :: i64
  mn_max_latency_us :: i64

definition monitor_start :: monitor where
  "monitor_start =
     \<lparr>mn_counter = 0, mn_total_latency_us = 0, mn_min_latency_us = 2 ^ 63 - 1, mn_max_latency_us = 0\<rparr>"

definition min_i64 :: "i64 \<Rightarrow> i64 \<Rightarrow> i64" where
  "min_i64 a b = (if sint b < sint a then b else a)"

definition max_i64 :: "i64 \<Rightarrow> i64 \<Rightarrow> i64" where
  "max_i64 a b = (if sint a < sint b then b else a)"

text \<open>One item taken from the queue; \<open>static_cast<int64_t>\<close> drops the fraction.\<close>

definition monitor_item :: "MessageStats \<Rightarrow> monitor \<Rightarrow> monitor" where
  "monitor_item st m =
     (let m1 = m\<lparr>mn_counter := mn_counter m + 1\<rparr>;
          latency = latency_us st
      in if latency > 0 then
           let l = word_of_int \<lfloor>latency\<rfloor>
           in m1\<lparr>mn_total_latency_us := mn_total_latency_us m1 + l,
                 mn_min_latency_us := min_i64 (mn_min_latency_us m1) l,
                 mn_max_latency_us := max_i64 (mn_max_latency_us m1) l\<rparr>
         else m1)"

text \<open>The average that is printed.\<close>

definition monitor_average :: "monitor \<Rightarrow> real" where
  "monitor_average m =
     (if 0 < sint (mn_counter m)
      then real_of_int (sint (mn_total_latency_us m)) / real_of_int (sint (mn_counter m)) else 0)"

section \<open>What a start leaves\<close>

lemma open_subscription_success:
  assumes "open_subscription env s = Some (None, s')"
  shows "\<exists>i. s' = s\<lparr>sub_subscription := Some i\<rparr>"
  using assms by (auto simp: open_subscription_def split: sum.splits option.splits)

lemma open_subscription_other:
  assumes "open_subscription env s = Some (r, s')"
  shows "\<exists>x. s' = s\<lparr>sub_subscription := x\<rparr>"
proof -
  have "\<exists>x. s = s\<lparr>sub_subscription := x\<rparr>" by (rule exI [of _ "sub_subscription s"]) simp
  with assms show ?thesis by (auto simp: open_subscription_def split: sum.splits option.splits)
qed

lemma startLive_success:
  assumes "startLive env s = Some (Inr ok, s')"
  shows "ok \<and> (\<exists>i. s' = s\<lparr>sub_subscription := Some i\<rparr>)"
proof (cases "open_subscription env s")
  case None
  with assms show ?thesis by (simp add: startLive_def)
next
  case (Some r)
  with assms have "r = (None, s')" "ok"
    by (cases r; cases "fst r"; simp add: startLive_def)+
  with Some open_subscription_success show ?thesis by simp
qed

lemma startReplayMerge_result:
  assumes "startReplayMerge env rid pos s = Some (ok, s')"
  shows "if ok then \<exists>i. s' = s\<lparr>sub_subscription := Some i, sub_replay_merge := Some (rid, pos)\<rparr>
         else \<exists>x. s' = s\<lparr>sub_subscription := x\<rparr>"
proof (cases "open_subscription env s")
  case None
  with assms show ?thesis by (simp add: startReplayMerge_def)
next
  case (Some r)
  obtain e s1 where r: "r = (e, s1)" by fastforce
  show ?thesis
  proof (cases "e = None \<and> st_ReplayMerge env = None")
    case True
    with Some r assms have "ok" "s' = s1\<lparr>sub_replay_merge := Some (rid, pos)\<rparr>"
      by (simp_all add: startReplayMerge_def)
    with open_subscription_success [of env s s1] Some r True show ?thesis by auto
  next
    case False
    with Some r assms have "\<not> ok" "s' = s1"
      by (auto simp: startReplayMerge_def split: option.splits)
    with open_subscription_other [of env s e s1] Some r show ?thesis by simp
  qed
qed

lemma startReplayMergeAuto_result:
  assumes "startReplayMergeAuto ar env pos s = Some (ok, s')"
  shows "if ok then \<exists>i rid. 0 \<le> sint rid
           \<and> s' = s\<lparr>sub_subscription := Some i, sub_replay_merge := Some (rid, pos)\<rparr>
         else \<exists>x. s' = s\<lparr>sub_subscription := x\<rparr>"
proof -
  define rid where "rid = findLatestRecording ar (channel_of (config s)) (sc_subscription_stream_id (config s))"
  show ?thesis
  proof (cases "sint rid < 0")
    case True
    with assms have "\<not> ok" "s' = s" by (simp_all add: startReplayMergeAuto_def rid_def Let_def)
    then show ?thesis by (auto intro: exI [of _ "sub_subscription s"])
  next
    case False
    with assms have "startReplayMerge env rid pos s = Some (ok, s')"
      by (simp add: startReplayMergeAuto_def rid_def Let_def)
    from startReplayMerge_result [OF this] False show ?thesis
      by (cases ok) (simp_all add: linorder_not_less, blast)
  qed
qed

text \<open>What is known of the running subscriber: how it differs from the one before the start.\<close>

definition started :: "subscriber_cli \<Rightarrow> AeronSubscriber \<Rightarrow> AeronSubscriber \<Rightarrow> bool" where
  "started c s s' \<longleftrightarrow>
     (\<exists>i. s' = s\<lparr>sub_subscription := Some i\<rparr>)
     \<or> sl_replay_auto_mode c
       \<and> (\<exists>i rid. 0 \<le> sint rid
            \<and> s' = s\<lparr>sub_subscription := Some i, sub_replay_merge := Some (rid, start_position_of c s)\<rparr>)"

lemma start_live_started:
  assumes "start_live_mode env ss = Running ss'"
  shows "\<exists>i. ss' = ss\<lparr>ss_sub := (ss_sub ss)\<lparr>sub_subscription := Some i\<rparr>\<rparr>"
  using assms startLive_success [of "sm_live env" "ss_sub ss"]
  by (fastforce simp: start_live_mode_def split: option.splits prod.splits sum.splits if_splits)

lemma start_reception_started:
  assumes "start_reception env c ss = Running ss'"
  shows "\<exists>s'. ss' = ss\<lparr>ss_sub := s'\<rparr> \<and> started c (ss_sub ss) s'"
proof (cases "sl_replay_auto_mode c")
  case False
  with assms start_live_started [of env ss ss'] show ?thesis
    by (auto simp: start_reception_def started_def)
next
  case True
  then obtain ok s1 where r: "startReplayMergeAuto (sm_archive env) (sm_replay env)
      (start_position_of c (ss_sub ss)) (ss_sub ss) = Some (ok, s1)"
    using assms by (auto simp: start_reception_def split: option.splits)
  show ?thesis
  proof (cases ok)
    case True
    with startReplayMergeAuto_result [OF r] r assms \<open>sl_replay_auto_mode c\<close> show ?thesis
      by (auto simp: start_reception_def started_def)
  next
    case False
    then have "start_live_mode env (ss\<lparr>ss_sub := s1\<rparr>) = Running ss'"
      using r assms \<open>sl_replay_auto_mode c\<close> by (simp add: start_reception_def)
    then obtain i where i: "ss' = ss\<lparr>ss_sub := s1\<lparr>sub_subscription := Some i\<rparr>\<rparr>"
      using start_live_started by fastforce
    have "s1\<lparr>sub_subscription := Some i\<rparr> = (ss_sub ss)\<lparr>sub_subscription := Some i\<rparr>"
      using startReplayMergeAuto_result [OF r] False by auto
    with i show ?thesis by (auto simp: started_def)
  qed
qed

text \<open>The subscriber just before the start.\<close>

definition ready_subscriber :: "main_env \<Rightarrow> SubscriberConfig \<Rightarrow> AeronSubscriber \<Rightarrow> bool" where
  "ready_subscriber env cfg s \<longleftrightarrow>
     config s = cfg \<and> sub_running s \<and> sub_archive s \<and> zero_copy_ready s
     \<and> sub_replay_merge s = None \<and> expected_sequence s = 0
     \<and> duplicate_buffer_pos s = 0 \<and> zc_messages_received s = 0 \<and> zc_queue_full_failures s = 0
     \<and> (duplicate_check_enabled cfg \<longrightarrow> unat (duplicate_window_size cfg) \<le> VECTOR_MAX_SIZE)
     \<and> sub_checkpoint s
         = Some (new_CheckpointManager (sm_stack env) (sm_checkpoints env) (checkpoint_path cfg) 1)
     \<and> duplicate_buffer s
         = (if duplicate_check_enabled cfg then replicate (unat (duplicate_window_size cfg)) (- 1) else [])"

lemma new_AeronSubscriber_fields:
  assumes "new_AeronSubscriber cfg = Inr s"
  shows "config s = cfg" "sub_replay_merge s = None" "expected_sequence s = 0"
    "duplicate_buffer_pos s = 0" "zc_messages_received s = 0" "zc_queue_full_failures s = 0"
    "duplicate_check_enabled cfg \<longrightarrow> unat (duplicate_window_size cfg) \<le> VECTOR_MAX_SIZE"
    "duplicate_buffer s
       = (if duplicate_check_enabled cfg then replicate (unat (duplicate_window_size cfg)) (- 1) else [])"
  using assms
  by (auto simp: new_AeronSubscriber_def Let_def default_AeronSubscriber_def split: if_splits)

lemma run_subscriber_ready:
  assumes "run_subscriber env c cfg = Running ss"
  shows "\<exists>s s1. ready_subscriber env cfg s \<and> start_reception env c (s1\<lparr>ss_sub := s\<rparr>) = Running ss"
proof -
  obtain s0 where s0: "new_AeronSubscriber cfg = Inr s0"
    using assms by (auto simp: run_subscriber_def split: sum.splits)
  obtain ok s1 where i: "sub_initialize (sm_connect env) (sm_archive_connect env) (new_session s0) = (ok, s1)"
    by fastforce
  have ok: "ok" using assms s0 i by (auto simp: run_subscriber_def split: if_splits)
  then have s1: "ss_sub s1 = s0\<lparr>sub_archive := True, sub_running := True\<rparr>"
    using i by (auto simp: sub_initialize_def Let_def new_session_def split: option.splits)
  obtain s2 where z: "initializeZeroCopy (sm_pool env) (sm_queue env) (ss_sub s1) = Inr s2"
    using assms s0 i ok by (auto simp: run_subscriber_def split: sum.splits)
  have "ready_subscriber env cfg (enableCheckpoint (sm_stack env) (sm_checkpoints env) (checkpoint_path cfg) 1 s2)"
    using z s1 new_AeronSubscriber_fields [OF s0]
    by (auto simp: ready_subscriber_def initializeZeroCopy_def enableCheckpoint_def
        zero_copy_ready_def split: if_splits)
  moreover have "start_reception env c (s1\<lparr>ss_sub :=
      enableCheckpoint (sm_stack env) (sm_checkpoints env) (checkpoint_path cfg) 1 s2\<rparr>) = Running ss"
    using assms s0 i ok z by (simp add: run_subscriber_def Let_def)
  ultimately show ?thesis by blast
qed

lemma subscriber_option_no_session: "subscriber_option opt c \<noteq> Inl (Running ss)"
  by (cases opt) (simp add: subscriber_option_def number_option_def split: sum.split)

lemma parse_options_no_session: "parse_options subscriber_option opts c \<noteq> Inl (Running ss)"
proof (induction opts arbitrary: c)
  case (Cons opt opts)
  with subscriber_option_no_session [of opt c ss] show ?case
    by (cases "subscriber_option opt c") auto
qed simp

lemma subscriber_main_started:
  assumes "subscriber_main env opts = Running ss"
  shows "\<exists>c settings s. parse_options subscriber_option opts default_subscriber_cli = Inr c
    \<and> load_settings (sm_files env) (sm_vars env) c = Inr settings
    \<and> ready_subscriber env (subscriber_config c settings) s
    \<and> started c s (ss_sub ss)"
proof -
  obtain c settings where c: "parse_options subscriber_option opts default_subscriber_cli = Inr c"
      "load_settings (sm_files env) (sm_vars env) c = Inr settings"
      "run_subscriber env c (subscriber_config c settings) = Running ss"
    using assms parse_options_no_session [of opts default_subscriber_cli ss]
    by (auto simp: subscriber_main_def split: sum.splits if_splits)
  from run_subscriber_ready [OF c(3)] obtain s s1
    where s: "ready_subscriber env (subscriber_config c settings) s"
      "start_reception env c (s1\<lparr>ss_sub := s\<rparr>) = Running ss" by blast
  from start_reception_started [OF s(2)] c s(1) show ?thesis by auto
qed

lemma started_simps:
  assumes "started c s s'"
  shows "sub_subscription s' \<noteq> None" "config s' = config s" "sub_running s' = sub_running s"
    "sub_archive s' = sub_archive s" "zero_copy_ready s' = zero_copy_ready s"
    "sub_checkpoint s' = sub_checkpoint s" "duplicate_buffer s' = duplicate_buffer s"
    "expected_sequence s' = expected_sequence s" "duplicate_buffer_pos s' = duplicate_buffer_pos s"
    "zc_messages_received s' = zc_messages_received s"
    "zc_queue_full_failures s' = zc_queue_full_failures s"
  using assms by (auto simp: started_def zero_copy_ready_def)

text \<open>What a checkpoint file means to the program that runs.\<close>

lemma running_restored:
  assumes "subscriber_main env opts = Running ss" and "wf_stack (sm_stack env)"
    and "sm_checkpoints env (checkpoint_path (config (ss_sub ss))) = Some (checkpoint_image d)"
    and "parse_options subscriber_option opts default_subscriber_cli = Inr c"
  shows "map_option cp_data (sub_checkpoint (ss_sub ss)) = Some d"
    and "sub_replay_merge (ss_sub ss) = Some (rid, pos) \<Longrightarrow>
      sl_replay_auto_mode c \<and> 0 \<le> sint rid
      \<and> pos = (if 0 < sint (last_position d) then last_position d else sl_start_position c)"
proof -
  obtain cfg s where r: "ready_subscriber env cfg s" "started c s (ss_sub ss)"
    using subscriber_main_started [OF assms(1)] assms(4) by auto
  have "cfg = config (ss_sub ss)" using r started_simps(2) by (simp add: ready_subscriber_def)
  then have cp: "map_option cp_data (sub_checkpoint s) = Some d"
    using r(1) assms(2,3) by (simp add: ready_subscriber_def new_CheckpointManager_data)
  then show "map_option cp_data (sub_checkpoint (ss_sub ss)) = Some d"
    using started_simps(6) [OF r(2)] by simp
  have "checkpoint_position s = last_position d"
    using cp by (auto simp: checkpoint_position_def getCheckpointManager_def getLastPosition_def)
  moreover assume "sub_replay_merge (ss_sub ss) = Some (rid, pos)"
  ultimately show "sl_replay_auto_mode c \<and> 0 \<le> sint rid
      \<and> pos = (if 0 < sint (last_position d) then last_position d else sl_start_position c)"
    using r by (auto simp: started_def ready_subscriber_def start_position_of_def)
qed

section \<open>What the monitoring thread computes\<close>

text \<open>The latency of an item as the thread counts it.\<close>

definition latency_of :: "MessageStats \<Rightarrow> int" where
  "latency_of st = \<lfloor>latency_us st\<rfloor>"

definition latencies :: "MessageStats list \<Rightarrow> int list" where
  "latencies sts = map latency_of (List.filter (\<lambda>st. latency_us st > 0) sts)"

lemma latency_of_bounds: "0 \<le> latency_of st" "latency_of st < 2 ^ 63"
proof -
  have "sint (recv_timestamp st) - sint (send_timestamp st) < 2 ^ 63 * 1000"
    if "sint (send_timestamp st) > 0"
    using that sint_lt [of "recv_timestamp st"] by simp
  then have "real_of_int (sint (recv_timestamp st) - sint (send_timestamp st)) < 2 ^ 63 * 1000"
    if "sint (send_timestamp st) > 0"
    using that by (metis of_int_less_iff of_int_mult of_int_numeral of_int_power)
  then have "latency_us st < 2 ^ 63" by (simp add: latency_us_def divide_simps)
  then have "\<lfloor>latency_us st\<rfloor> < 2 ^ 63" by (simp add: floor_less_iff)
  then show "latency_of st < 2 ^ 63" by (simp add: latency_of_def)
  have "0 \<le> latency_us st" by (auto simp: latency_us_def simp del: of_int_diff)
  then show "0 \<le> latency_of st" by (simp add: latency_of_def)
qed

lemma sint_min_max:
  "sint (min_i64 a b) = min (sint a) (sint b)" "sint (max_i64 a b) = max (sint a) (sint b)"
  by (auto simp: min_i64_def max_i64_def)

text \<open>The items so far, as the variables of the thread show them.\<close>

definition monitored :: "MessageStats list \<Rightarrow> monitor \<Rightarrow> bool" where
  "monitored sts m \<longleftrightarrow>
     sint (mn_counter m) = int (length sts)
     \<and> sint (mn_total_latency_us m) = sum_list (latencies sts)
     \<and> sint (mn_min_latency_us m) = Min (insert (2 ^ 63 - 1) (set (latencies sts)))
     \<and> sint (mn_max_latency_us m) = Max (insert 0 (set (latencies sts)))"

lemma latencies_snoc:
  "latencies (sts @ [st]) = latencies sts @ (if latency_us st > 0 then [latency_of st] else [])"
  by (simp add: latencies_def)

lemma latencies_nonneg: "x \<in> set (latencies sts) \<Longrightarrow> 0 \<le> x \<and> x < 2 ^ 63"
  using latency_of_bounds by (auto simp: latencies_def simp del: power_numeral)

lemma sum_latencies_nonneg: "0 \<le> sum_list (latencies sts)"
  by (rule sum_list_nonneg) (simp add: latencies_nonneg)

lemma monitored_start: "monitored [] monitor_start"
  by (simp add: monitored_def monitor_start_def latencies_def)

lemma monitored_item:
  assumes "monitored sts m" "length sts < 2 ^ 63 - 1" "sum_list (latencies (sts @ [st])) < 2 ^ 63"
  shows "monitored (sts @ [st]) (monitor_item st m)"
proof -
  have c: "sint (mn_counter m + 1) = int (length sts) + 1"
    using assms(1,2) by (subst sint_add_i64) (auto simp: monitored_def)
  show ?thesis
  proof (cases "latency_us st > 0")
    case False
    then show ?thesis
      using assms(1) c by (simp add: monitored_def monitor_item_def Let_def latencies_snoc)
  next
    case True
    define l where "l = (word_of_int (latency_of st) :: i64)"
    have l: "sint l = latency_of st"
      unfolding l_def by (rule sint_of_int_i64) (rule latency_of_bounds)+
    have step: "monitor_item st m =
        m\<lparr>mn_counter := mn_counter m + 1, mn_total_latency_us := mn_total_latency_us m + l,
          mn_min_latency_us := min_i64 (mn_min_latency_us m) l,
          mn_max_latency_us := max_i64 (mn_max_latency_us m) l\<rparr>"
      using True by (simp add: monitor_item_def Let_def l_def latency_of_def)
    have t: "sint (mn_total_latency_us m + l) = sum_list (latencies sts) + latency_of st"
      using assms(1,3) True l latency_of_bounds(1) [of st] sum_latencies_nonneg [of sts]
      by (subst sint_add_i64) (simp_all add: monitored_def latencies_snoc)
    show ?thesis
      using assms(1) c t l True unfolding step
      by (simp add: monitored_def latencies_snoc sint_min_max insert_commute [of _ "latency_of st"]
          min.commute max.commute)
  qed
qed

lemma monitored_all:
  assumes "length sts < 2 ^ 63" "sum_list (latencies sts) < 2 ^ 63"
  shows "monitored sts (fold monitor_item sts monitor_start)"
  using assms
proof (induction sts rule: rev_induct)
  case Nil
  then show ?case by (simp add: monitored_start)
next
  case (snoc st sts)
  have "sum_list (latencies sts) < 2 ^ 63"
    using snoc.prems(2) latency_of_bounds(1) [of st] by (simp add: latencies_snoc split: if_splits)
  then have "monitored sts (fold monitor_item sts monitor_start)"
    using snoc.IH snoc.prems(1) by simp
  from monitored_item [OF this _ snoc.prems(2)] snoc.prems(1) show ?case by simp
qed

section \<open>Properties\<close>

definition example_main_env :: "filesystem \<Rightarrow> main_env" where
  "example_main_env fs =
     \<lparr>sm_files = Map.empty, sm_vars = Map.empty, sm_connect = None, sm_archive_connect = None,
      sm_archive = archive_with_recording_0, sm_stack = example_stack,
      sm_checkpoints = fs,
      sm_replay = quick_start, sm_live = quick_start, sm_pool = 1, sm_queue = 2\<rparr>"

text \<open>With \<open>--replay-auto --position 64\<close> it finds the checkpoint and recording 0.\<close>

definition example_options :: "cli_option list" where
  "example_options = [(CHR ''R'', []), (CHR ''p'', ''64'')]"

definition example_running :: "filesystem \<Rightarrow> i64 \<Rightarrow> session" where
  "example_running fs pos =
     (let s = enableCheckpoint example_stack fs
                (AERON_DIR @ ''/subscriber.checkpoint'') 1
                (default_AeronSubscriber
                   \<lparr>config := subscriber_config default_subscriber_cli loadDefault,
                    sub_running := True, sub_archive := True,
                    duplicate_buffer := replicate 1000 (- 1), sub_buffer_pool := 1, sub_message_queue := 2,
                    sub_subscription := Some 5, sub_replay_merge := Some (0, pos)\<rparr>)
      in \<lparr>ss_sub = s, ss_context = Some AERON_DIR, ss_aeron = True,
          ss_archive_context = Some (ARCHIVE_CONTROL_REQUEST_CHANNEL, ARCHIVE_CONTROL_RESPONSE_CHANNEL),
          ss_message_callback = False\<rparr>)"

definition example_cli :: subscriber_cli where
  "example_cli = default_subscriber_cli\<lparr>sl_replay_auto_mode := True, sl_start_position := 64\<rparr>"

lemma example_options_parsed:
  "parse_options subscriber_option example_options default_subscriber_cli = Inr example_cli"
proof -
  have "stoll ''64'' = Inr 64" by code_simp
  then show ?thesis
    by (simp add: example_options_def subscriber_option_def number_option_def example_cli_def)
qed

lemma example_main:
  assumes "fs (AERON_DIR @ ''/subscriber.checkpoint'') = Some (checkpoint_image d)" "0 < sint (last_position d)"
  shows "subscriber_main (example_main_env fs) example_options = Running (example_running fs (last_position d))"
proof -
  define cfg where "cfg = subscriber_config default_subscriber_cli loadDefault"
  have cfg: "duplicate_check_enabled cfg" "duplicate_window_size cfg = 1000" "sc_aeron_dir cfg = AERON_DIR"
    "control_channel cfg = ARCHIVE_CONTROL_REQUEST_CHANNEL"
    by (simp_all add: cfg_def subscriber_config_def default_SubscriberConfig_def
        default_subscriber_cli_def loadDefault_def default_AeronSettings_def control_channel_def Let_def)
  have set: "load_settings Map.empty Map.empty example_cli = Inr loadDefault"
    "subscriber_config example_cli loadDefault = cfg" "\<not> sl_print_config_only example_cli"
    "sl_replay_auto_mode example_cli"
    by (simp_all add: load_settings_def subscriber_override_def subscriber_config_def cfg_def
        example_cli_def default_subscriber_cli_def)
  define s0 where "s0 = default_AeronSubscriber\<lparr>config := cfg, duplicate_buffer := replicate 1000 (- 1)\<rparr>"
  have s0: "new_AeronSubscriber cfg = Inr s0"
    by (simp add: new_AeronSubscriber_def cfg VECTOR_MAX_SIZE_def s0_def)
  define s1 where "s1 = (new_session s0)\<lparr>ss_context := Some AERON_DIR, ss_aeron := True,
      ss_archive_context := Some (ARCHIVE_CONTROL_REQUEST_CHANNEL, ARCHIVE_CONTROL_RESPONSE_CHANNEL),
      ss_sub := s0\<lparr>sub_archive := True, sub_running := True\<rparr>\<rparr>"
  have s1: "sub_initialize None None (new_session s0) = (True, s1)"
    by (simp add: sub_initialize_def new_session_def s1_def s0_def cfg Let_def)
  define s3 where "s3 = enableCheckpoint example_stack fs
      (AERON_DIR @ ''/subscriber.checkpoint'') 1
      ((ss_sub s1)\<lparr>sub_buffer_pool := 1, sub_message_queue := 2\<rparr>)"
  have "checkpoint_position s3 = last_position d"
    by (simp add: checkpoint_position_def getCheckpointManager_def s3_def enableCheckpoint_def getLastPosition_def
        new_CheckpointManager_data assms(1))
  then have pos: "start_position_of example_cli s3 = last_position d"
    using set(4) assms(2) by (simp add: start_position_of_def)
  have "wait_for (st_findSubscription quick_start 5) 0 = Some (Inr 0)"
    by (simp add: wait_for_Inr_iff quick_start_def)
  then have r: "startReplayMergeAuto archive_with_recording_0 quick_start (last_position d) s3
      = Some (True, s3\<lparr>sub_subscription := Some 5, sub_replay_merge := Some (0, last_position d)\<rparr>)"
    by (simp add: startReplayMergeAuto_def startReplayMerge_def open_subscription_def quick_start_def
        findLatestRecording_def archive_with_recording_0_def example_archive_def)
  have "run_subscriber (example_main_env fs) example_cli cfg
      = Running (s1\<lparr>ss_sub := s3\<lparr>sub_subscription := Some 5, sub_replay_merge := Some (0, last_position d)\<rparr>\<rparr>)"
    using s0 s1 pos r set(4)
    by (simp add: run_subscriber_def start_reception_def initializeZeroCopy_def checkpoint_path_def cfg
        example_main_env_def s3_def Let_def)
  moreover have "s1\<lparr>ss_sub := s3\<lparr>sub_subscription := Some 5, sub_replay_merge := Some (0, last_position d)\<rparr>\<rparr>
      = example_running fs (last_position d)"
    by (simp add: example_running_def s3_def s1_def s0_def new_session_def enableCheckpoint_def cfg_def Let_def)
  ultimately show ?thesis
    using set by (simp add: subscriber_main_def example_options_parsed example_main_env_def)
qed

definition example_files :: filesystem where
  "example_files =
     [AERON_DIR @ ''/subscriber.checkpoint'' \<mapsto> checkpoint_image (cp_data example_checkpoint)]"

lemma example_main_files:
  "subscriber_main (example_main_env example_files) example_options
     = Running (example_running example_files 4096)"
  using example_main [of example_files "cp_data example_checkpoint"]
  by (simp add: example_files_def example_checkpoint_def)

text \<open>The program reaches its running threads only with everything they need. If \<open>main\<close> gets there,
  for whatever options, files, environment and answers of the library, the archive is
  connected, a subscription is open, pool and queue are attached, the checkpoint manager works
  on \<open>subscriber.checkpoint\<close> in the directory of the configuration and flushes every second, and the
  duplicate window has the configured size and is empty.\<close>
theorem main_running_ready:
  assumes "subscriber_main env opts = Running ss"
  shows "let s = ss_sub ss; cfg = config s
         in sub_running s \<and> sub_archive s \<and> sub_subscription s \<noteq> None
          \<and> sub_buffer_pool s \<noteq> nullptr \<and> sub_message_queue s \<noteq> nullptr
          \<and> sub_checkpoint s = Some (new_CheckpointManager (sm_stack env) (sm_checkpoints env)
                (sc_aeron_dir cfg @ ''/subscriber.checkpoint'') 1)
          \<and> duplicate_buffer s
              = (if duplicate_check_enabled cfg
                 then replicate (unat (duplicate_window_size cfg)) (- 1) else [])"
proof -
  obtain c cfg s where "ready_subscriber env cfg s" "started c s (ss_sub ss)"
    using subscriber_main_started [OF assms] by blast
  then show ?thesis
    using started_simps [of c s "ss_sub ss"]
    by (auto simp: ready_subscriber_def zero_copy_ready_def checkpoint_path_def Let_def)
qed

theorem main_running_ready_witness:
  "sub_subscription (ss_sub (example_running example_files 4096)) \<noteq> None \<and> sub_archive (ss_sub (example_running example_files 4096))"
  using main_running_ready [OF example_main_files] by (simp add: Let_def)

text \<open>C17: A restart resumes where the last completed flush left off. With a checkpoint file holding the
  state \<open>d\<close>, the running subscriber has exactly that state, and its replay, if one was started,
  begins at the position of \<open>d\<close>, whatever \<open>--position\<close> says; only a position of \<open>d\<close> that is not
  positive lets the option decide. Without \<open>--replay-auto\<close> no replay is started at all.\<close>
theorem restart_resumes:
  assumes "subscriber_main env opts = Running ss" and "wf_stack (sm_stack env)"
    and "sm_checkpoints env (sc_aeron_dir (config (ss_sub ss)) @ ''/subscriber.checkpoint'')
       = Some (checkpoint_image d)"
    and "parse_options subscriber_option opts default_subscriber_cli = Inr c"
  shows "map_option cp_data (sub_checkpoint (ss_sub ss)) = Some d
    \<and> (case sub_replay_merge (ss_sub ss) of
         None \<Rightarrow> True
       | Some (rid, pos) \<Rightarrow> sl_replay_auto_mode c \<and> 0 \<le> sint rid
           \<and> pos = (if 0 < sint (last_position d) then last_position d else sl_start_position c))"
proof -
  have "sm_checkpoints env (checkpoint_path (config (ss_sub ss))) = Some (checkpoint_image d)"
    using assms(3) by (simp add: checkpoint_path_def)
  note r = running_restored [OF assms(1,2) this assms(4)]
  show ?thesis
  proof (cases "sub_replay_merge (ss_sub ss)")
    case (Some m)
    with r(2) [of "fst m" "snd m"] r(1) show ?thesis by (simp add: case_prod_beta)
  qed (simp add: r(1))
qed

theorem restart_resumes_witness:
  "map_option cp_data (sub_checkpoint (ss_sub (example_running example_files 4096))) = Some (cp_data example_checkpoint)
   \<and> sub_replay_merge (ss_sub (example_running example_files 4096)) = Some (0, 4096)"
proof -
  let ?s = "ss_sub (example_running example_files 4096)"
  have f: "sm_checkpoints (example_main_env example_files) (sc_aeron_dir (config ?s) @ ''/subscriber.checkpoint'')
      = Some (checkpoint_image (cp_data example_checkpoint))"
    by (simp add: example_running_def enableCheckpoint_def example_main_env_def example_files_def
        subscriber_config_def
        default_subscriber_cli_def loadDefault_def default_AeronSettings_def Let_def)
  have st: "wf_stack (sm_stack (example_main_env example_files))" by (simp add: example_main_env_def)
  from restart_resumes [OF example_main_files st f example_options_parsed] show ?thesis
    by (simp add: example_running_def enableCheckpoint_def Let_def)
qed

text \<open>A gap across a restart goes unnoticed. Although the restored checkpoint names the last message
  received, the expected number starts from 0: whatever number the first message has, no gap is
  seen and counted, and the number becomes the new reference.\<close>
theorem restart_gap_unnoticed:
  assumes "subscriber_main env opts = Running ss"
  shows "detectAndRecoverGap ar n (ss_sub ss)
    = (ss_sub ss)\<lparr>expected_sequence := (if gap_recovery_enabled (config (ss_sub ss)) then n + 1 else 0)\<rparr>"
proof -
  obtain c cfg s where "ready_subscriber env cfg s" "started c s (ss_sub ss)"
    using subscriber_main_started [OF assms] by blast
  then have "expected_sequence (ss_sub ss) = 0"
    using started_simps(8) by (simp add: ready_subscriber_def)
  then show ?thesis
    by (simp add: detectAndRecoverGap_def checkForGaps_def Let_def)
qed

theorem restart_gap_unnoticed_witness:
  "gaps_detected (detectAndRecoverGap example_archive 900 (ss_sub (example_running example_files 4096))) = 0"
  using restart_gap_unnoticed [OF example_main_files, of example_archive 900]
  by (simp add: example_running_def enableCheckpoint_def default_AeronSubscriber_def Let_def)

text \<open>A malformed number on the command line ends the program with an uncaught exception: an argument
  of \<open>--position\<close>, \<open>--gap-tolerance\<close> or \<open>--duplicate-window\<close> that does not start with a number aborts it,
  whatever comes after.\<close>
theorem malformed_number_aborts:
  assumes "parse_options subscriber_option pre default_subscriber_cli = Inr c"
    and "o' \<in> {CHR ''p'', CHR ''T'', CHR ''W''}" and "strtol_int t = None"
  shows "subscriber_main env (pre @ (o', t) # post) = Aborted Invalid_argument"
proof -
  have "subscriber_option (o', t) c = Inl (Aborted Invalid_argument)"
    using assms(2,3) by (auto simp: subscriber_option_def number_option_def stoll_def)
  then show ?thesis
    using assms(1) by (simp add: subscriber_main_def parse_options_append)
qed

theorem malformed_number_aborts_witness:
  "subscriber_main (example_main_env Map.empty) [(CHR ''R'', ''''), (CHR ''p'', ''end''), (CHR ''P'', '''')]
     = Aborted Invalid_argument"
proof -
  have p: "parse_options subscriber_option [(CHR ''R'', '''')] default_subscriber_cli
      = Inr (default_subscriber_cli\<lparr>sl_replay_auto_mode := True\<rparr>)"
    by (simp add: subscriber_option_def)
  have t: "strtol_int ''end'' = None" by code_simp
  from malformed_number_aborts [OF p _ t, of "CHR ''p''"] show ?thesis by simp
qed

text \<open>The statistics of the monitoring thread. As long as the latencies sum up to less than 2 to the 63,
  counter, total, minimum and maximum are those of the items dequeued, and the average printed
  is the total over the number of all items: items without a latency, and those below a
  microsecond, count as well and pull it down.\<close>
theorem monitor_exact:
  assumes "length sts < 2 ^ 63" and "sum_list (latencies sts) < 2 ^ 63"
  shows "let m = fold monitor_item sts monitor_start; ls = latencies sts
         in sint (mn_counter m) = int (length sts)
          \<and> sint (mn_total_latency_us m) = sum_list ls
          \<and> (ls = [] \<or> sint (mn_min_latency_us m) = Min (set ls) \<and> sint (mn_max_latency_us m) = Max (set ls))
          \<and> monitor_average m = real_of_int (sum_list ls) / real (length sts)"
proof -
  define m where "m = fold monitor_item sts monitor_start"
  have m: "monitored sts m" unfolding m_def by (rule monitored_all [OF assms])
  let ?ls = "latencies sts"
  have b: "Min (insert (2 ^ 63 - 1) (set ?ls)) = Min (set ?ls)"
    "Max (insert 0 (set ?ls)) = Max (set ?ls)" if "?ls \<noteq> []"
  proof -
    have "Min (set ?ls) \<in> set ?ls" "Max (set ?ls) \<in> set ?ls" using that by simp_all
    then have "Min (set ?ls) \<le> 2 ^ 63 - 1" "0 \<le> Max (set ?ls)"
      using latencies_nonneg [of "Min (set ?ls)" sts] latencies_nonneg [of "Max (set ?ls)" sts]
      by simp_all
    with that show "Min (insert (2 ^ 63 - 1) (set ?ls)) = Min (set ?ls)"
      "Max (insert 0 (set ?ls)) = Max (set ?ls)"
      by (simp_all del: Min_le_iff Max_ge_iff)
  qed
  have "monitor_average m = real_of_int (sum_list ?ls) / real (length sts)"
    using m by (simp add: monitored_def monitor_average_def)
  with m b show ?thesis by (auto simp: monitored_def m_def Let_def)
qed

definition example_stats :: "i64 \<Rightarrow> MessageStats" where
  "example_stats t = \<lparr>message_number = 1, send_timestamp = t, recv_timestamp = 20001, position = 64\<rparr>"

theorem monitor_exact_witness:
  "let m = fold monitor_item [example_stats 1, example_stats 0] monitor_start
   in monitor_average m = 10 \<and> sint (mn_min_latency_us m) = 20"
proof -
  have l: "latencies [example_stats 1, example_stats 0] = [20]"
    by (simp add: latencies_def latency_of_def latency_us_def example_stats_def)
  show ?thesis
    using monitor_exact [of "[example_stats 1, example_stats 0]"] unfolding l Let_def by simp
qed


end
