(* ===== verification/Subscriber_Shutdown.thy ===== *)
theory Subscriber_Shutdown
  imports Subscriber_Main Message_Worker
begin

text \<open>
  The end of \<open>subscriber/src/main.cpp\<close>: the shutdown of the threads, the destruction of the subscriber
  with the last flush of its checkpoint, and what a restart makes of it.
\<close>

section \<open>The end of the program\<close>

record program =
  pr_session :: session
  pr_worker :: worker_world
  pr_monitoring :: bool
  pr_files :: filesystem

definition main_shutdown :: "program \<Rightarrow> program" where
  "main_shutdown p =
     p\<lparr>pr_session := sub_shutdown (pr_session p),
       pr_worker := (pr_worker p)\<lparr>worker := wk_stop (worker (pr_worker p))\<rparr>,
       pr_monitoring := False\<rparr>"

text \<open>The destructor, with that of the member \<open>checkpoint_\<close>.\<close>

definition delete_AeronSubscriber :: "flush_io \<Rightarrow> session \<Rightarrow> filesystem \<Rightarrow> session \<times> filesystem" where
  "delete_AeronSubscriber io s fs =
     (let s1 = sub_shutdown s
      in case sub_checkpoint (ss_sub s1) of
           None \<Rightarrow> (s1, fs)
         | Some cm \<Rightarrow> (s1\<lparr>ss_sub := (ss_sub s1)\<lparr>sub_checkpoint := None\<rparr>\<rparr>,
                       snd (delete_CheckpointManager io cm fs)))"

text \<open>From the signal to the end of \<open>main\<close>.\<close>

definition main_end :: "flush_io \<Rightarrow> program \<Rightarrow> program" where
  "main_end io p =
     (let p1 = main_shutdown p;
          (s, fs) = delete_AeronSubscriber io (pr_session p1) (pr_files p1)
      in p1\<lparr>pr_session := s, pr_files := fs\<rparr>)"

section \<open>Lemmas\<close>

definition flush_completes :: "flush_io \<Rightarrow> bool" where
  "flush_completes io \<longleftrightarrow> open_ok io \<and> 40 \<le> bytes_written io \<and> rename_ok io"

lemma main_end_queue: "wk_queue (pr_worker (main_end io p)) = wk_queue (pr_worker p)"
  by (simp add: main_end_def main_shutdown_def Let_def case_prod_beta)

lemma main_end_stopped:
  "\<not> sub_running (ss_sub (pr_session (main_end io p)))"
  "\<not> wk_running (worker (pr_worker (main_end io p)))"
  by (simp_all add: main_end_def main_shutdown_def delete_AeronSubscriber_def sub_shutdown_def
      wk_stop_def Let_def case_prod_beta split: option.split)

text \<open>The last flush writes the state of the last accepted message.\<close>

lemma main_end_checkpoint:
  assumes "sub_checkpoint (ss_sub (pr_session p)) = Some cm" and "flush_completes io"
    and "\<not> nothing_to_flush (cp_data cm)"
  shows "pr_files (main_end io p) (checkpoint_file cm) = Some (checkpoint_image (cp_data cm))"
  using assms flush_file [of io "cm\<lparr>running := False\<rparr>" "pr_files p"]
  by (simp add: main_end_def main_shutdown_def delete_AeronSubscriber_def sub_shutdown_def
      delete_CheckpointManager_def flush_completes_def Let_def)

section \<open>Properties\<close>

text \<open>C22: An orderly stop can lose an accepted message for good. A message that is accepted just before
  the stop is still in the queue when the program ends, because stopping the worker does not
  drain it; but the last flush has recorded its position, and the replay of the next run starts
  right behind it: no run ever processes it.\<close>
theorem stop_loses_accepted:
  assumes w: "world_inv w" "fast_path_outcome w d = Accepted"
    and cm: "sub_checkpoint (sub w) = Some cm" "0 < sint pos" "flush_completes io"
    and p: "ss_sub (pr_session p) = sub (handleMessageFastPath ar t now d pos w)"
      "wk_queue (pr_worker p) = mqueue (handleMessageFastPath ar t now d pos w)"
    and restart: "subscriber_main env opts = Running ss" "wf_stack (sm_stack env)"
      "sm_checkpoints env = pr_files (main_end io p)"
      "checkpoint_path (config (ss_sub ss)) = checkpoint_file cm"
  shows "next_free (bpool w) \<in> set (mq_contents (wk_queue (pr_worker (main_end io p))))
    \<and> \<not> wk_running (worker (pr_worker (main_end io p)))
    \<and> (case sub_replay_merge (ss_sub ss) of None \<Rightarrow> True | Some (rid, start) \<Rightarrow> start = pos)"
proof -
  let ?w = "handleMessageFastPath ar t now d pos w"
  have inv: "pool_inv (bpool w)" "mq_inv (mqueue w)" using w(1) by (simp_all add: world_inv_def)
  have q: "mq_contents (mqueue ?w) = mq_contents (mqueue w) @ [next_free (bpool w)]"
    using fast_path_taken [OF w] by (simp add: Let_def)
  define cm' where "cm' = update cm now (number_of d) pos (zc_messages_received (sub ?w))"
  have c: "sub_checkpoint (sub ?w) = Some cm'"
    using cm(1) by (simp add: fast_path_accepted [OF inv w(2)] recordReception_def cm'_def Let_def)
  have f: "checkpoint_file cm' = checkpoint_file cm" "last_position (cp_data cm') = pos"
    by (simp_all add: cm'_def update_def)
  have "\<not> nothing_to_flush (cp_data cm')"
    using cm(2) f(2) by (auto simp: nothing_to_flush_def)
  then have "pr_files (main_end io p) (checkpoint_file cm') = Some (checkpoint_image (cp_data cm'))"
    using c p(1) cm(3) by (intro main_end_checkpoint) simp_all
  then have e: "sm_checkpoints env (checkpoint_path (config (ss_sub ss))) = Some (checkpoint_image (cp_data cm'))"
    using restart(3,4) f(1) by simp
  obtain c where "parse_options subscriber_option opts default_subscriber_cli = Inr c"
    using subscriber_main_started [OF restart(1)] by blast
  from running_restored(2) [OF restart(1,2) e this] f(2) cm(2)
  have "case sub_replay_merge (ss_sub ss) of None \<Rightarrow> True | Some (rid, start) \<Rightarrow> start = pos"
    by (auto split: option.split)
  then show ?thesis by (simp add: main_end_queue main_end_stopped p(2) q)
qed

text \<open>The example world with a checkpoint manager, stopped right after its first message.\<close>

definition checkpointing_world :: zc_world where
  "checkpointing_world =
     example_world\<lparr>sub := enableCheckpoint example_stack Map.empty (AERON_DIR @ ''/subscriber.checkpoint'') 1
                            (sub example_world)\<rparr>"

definition example_program :: program where
  "example_program =
     (let w = handleMessageFastPath example_archive 9 10 (example_message 5) 128 checkpointing_world
      in \<lparr>pr_session = new_session (sub w),
          pr_worker = \<lparr>worker = new_MessageWorker, wk_pool = bpool w, wk_queue = mqueue w,
                       wk_stats = new_SPSCQueue 16 default_MessageStats, dispatched = [], handler_calls = []\<rparr>,
          pr_monitoring = True, pr_files = Map.empty\<rparr>)"

theorem stop_loses_accepted_witness:
  "\<exists>ss. subscriber_main (example_main_env (pr_files (main_end
            \<lparr>open_ok = True, bytes_written = 40, rename_ok = True\<rparr> example_program))) example_options
        = Running ss
     \<and> sub_replay_merge (ss_sub ss) = Some (0, 128)
     \<and> mq_contents (wk_queue (pr_worker (main_end
          \<lparr>open_ok = True, bytes_written = 40, rename_ok = True\<rparr> example_program))) \<noteq> []"
proof -
  let ?io = "\<lparr>open_ok = True, bytes_written = 40, rename_ok = True\<rparr>"
    and ?w = checkpointing_world and ?cp = "AERON_DIR @ ''/subscriber.checkpoint''"
  define cm where "cm = new_CheckpointManager example_stack Map.empty ?cp 1"
  have w: "world_inv ?w" "fast_path_outcome ?w (example_message 5) = Accepted"
    using example_world_inv example_outcome [of 5]
    by (simp_all add: checkpointing_world_def world_inv_def fast_path_outcome_def enableCheckpoint_def
        isDuplicate_def split: if_splits)
  have cm: "sub_checkpoint (sub ?w) = Some cm" "checkpoint_file cm = ?cp"
    by (simp_all add: checkpointing_world_def enableCheckpoint_def cm_def new_CheckpointManager_def load_def)
  have io: "flush_completes ?io" by (simp add: flush_completes_def)
  let ?w' = "handleMessageFastPath example_archive 9 10 (example_message 5) 128 ?w"
  have p: "ss_sub (pr_session example_program) = sub ?w'" "wk_queue (pr_worker example_program) = mqueue ?w'"
    by (simp_all add: example_program_def new_session_def Let_def)
  define cm' where "cm' = update cm 10 5 128 (zc_messages_received (sub ?w'))"
  have "sub_checkpoint (ss_sub (pr_session example_program)) = Some cm'"
    using w cm(1) by (simp add: p fast_path_accepted world_inv_def recordReception_def cm'_def Let_def)
  from main_end_checkpoint [OF this io]
  have f: "pr_files (main_end ?io example_program) ?cp = Some (checkpoint_image (cp_data cm'))"
    using cm(2) by (simp add: cm'_def update_def nothing_to_flush_def)
  have r: "subscriber_main (example_main_env (pr_files (main_end ?io example_program))) example_options
      = Running (example_running (pr_files (main_end ?io example_program)) 128)"
    using example_main [of "pr_files (main_end ?io example_program)" "cp_data cm'"] f by (simp add: cm'_def update_def)
  have e: "checkpoint_path (config (ss_sub (example_running (pr_files (main_end ?io example_program)) 128)))
      = checkpoint_file cm"
    by (simp add: cm(2) checkpoint_path_def example_running_def enableCheckpoint_def subscriber_config_def
        default_subscriber_cli_def loadDefault_def default_AeronSettings_def Let_def)
  have s: "sub_replay_merge (ss_sub (example_running fs pos)) = Some (0, pos)" for fs pos
    by (simp add: example_running_def enableCheckpoint_def Let_def)
  have "mq_contents (wk_queue (pr_worker (main_end ?io example_program))) \<noteq> []"
    using stop_loses_accepted [OF w cm(1) _ io p r _ _ e] by (auto simp: example_main_env_def)
  then show ?thesis using r s by blast
qed

end
