(* ===== verification/Settings_Print.thy ===== *)
theory Settings_Print
  imports Config_Loader
begin

text \<open>
  \<open>AeronSettings::print\<close> (\<open>common/src/ConfigLoader.cpp\<close>), the output of \<open>--print-config\<close>, and its use as
  a configuration file.
\<close>

section \<open>Printing\<close>

text \<open>A signed number as \<open>operator<<\<close> prints it.\<close>

definition decimal_int :: "int \<Rightarrow> string" where
  "decimal_int z = (if z < 0 then CHR ''-'' # decimal (nat (- z)) else decimal (nat z))"

definition rule_line :: string where
  "rule_line = replicate 40 CHR ''=''"

definition setting_line :: "string \<Rightarrow> string \<Rightarrow> string" where
  "setting_line key v = ''  '' @ key @ '' = '' @ v"

definition settings_lines :: "AeronSettings \<Rightarrow> string list" where
  "settings_lines s =
     [rule_line, ''Aeron Configuration'', rule_line, ''[aeron]'',
      setting_line ''dir'' (as_aeron_dir s), [], ''[archive]'',
      setting_line ''control_request_channel'' (as_archive_control_request_channel s),
      setting_line ''control_response_channel'' (as_archive_control_response_channel s), [],
      ''[publication]'', setting_line ''channel'' (as_publication_channel s),
      setting_line ''stream_id'' (decimal_int (sint (as_publication_stream_id s))), [],
      ''[subscription]'', setting_line ''channel'' (as_subscription_channel s),
      setting_line ''stream_id'' (decimal_int (sint (as_subscription_stream_id s))), [],
      ''[replay]'', setting_line ''channel'' (as_replay_channel s),
      setting_line ''stream_id'' (decimal_int (sint (as_replay_stream_id s))), [],
      ''[timeouts]'', setting_line ''idle_sleep_ms'' (decimal_int (sint (idle_sleep_ms s))),
      setting_line ''message_timeout_ns'' (decimal_int (sint (message_timeout_ns s))), rule_line]"

definition print_settings :: "AeronSettings \<Rightarrow> string" where
  "print_settings s = unlines (settings_lines s)"

section \<open>What the lines mean to the parser\<close>

text \<open>Numbers as text: what is printed is read back, and what follows the digits is ignored.\<close>

locale text_number =
  fixes show_number :: "'n \<Rightarrow> string"
    and read_number :: "string \<Rightarrow> exn + 'n"
  assumes read_show: "rest = [] \<or> \<not> is_digit (hd rest) \<Longrightarrow> read_number (show_number n @ rest) = Inr n"
begin

lemma read_shown: "read_number (show_number n) = Inr n"
  using read_show [of "[]"] by simp

lemma show_inject: "show_number m = show_number n \<longleftrightarrow> m = n"
  by (metis read_shown sum.inject(2))

end

lemma strtol_decimal_int:
  "rest = [] \<or> \<not> is_digit (hd rest) \<Longrightarrow> strtol_int (decimal_int z @ rest) = Some z"
  using strtol_decimal [of rest] by (simp add: decimal_int_def)

interpretation i32_text: text_number "\<lambda>i :: i32. decimal_int (sint i)" stoi
proof
  fix rest and n :: i32
  assume "rest = [] \<or> \<not> is_digit (hd rest)"
  then show "stoi (decimal_int (sint n) @ rest) = Inr n"
    using sint_ge [of n] sint_lt [of n] by (simp add: stoi_def strtol_decimal_int)
qed

interpretation i64_text: text_number "\<lambda>l :: i64. decimal_int (sint l)" stoll
proof
  fix rest and n :: i64
  assume "rest = [] \<or> \<not> is_digit (hd rest)"
  then show "stoll (decimal_int (sint n) @ rest) = Inr n"
    using sint_ge [of n] sint_lt [of n] by (simp add: stoll_def strtol_decimal_int)
qed

lemma parse_decimal_int:
  "parseInt (decimal_int (sint i)) key = Inr i"
  "parseLongLong (decimal_int (sint l)) key = Inr l"
  by (simp_all add: parseInt_def parseLongLong_def i32_text.read_shown i64_text.read_shown)

lemma decimal_int_chars: "c \<in> set (decimal_int z) \<Longrightarrow> is_digit c \<or> c = CHR ''-''"
  using decimal_digits by (auto simp: decimal_int_def split: if_splits)

lemma digit_not_blank: "is_digit c \<or> c = CHR ''-'' \<Longrightarrow> \<not> is_blank c"
  by (auto simp: is_blank_def is_digit_def)

lemma clean_decimal_int: "clean_value (decimal_int z)"
proof -
  have nb: "\<not> is_blank c" if "c \<in> set (decimal_int z)" for c
    using decimal_int_chars [OF that] by (rule digit_not_blank)
  then have "trimmed (decimal_int z)" by (simp add: trimmed_def)
  moreover have "CHR 0x0A \<notin> set (decimal_int z)" using nb by (auto simp: is_blank_def)
  ultimately show ?thesis by (simp add: clean_value_def)
qed

lemma classify_setting_line:
  assumes "clean_key k" "clean_value v"
  shows "classify (setting_line k v) = Entry k v"
proof -
  have "is_blank CHR '' ''" by (simp add: is_blank_def)
  then have "trim (setting_line k v) = trim (k @ '' = '' @ v)"
    by (simp add: setting_line_def trim_blank(1))
  then have "classify (setting_line k v) = classify (k @ '' = '' @ v)"
    by (simp only: classify_def)
  with classify_entry [OF assms] show ?thesis by simp
qed

lemma classify_fixed_lines:
  "classify rule_line = Entry [] (replicate 39 CHR ''='')"
  "classify ''Aeron Configuration'' = Ignored" "classify [] = Ignored"
  "classify ''[aeron]'' = Section ''aeron''" "classify ''[archive]'' = Section ''archive''"
  "classify ''[publication]'' = Section ''publication''"
  "classify ''[subscription]'' = Section ''subscription''"
  "classify ''[replay]'' = Section ''replay''" "classify ''[timeouts]'' = Section ''timeouts''"
  by code_simp+

lemma setting_keys:
  "clean_key ''dir''" "clean_key ''control_request_channel''" "clean_key ''control_response_channel''"
  "clean_key ''channel''" "clean_key ''stream_id''" "clean_key ''idle_sleep_ms''"
  "clean_key ''message_timeout_ns''"
  by (simp_all add: clean_key_def clean_name_def trimmed_def is_blank_def)

text \<open>Settings whose texts fit on a line.\<close>

definition printable :: "AeronSettings \<Rightarrow> bool" where
  "printable s \<longleftrightarrow>
     list_all clean_value
       [as_aeron_dir s, as_archive_control_request_channel s, as_archive_control_response_channel s,
        as_publication_channel s, as_subscription_channel s, as_replay_channel s]"

definition settings_entries :: "AeronSettings \<Rightarrow> ((string \<times> string) \<times> string) list" where
  "settings_entries s =
     [((''aeron'', ''dir''), as_aeron_dir s),
      ((''archive'', ''control_request_channel''), as_archive_control_request_channel s),
      ((''archive'', ''control_response_channel''), as_archive_control_response_channel s),
      ((''publication'', ''channel''), as_publication_channel s),
      ((''publication'', ''stream_id''), decimal_int (sint (as_publication_stream_id s))),
      ((''subscription'', ''channel''), as_subscription_channel s),
      ((''subscription'', ''stream_id''), decimal_int (sint (as_subscription_stream_id s))),
      ((''replay'', ''channel''), as_replay_channel s),
      ((''replay'', ''stream_id''), decimal_int (sint (as_replay_stream_id s))),
      ((''timeouts'', ''idle_sleep_ms''), decimal_int (sint (idle_sleep_ms s))),
      ((''timeouts'', ''message_timeout_ns''), decimal_int (sint (message_timeout_ns s))),
      ((''timeouts'', []), replicate 39 CHR ''='')]"

lemma fold_settings_lines:
  assumes "printable s"
  shows "snd (fold apply_line (map classify (settings_lines s)) ([], m))
       = fold (\<lambda>((n, k), v). ini_set n k v) (settings_entries s) m"
  using assms unfolding printable_def settings_lines_def settings_entries_def
  by (simp add: classify_setting_line setting_keys classify_fixed_lines clean_decimal_int)

text \<open>Lines before the first section change nothing, whatever they contain.\<close>

lemma fold_before_sections:
  assumes "\<forall>l \<in> set pre. \<forall>n. classify l \<noteq> Section n"
  shows "fold apply_line (map classify pre) ([], m) = ([], m)"
  using assms
proof (induction pre)
  case (Cons l pre)
  then show ?case by (cases "classify l") auto
qed simp

lemma settings_lines_newline_free:
  assumes "printable s" and "l \<in> set (settings_lines s)"
  shows "CHR 0x0A \<notin> set l"
  using assms clean_decimal_int
  by (auto simp: settings_lines_def printable_def setting_line_def rule_line_def clean_value_def)

lemma printed_content:
  assumes "printable s" and "\<forall>l \<in> set pre. CHR 0x0A \<notin> set l \<and> (\<forall>n. classify l \<noteq> Section n)"
  shows "parse_content (unlines pre @ print_settings s)
       = fold (\<lambda>((n, k), v). ini_set n k v) (settings_entries s) Map.empty"
proof -
  have "parse_content (unlines (pre @ settings_lines s))
      = snd (fold apply_line (map classify (pre @ settings_lines s)) ([], Map.empty))"
    by (rule parse_content_classify) (use assms settings_lines_newline_free in auto)
  then show ?thesis
    using assms fold_before_sections [of pre Map.empty]
    by (simp add: print_settings_def fold_settings_lines flip: unlines_append)
qed

section \<open>Properties\<close>

text \<open>C29: The output of \<open>--print-config\<close> is a configuration file. Whatever lines without a section header
  come before it on the standard output, a file with the printed settings is loaded to those
  settings, if they are valid and their texts fit on a line; the rules around the listing do not
  disturb, although the last one is read as an entry with an empty key.\<close>
theorem printed_settings_load:
  assumes "printable s" and "valid_settings s" and "env_unset env"
    and "\<forall>l \<in> set pre. CHR 0x0A \<notin> set l \<and> (\<forall>n. classify l \<noteq> Section n)"
    and "files path = Some (unlines pre @ print_settings s)"
  shows "loadFromFile files env path = Inr s"
proof -
  let ?m = "parse_content (unlines pre @ print_settings s)"
  let ?ns = "(as_publication_stream_id s, as_subscription_stream_id s, as_replay_stream_id s,
      idle_sleep_ms s, message_timeout_ns s)"
  have n: "ini_numbers ?m = Inr ?ns"
    by (simp add: printed_content [OF assms(1,4)] settings_entries_def ini_numbers_def ini_get_set
        number_or_def parse_decimal_int)
  have "ini_settings ?m ?ns = s"
    by (simp add: printed_content [OF assms(1,4)] settings_entries_def ini_settings_def ini_get_set
        text_or_def)
  moreover have "validate_settings s = None" using assms(2) by (simp add: validate_settings_None)
  ultimately show ?thesis
    using assms(5) n by (simp add: loadFromFile_eq override_unset [OF assms(3)])
qed

theorem printed_settings_load_witness:
  "loadFromFile [''saved.ini'' \<mapsto>
       unlines [''Override: aeron_dir = /dev/shm/a''] @ print_settings (template_settings ''local'')]
     Map.empty ''saved.ini'' = Inr (template_settings ''local'')"
proof (rule printed_settings_load [where pre = "[''Override: aeron_dir = /dev/shm/a'']"])
  show "printable (template_settings ''local'')"
    by (simp add: printable_def template_settings_def template_channel_def template_host_def
        clean_value_def trimmed_def is_blank_def)
  have "classify ''Override: aeron_dir = /dev/shm/a'' = Entry ''Override: aeron_dir'' ''/dev/shm/a''"
    by code_simp
  then show "\<forall>l \<in> set [''Override: aeron_dir = /dev/shm/a''].
      CHR 0x0A \<notin> set l \<and> (\<forall>n. classify l \<noteq> Section n)" by simp
qed (simp_all add: template_settings_valid env_unset_empty)

end
