(* ===== verification/Replay_To_Live.thy ===== *)
theory Replay_To_Live
  imports Polling
begin

text \<open>
  \<open>ReplayToLiveHandler\<close> (\<open>deprecated/ReplayToLiveHandler.h\<close>, \<open>deprecated/ReplayToLiveHandler.cpp\<close>): the
  hand-written change from a replay to the live stream that the official merge has replaced. Its
  state machine, with the answers of the client library as arguments.
\<close>

section \<open>State\<close>

datatype SubscriptionMode = REPLAY | TRANSITIONING | LIVE

record ReplayToLiveHandler =
  mode :: SubscriptionMode
  replay_subscription :: "i64 option"
  live_subscription :: "i64 option"
  replay_session_id :: i64
  last_replay_position :: i64
  live_start_position :: i64

definition new_ReplayToLiveHandler :: ReplayToLiveHandler where
  "new_ReplayToLiveHandler =
     \<lparr>mode = LIVE, replay_subscription = None, live_subscription = None, replay_session_id = - 1,
      last_replay_position = 0, live_start_position = 0\<rparr>"

section \<open>Starting a replay\<close>

text \<open>What the callback looks at in a descriptor, and the two local variables that it sets.\<close>

record replay_descriptor =
  rp_recordingId :: i64
  rp_stopPos :: i64
  rp_streamId :: i32

definition replay_consumer :: "i32 \<Rightarrow> replay_descriptor \<Rightarrow> i64 \<times> i64 \<Rightarrow> i64 \<times> i64" where
  "replay_consumer streamId d r =
     (if rp_streamId d = streamId then (rp_recordingId d, rp_stopPos d) else r)"

text \<open>\<open>re_list\<close> is what the listing hands to the callback and the exception that ends it, if any.\<close>

record replay_env =
  re_list :: "replay_descriptor list \<times> exn option"
  re_addReplay :: "exn + i64"
  re_findReplay :: "i64 \<Rightarrow> nat \<Rightarrow> exn + bool"
  re_startReplay :: "i64 \<Rightarrow> i64 \<Rightarrow> i64 \<Rightarrow> exn + i64"
  re_addLive :: "exn + i64"
  re_findLive :: "i64 \<Rightarrow> nat \<Rightarrow> exn + bool"
  re_NULL_POSITION :: i64

text \<open>\<open>findSubscription\<close> until it finds: what becomes of the member \<open>old\<close>, and the exception.\<close>

definition await_subscription ::
  "(i64 \<Rightarrow> nat \<Rightarrow> exn + bool) \<Rightarrow> i64 \<Rightarrow> i64 option \<Rightarrow> (exn option \<times> i64 option) option" where
  "await_subscription lookup sid old =
     (case wait_for (lookup sid) 0 of
        None \<Rightarrow> None
      | Some (Inl e) \<Rightarrow> Some (Some e, (case lookup sid 0 of Inl e0 \<Rightarrow> old | Inr found \<Rightarrow> None))
      | Some (Inr k) \<Rightarrow> Some (None, Some sid))"

definition replay_length :: "i64 \<Rightarrow> i64 \<Rightarrow> i64 \<Rightarrow> i64" where
  "replay_length null_position stop_position startPosition =
     (if stop_position = 0 \<or> stop_position = null_position then 2 ^ 63 - 1
      else stop_position - startPosition)"

text \<open>From the creation of the live subscription on.\<close>

definition open_live ::
  "replay_env \<Rightarrow> i64 \<Rightarrow> ReplayToLiveHandler \<Rightarrow> (bool \<times> ReplayToLiveHandler) option" where
  "open_live env stop_position h =
     (case re_addLive env of
        Inl e \<Rightarrow> Some (False, h)
      | Inr live_sub_id \<Rightarrow>
          (case await_subscription (re_findLive env) live_sub_id (live_subscription h) of
             None \<Rightarrow> None
           | Some (Some e, l) \<Rightarrow> Some (False, h\<lparr>live_subscription := l\<rparr>)
           | Some (None, l) \<Rightarrow>
               Some (True, h\<lparr>live_subscription := l, live_start_position := stop_position\<rparr>)))"

definition startReplay ::
  "replay_env \<Rightarrow> i32 \<Rightarrow> i64 \<Rightarrow> ReplayToLiveHandler \<Rightarrow> (bool \<times> ReplayToLiveHandler) option" where
  "startReplay env streamId startPosition h =
     (let h1 = h\<lparr>mode := REPLAY\<rparr>;
          (recording_id, stop_position) =
            fold (replay_consumer streamId) (fst (re_list env)) (- 1, re_NULL_POSITION env)
      in if snd (re_list env) \<noteq> None then Some (False, h1)
         else if recording_id = - 1 then Some (False, h1)
         else case re_addReplay env of
                Inl e \<Rightarrow> Some (False, h1)
              | Inr replay_sub_id \<Rightarrow>
                  (case await_subscription (re_findReplay env) replay_sub_id (replay_subscription h1) of
                     None \<Rightarrow> None
                   | Some (Some e, r) \<Rightarrow> Some (False, h1\<lparr>replay_subscription := r\<rparr>)
                   | Some (None, r) \<Rightarrow>
                       let h2 = h1\<lparr>replay_subscription := r\<rparr>
                       in case re_startReplay env recording_id startPosition
                                 (replay_length (re_NULL_POSITION env) stop_position startPosition) of
                            Inl e \<Rightarrow> Some (False, h2)
                          | Inr session \<Rightarrow>
                              open_live env stop_position
                                (h2\<lparr>replay_session_id := session, last_replay_position := startPosition\<rparr>)))"

definition handler_startLive ::
  "replay_env \<Rightarrow> ReplayToLiveHandler \<Rightarrow> (bool \<times> ReplayToLiveHandler) option" where
  "handler_startLive env h =
     (let h1 = h\<lparr>mode := LIVE\<rparr>
      in case re_addLive env of
           Inl e \<Rightarrow> Some (False, h1)
         | Inr sub_id \<Rightarrow>
             (case await_subscription (re_findLive env) sub_id (live_subscription h1) of
                None \<Rightarrow> None
              | Some (Some e, l) \<Rightarrow> Some (False, h1\<lparr>live_subscription := l\<rparr>)
              | Some (None, l) \<Rightarrow> Some (True, h1\<lparr>live_subscription := l\<rparr>)))"

section \<open>Polling\<close>

text \<open>\<open>images1\<close> and \<open>images2\<close> are the two readings of \<open>imageCount\<close>.\<close>

definition checkTransitionToLive ::
  "nat \<Rightarrow> nat \<Rightarrow> ReplayToLiveHandler \<Rightarrow> bool \<times> ReplayToLiveHandler" where
  "checkTransitionToLive images1 images2 h =
     (if mode h \<noteq> REPLAY then (False, h)
      else if replay_subscription h \<noteq> None \<and> images1 = 0 \<and> images2 = 0 then
        let h1 = h\<lparr>mode := TRANSITIONING\<rparr>;
            h2 = h1\<lparr>replay_subscription := None\<rparr>
        in (True, h2\<lparr>mode := LIVE\<rparr>)
      else (False, h))"

text \<open>
  What the subscription that is polled delivers: bytes and position of each fragment. The
  caller's handler is a function on the caller's state.
\<close>

type_synonym replay_fragments = "(u8 list \<times> i64) list"

definition rtl_poll ::
  "(u8 list \<Rightarrow> i64 \<Rightarrow> 'u \<Rightarrow> 'u) \<Rightarrow> replay_fragments \<Rightarrow> nat \<Rightarrow> nat
    \<Rightarrow> ReplayToLiveHandler \<times> 'u \<Rightarrow> nat \<times> ReplayToLiveHandler \<times> 'u" where
  "rtl_poll handler frs images1 images2 hu =
     (let (h, u) = hu
      in if mode h = REPLAY \<and> replay_subscription h \<noteq> None then
           let (h1, u1) = fold (\<lambda>(bytes, position) (h, u).
                  (h\<lparr>last_replay_position := position\<rparr>, handler bytes position u)) frs (h, u)
           in if frs = [] then (0, snd (checkTransitionToLive images1 images2 h1), u1)
              else (length frs, h1, u1)
         else if mode h = LIVE \<and> live_subscription h \<noteq> None then
           (length frs, h, fold (\<lambda>(bytes, position). handler bytes position) frs u)
         else (0, h, u))"

definition rtl_shutdown :: "ReplayToLiveHandler \<Rightarrow> ReplayToLiveHandler" where
  "rtl_shutdown h = h\<lparr>replay_subscription := None, live_subscription := None\<rparr>"

section \<open>Runs of polls\<close>

text \<open>One poll: the fragments delivered and the two image counts; the results of the calls are dropped.\<close>

type_synonym poll_input = "replay_fragments \<times> nat \<times> nat"

definition poll_once ::
  "(u8 list \<Rightarrow> i64 \<Rightarrow> 'u \<Rightarrow> 'u) \<Rightarrow> poll_input \<Rightarrow> ReplayToLiveHandler \<times> 'u \<Rightarrow> ReplayToLiveHandler \<times> 'u"
  where
  "poll_once handler p hu =
     (case p of (frs, images1, images2) \<Rightarrow> snd (rtl_poll handler frs images1 images2 hu))"

definition handle_all :: "(u8 list \<Rightarrow> i64 \<Rightarrow> 'u \<Rightarrow> 'u) \<Rightarrow> replay_fragments \<Rightarrow> 'u \<Rightarrow> 'u" where
  "handle_all handler frs = fold (\<lambda>(bytes, position). handler bytes position) frs"

text \<open>The poll that ends a replay.\<close>

definition replay_over :: "poll_input \<Rightarrow> bool" where
  "replay_over p \<longleftrightarrow> fst p = [] \<and> fst (snd p) = 0 \<and> snd (snd p) = 0"

text \<open>A handler that polls: in replay or live mode, with the subscription of the mode.\<close>

definition polling :: "ReplayToLiveHandler \<Rightarrow> bool" where
  "polling h \<longleftrightarrow> live_subscription h \<noteq> None
     \<and> (mode h = LIVE \<or> mode h = REPLAY \<and> replay_subscription h \<noteq> None)"

lemma fold_positions:
  "fold (\<lambda>(bytes, position) (h, u). (h\<lparr>last_replay_position := position\<rparr>, handler bytes position u)) frs (h, u)
   = ((if frs = [] then h else h\<lparr>last_replay_position := snd (last frs)\<rparr>), handle_all handler frs u)"
  by (induction frs arbitrary: h u) (auto simp: handle_all_def)

lemma poll_once_live:
  "polling h \<Longrightarrow> mode h = LIVE \<Longrightarrow> poll_once handler p (h, u) = (h, handle_all handler (fst p) u)"
  by (auto simp: poll_once_def rtl_poll_def polling_def handle_all_def split: prod.split)

lemma poll_once_replay:
  assumes "polling h" and "mode h = REPLAY"
  shows "poll_once handler p (h, u) =
    ((if replay_over p then h\<lparr>mode := LIVE, replay_subscription := None\<rparr>
      else if fst p = [] then h else h\<lparr>last_replay_position := snd (last (fst p))\<rparr>),
     handle_all handler (fst p) u)"
  using assms
  by (cases p)
     (auto simp: poll_once_def rtl_poll_def polling_def fold_positions replay_over_def
       checkTransitionToLive_def Let_def)

definition merge_result :: "ReplayToLiveHandler \<Rightarrow> poll_input list \<Rightarrow> ReplayToLiveHandler \<Rightarrow> bool" where
  "merge_result h ps h' \<longleftrightarrow>
     polling h' \<and> live_subscription h' = live_subscription h
     \<and> (mode h' = LIVE \<longleftrightarrow> mode h = LIVE \<or> list_ex replay_over ps)"

lemma poll_once_result:
  assumes "polling h"
  shows "merge_result h [p] (fst (poll_once handler p (h, u)))
    \<and> snd (poll_once handler p (h, u)) = handle_all handler (fst p) u"
  using poll_once_live [OF assms, of handler p u] poll_once_replay [OF assms, of handler p u] assms
  by (cases "mode h"; auto simp: merge_result_def polling_def split: if_splits)

interpretation rtl: fragment_receiver "poll_once (handler :: u8 list \<Rightarrow> i64 \<Rightarrow> 'u \<Rightarrow> 'u)" fst "\<lambda>p. True" "\<lambda>hu. polling (fst hu)"
  "\<lambda>(bytes, position). handler bytes position" snd for handler
proof unfold_locales
  fix hu :: "ReplayToLiveHandler \<times> 'u" and p
  assume h: "polling (fst hu)"
  note r = poll_once_result [OF h, of p handler "snd hu"]
  show "polling (fst (poll_once handler p hu))" using r by (simp add: merge_result_def)
  show "snd (poll_once handler p hu) = fold (\<lambda>(bytes, position). handler bytes position) (fst p) (snd hu)"
    using r by (simp add: handle_all_def)
qed

lemma polls_mode:
  assumes "polling h"
  shows "merge_result h ps (fst (fold (poll_once handler) ps (h, u)))"
  using assms
proof (induction ps arbitrary: h u)
  case Nil
  then show ?case by (simp add: merge_result_def)
next
  case (Cons p ps)
  obtain h1 u1 where p: "poll_once handler p (h, u) = (h1, u1)" by fastforce
  then have 1: "merge_result h [p] h1" using poll_once_result [OF Cons.prems, of p handler u] by simp
  with Cons.IH [of h1 u1] show ?case by (auto simp: p merge_result_def)
qed

lemma polls_result:
  assumes "polling h"
  shows "merge_result h ps (fst (fold (poll_once handler) ps (h, u)))
    \<and> snd (fold (poll_once handler) ps (h, u)) = handle_all handler (concat (map fst ps)) u"
  using polls_mode [OF assms] rtl.polls_view [of "(h, u)" ps handler] assms
  by (simp add: handle_all_def list.pred_True)

section \<open>Properties\<close>

definition example_handler :: ReplayToLiveHandler where
  "example_handler =
     new_ReplayToLiveHandler\<lparr>mode := REPLAY, replay_subscription := Some 3, live_subscription := Some 4\<rparr>"

text \<open>C39: The change from replay to live. From a handler that polls, over any sequence of polls, the
  caller's handler is called for every delivered fragment exactly once and in order; the mode is
  live at the end if and only if it was live at the start or some poll of the replay delivered
  nothing while both image counts were zero, and the transitioning mode is never left visible.\<close>
theorem replay_to_live:
  assumes "polling h"
  shows "let (h', u') = fold (poll_once handler) ps (h, u)
         in u' = handle_all handler (concat (map fst ps)) u
          \<and> (mode h' = LIVE \<longleftrightarrow> mode h = LIVE \<or> list_ex replay_over ps)
          \<and> mode h' \<noteq> TRANSITIONING \<and> live_subscription h' = live_subscription h"
  using polls_result [OF assms, of ps handler u]
  by (auto simp: merge_result_def polling_def case_prod_beta)

theorem replay_to_live_witness:
  "mode (fst (fold (poll_once (\<lambda>b p u. u @ [p])) [([([], 64)], 1, 1), ([], 1, 1), ([], 0, 0), ([([], 96)], 0, 0)]
      (example_handler, []))) = LIVE"
proof -
  have "polling example_handler" by (simp add: polling_def example_handler_def)
  from replay_to_live [OF this, of "\<lambda>b p u. u @ [p]"
      "[([([], 64)], 1, 1), ([], 1, 1), ([], 0, 0), ([([], 96)], 0, 0)]" "[]"]
  show ?thesis by (simp add: case_prod_beta replay_over_def del: fold_simps)
qed

text \<open>A replay can be skipped. A poll that comes after a successful \<open>startReplay\<close> and before the
  replay's image has arrived finds no fragment and no image, takes the replay for finished and
  drops its subscription: every later poll is a live one, no recorded message is ever handled.\<close>
theorem replay_skipped:
  assumes "startReplay env streamId startPosition h = Some (True, h1)"
  shows "poll_once handler ([], 0, 0) (h1, u) = (h1\<lparr>mode := LIVE, replay_subscription := None\<rparr>, u)
    \<and> mode (fst (fold (poll_once handler) (([], 0, 0) # ps) (h1, u))) = LIVE
    \<and> replay_subscription (fst (poll_once handler ([], 0, 0) (h1, u))) = None"
proof -
  have h1: "polling h1" "mode h1 = REPLAY"
    using assms
    by (auto simp: startReplay_def open_live_def await_subscription_def polling_def Let_def case_prod_beta
        split: if_splits sum.splits option.splits)
  then have p: "poll_once handler ([], 0, 0) (h1, u) = (h1\<lparr>mode := LIVE, replay_subscription := None\<rparr>, u)"
    by (simp add: poll_once_replay replay_over_def handle_all_def)
  have "list_ex replay_over (([], 0, 0) # ps)" by (simp add: replay_over_def)
  with polls_result [OF h1(1), of "([], 0, 0) # ps" handler u] p show ?thesis
    by (simp add: merge_result_def del: fold_simps)
qed

text \<open>An environment in which every call succeeds.\<close>

definition example_replay_env :: replay_env where
  "example_replay_env =
     \<lparr>re_list = ([\<lparr>rp_recordingId = 0, rp_stopPos = 4096, rp_streamId = 10\<rparr>], None),
      re_addReplay = Inr 3, re_findReplay = (\<lambda>sid k. Inr True), re_startReplay = (\<lambda>r p l. Inr l),
      re_addLive = Inr 4, re_findLive = (\<lambda>sid k. Inr (1 \<le> k)), re_NULL_POSITION = - 1\<rparr>"

lemma example_startReplay:
  "startReplay example_replay_env 10 1024 new_ReplayToLiveHandler =
     Some (True, new_ReplayToLiveHandler\<lparr>mode := REPLAY, replay_subscription := Some 3,
       live_subscription := Some 4, replay_session_id := 3072, last_replay_position := 1024,
       live_start_position := 4096\<rparr>)"
proof -
  have "wait_for (\<lambda>k. Inr True) 0 = Some (Inr 0)" "wait_for (\<lambda>k. Inr (Suc 0 \<le> k)) 0 = Some (Inr 1)"
    by (auto simp: wait_for_Inr_iff)
  then show ?thesis
    by (simp add: startReplay_def example_replay_env_def replay_consumer_def await_subscription_def
        open_live_def replay_length_def new_ReplayToLiveHandler_def)
qed

theorem replay_skipped_witness:
  "\<exists>h. startReplay example_replay_env 10 1024 new_ReplayToLiveHandler = Some (True, h)
     \<and> mode (fst (fold (poll_once (\<lambda>b p u. u @ [p])) [([], 0, 0), ([([], 96)], 1, 1)] (h, []))) = LIVE"
  using replay_skipped [OF example_startReplay, of "\<lambda>b p u. u @ [p]" "[]" "[([([], 96)], 1, 1)]"]
  by (auto simp: example_startReplay simp del: fold_simps)

text \<open>A failed start mutes a live handler. When no recording of the stream is listed, \<open>startReplay\<close>
  returns false but leaves the mode at replay; without a replay subscription every later poll
  then does nothing, although the live subscription is still open.\<close>
theorem failed_replay_mutes:
  assumes "re_list env = (ds, None)" and "\<forall>d \<in> set ds. rp_streamId d \<noteq> streamId"
    and "replay_subscription h = None"
  shows "\<exists>h1. startReplay env streamId startPosition h = Some (False, h1)
    \<and> live_subscription h1 = live_subscription h
    \<and> rtl_poll handler frs images1 images2 (h1, u) = (0, h1, u)"
proof -
  have "fold (replay_consumer streamId) ds r = r" for r
    using assms(2) by (induction ds) (auto simp: replay_consumer_def)
  with assms show ?thesis by (simp add: startReplay_def rtl_poll_def)
qed

theorem failed_replay_mutes_witness:
  "\<exists>h1. startReplay example_replay_env 77 0 (new_ReplayToLiveHandler\<lparr>live_subscription := Some 4\<rparr>) = Some (False, h1)
     \<and> rtl_poll (\<lambda>b p u. u @ [p]) [([], 96)] 1 1 (h1, []) = (0, h1, [])"
proof -
  have "re_list example_replay_env = ([\<lparr>rp_recordingId = 0, rp_stopPos = 4096, rp_streamId = 10\<rparr>], None)"
    by (simp add: example_replay_env_def)
  from failed_replay_mutes [OF this, of 77 "new_ReplayToLiveHandler\<lparr>live_subscription := Some 4\<rparr>" 0
      "\<lambda>b p u. u @ [p]" "[([], 96)]" 1 1 "[]"]
  show ?thesis by (auto simp: new_ReplayToLiveHandler_def)
qed

end
