(* ===== verification/Logger.thy ===== *)
theory Logger
  imports Text
begin

text \<open>
  \<open>Logger\<close> (\<open>common/include/Logger.h\<close>): the levels in their order, the current level, and the lines that
  are printed. The date and the milliseconds are arguments of a call.
\<close>

section \<open>Levels\<close>

datatype LogLevel = DEBUG | INFO | WARN | ERROR

text \<open>The comparison of the enumeration is that of the underlying numbers.\<close>

fun level_number :: "LogLevel \<Rightarrow> nat" where
  "level_number DEBUG = 0"
| "level_number INFO = 1"
| "level_number WARN = 2"
| "level_number ERROR = 3"

lemma level_number_inject: "level_number a = level_number b \<longleftrightarrow> a = b"
  by (cases a; cases b) simp_all

instantiation LogLevel :: linorder
begin

definition less_eq_LogLevel :: "LogLevel \<Rightarrow> LogLevel \<Rightarrow> bool" where
  "less_eq_LogLevel a b \<longleftrightarrow> level_number a \<le> level_number b"

definition less_LogLevel :: "LogLevel \<Rightarrow> LogLevel \<Rightarrow> bool" where
  "less_LogLevel a b \<longleftrightarrow> level_number a < level_number b"

instance
  by standard (auto simp: less_eq_LogLevel_def less_LogLevel_def level_number_inject [symmetric])

end

fun levelToString :: "LogLevel \<Rightarrow> string" where
  "levelToString DEBUG = ''DEBUG''"
| "levelToString INFO = ''INFO ''"
| "levelToString WARN = ''WARN ''"
| "levelToString ERROR = ''ERROR''"

section \<open>Logging\<close>

record logger =
  current_level :: LogLevel
  log_output :: "string list"

definition initial_logger :: logger where
  "initial_logger = \<lparr>current_level = INFO, log_output = []\<rparr>"

definition setLevel :: "LogLevel \<Rightarrow> logger \<Rightarrow> logger" where
  "setLevel level lg = lg\<lparr>current_level := level\<rparr>"

text \<open>\<open>setfill('0') << setw(3)\<close>\<close>

definition setw3 :: "nat \<Rightarrow> string" where
  "setw3 ms = replicate (3 - length (decimal ms)) CHR ''0'' @ decimal ms"

definition log_line :: "string \<Rightarrow> nat \<Rightarrow> LogLevel \<Rightarrow> string \<Rightarrow> string" where
  "log_line date ms level message =
     date @ ''.'' @ setw3 ms @ '' ['' @ levelToString level @ ''] '' @ message"

definition log_message :: "string \<Rightarrow> nat \<Rightarrow> LogLevel \<Rightarrow> string \<Rightarrow> logger \<Rightarrow> logger" where
  "log_message date ms level message lg =
     (if level < current_level lg then lg
      else lg\<lparr>log_output := log_output lg @ [log_line date ms level message]\<rparr>)"

definition debug :: "string \<Rightarrow> nat \<Rightarrow> string \<Rightarrow> logger \<Rightarrow> logger" where
  "debug date ms = log_message date ms DEBUG"

definition info :: "string \<Rightarrow> nat \<Rightarrow> string \<Rightarrow> logger \<Rightarrow> logger" where
  "info date ms = log_message date ms INFO"

definition warn :: "string \<Rightarrow> nat \<Rightarrow> string \<Rightarrow> logger \<Rightarrow> logger" where
  "warn date ms = log_message date ms WARN"

definition log_error :: "string \<Rightarrow> nat \<Rightarrow> string \<Rightarrow> logger \<Rightarrow> logger" where
  "log_error date ms = log_message date ms ERROR"

section \<open>Properties\<close>

lemma length_levelToString: "length (levelToString l) = 5"
  by (cases l) simp_all

lemma levelToString_inject: "levelToString a = levelToString b \<longleftrightarrow> a = b"
  by (cases a; cases b) simp_all

lemma length_setw3: "ms < 1000 \<Longrightarrow> length (setw3 ms) = 3"
  using length_decimal [of ms 3] by (simp add: setw3_def)

text \<open>A line can be read back: the level and the message stand at fixed places behind the date.\<close>

theorem log_line_inject:
  assumes "length date = length date'" and "ms < 1000" and "ms' < 1000"
  shows "log_line date ms level message = log_line date' ms' level' message' \<longleftrightarrow>
    date = date' \<and> setw3 ms = setw3 ms' \<and> level = level' \<and> message = message'"
  using assms length_setw3 [of ms] length_setw3 [of ms']
  by (simp add: log_line_def length_levelToString levelToString_inject conj_ac)

text \<open>Raising the level only removes lines, and an error is printed at every level.\<close>

lemma log_error_always:
  "log_output (log_error date ms message lg) = log_output lg @ [log_line date ms ERROR message]"
  by (cases "current_level lg") (simp_all add: log_error_def log_message_def less_LogLevel_def)

text \<open>Calls at the same level: what is printed is what is not below the level, in the order of the calls.\<close>

theorem log_filters:
  "log_output (fold (\<lambda>(date, ms, l, m). log_message date ms l m) calls lg)
     = log_output lg @ map (\<lambda>(date, ms, l, m). log_line date ms l m)
         (filter (\<lambda>(date, ms, l, m). current_level lg \<le> l) calls)"
proof (induction calls arbitrary: lg)
  case (Cons c calls)
  obtain date ms l m where c: "c = (date, ms, l, m)" by (cases c) auto
  have "current_level (log_message date ms l m lg) = current_level lg"
    by (simp add: log_message_def)
  with Cons.IH [of "log_message date ms l m lg"] c show ?case
    by (simp add: log_message_def not_le)
qed simp

end
