(* ===== verification/Subscriber_Process.thy ===== *)
theory Subscriber_Process
  imports Zero_Copy_System Checkpoint_Steps Subscriber_Main
begin

text \<open>
  The threads of the subscriber program that work while it runs (\<open>subscriber/src/main.cpp\<close>): the
  subscriber in \<open>handleMessageFastPath\<close>, the worker in \<open>workerThreadMain\<close>, the flush thread of the
  checkpoint manager and the monitoring thread, with everything they share: the pool, the message
  queue, the checkpoint and the statistics queue. The steps are those of \<open>Zero_Copy_System\<close> and
  \<open>Checkpoint_Steps\<close>, synchronised where the subscriber's thread is the one that calls \<open>update\<close>. A crash
  may strike in any reachable state; what it costs is what the theorems are about.
\<close>

section \<open>State\<close>

text \<open>The subscriber's own copy of the checkpoint in \<open>px_sys\<close> has the values handed to \<open>update\<close>; what the
  flush thread sees is \<open>px_cp\<close>, where they are stored one by one. \<open>px_seen\<close> lists the items that the
  monitoring thread has taken; the program has no such list.\<close>

record process =
  px_sys :: zc_system
  px_cp :: cp_threads
  px_monitor :: monitor
  px_seen :: "MessageStats list"

definition start_process :: "zc_system \<Rightarrow> CheckpointManager \<Rightarrow> filesystem \<Rightarrow> process" where
  "start_process s cm fs =
     \<lparr>px_sys = s, px_cp = cp_threads_init cm fs, px_monitor = monitor_start, px_seen = []\<rparr>"

section \<open>Steps\<close>

text \<open>The subscriber's thread is in \<open>update\<close> from the record step on until its last store; the call's
  arguments are the number in the buffer, the position, and the count of received messages.\<close>

inductive process_step :: "archive_client \<Rightarrow> process \<Rightarrow> process \<Rightarrow> bool" for ar where
  p_subscriber: "subscriber_step ar (px_sys p) s \<Longrightarrow> unrecorded (sub_at (px_sys p)) = 0 \<Longrightarrow>
     updater (px_cp p) = U_Idle \<Longrightarrow> process_step ar p (p\<lparr>px_sys := s\<rparr>)"
| p_record: "subscriber_step ar (px_sys p) s \<Longrightarrow> sub_at (px_sys p) = S_Record pos buf \<Longrightarrow>
     updater (px_cp p) = U_Idle \<Longrightarrow> update_step (px_cp p) c \<Longrightarrow>
     history c = history (px_cp p)
       @ [(seq_of (buf_of (px_sys p) buf), pos, zc_messages_received (sy_sub s))] \<Longrightarrow>
     process_step ar p (p\<lparr>px_sys := s, px_cp := c\<rparr>)"
| p_update: "updater (px_cp p) \<noteq> U_Idle \<Longrightarrow> update_step (px_cp p) c \<Longrightarrow>
     process_step ar p (p\<lparr>px_cp := c\<rparr>)"
| p_flush: "flush_step (px_cp p) c \<Longrightarrow> process_step ar p (p\<lparr>px_cp := c\<rparr>)"
| p_worker: "worker_step (px_sys p) s \<Longrightarrow> process_step ar p (p\<lparr>px_sys := s\<rparr>)"
| p_monitor: "sq_dequeue (sy_stats (px_sys p)) = (Some st, q) \<Longrightarrow>
     process_step ar p
       (p\<lparr>px_sys := (px_sys p)\<lparr>sy_stats := q\<rparr>, px_monitor := monitor_item st (px_monitor p),
          px_seen := px_seen p @ [st]\<rparr>)"
| p_monitor_idle: "sq_dequeue (sy_stats (px_sys p)) = (None, q) \<Longrightarrow>
     process_step ar p (p\<lparr>px_sys := (px_sys p)\<lparr>sy_stats := q\<rparr>\<rparr>)"

inductive process_reachable :: "archive_client \<Rightarrow> process \<Rightarrow> process \<Rightarrow> bool" for ar p0 where
  process_start: "process_reachable ar p0 p0"
| process_next: "process_reachable ar p0 p \<Longrightarrow> process_step ar p p' \<Longrightarrow> process_reachable ar p0 p'"

section \<open>The calls of update\<close>

text \<open>The first and the last argument of the calls for the accepted messages.\<close>

definition calls_of :: "MessageBuffer list \<Rightarrow> (i64 \<times> i64) list" where
  "calls_of bs = map (\<lambda>i. (seq_of (bs ! i), of_nat (Suc i))) [0..<length bs]"

lemma calls_of_simps [simp]:
  "calls_of [] = []"
  "calls_of (bs @ [b]) = calls_of bs @ [(seq_of b, of_nat (Suc (length bs)))]"
  "length (calls_of bs) = length bs"
  by (simp_all add: calls_of_def nth_append cong: map_cong)

text \<open>The accepted messages whose call has begun.\<close>

definition recorded :: "zc_system \<Rightarrow> MessageBuffer list" where
  "recorded s = take (length (accepted s) - unrecorded (sub_at s)) (accepted s)"

definition recorded_ok :: "i64 \<times> i64 \<times> i64 \<Rightarrow> process \<Rightarrow> bool" where
  "recorded_ok e0 p \<longleftrightarrow>
     (\<exists>es. history (px_cp p) = e0 # es
        \<and> map (\<lambda>e. (fst e, snd (snd e))) es = calls_of (recorded (px_sys p)))"

lemma subscriber_step_accepted:
  assumes "subscriber_step ar s t" and "unrecorded (sub_at s) = 0"
  shows "recorded t = recorded s"
  using assms by (induction rule: subscriber_step.induct) (simp_all add: recorded_def)

lemma record_step:
  assumes "subscriber_step ar s t" and "sub_at s = S_Record pos buf" and "record_ok (sub_at s) s"
  shows "recorded t = recorded s @ [last (accepted s)]" "accepted t = accepted s"
    "seq_of (buf_of s buf) = seq_of (last (accepted s))" "unrecorded (sub_at t) = 0"
proof -
  have acc: "accepted s \<noteq> []" "header (buf_of s buf) = header (last (accepted s))"
    using assms(2,3) by simp_all
  have t: "accepted t = accepted s \<and> sub_at t = S_Idle"
    using assms(1,2) by cases simp_all
  show "accepted t = accepted s" "unrecorded (sub_at t) = 0" using t by simp_all
  show "seq_of (buf_of s buf) = seq_of (last (accepted s))" using acc by simp
  have "recorded s = butlast (accepted s)"
    using assms(2) by (simp add: recorded_def butlast_conv_take)
  then show "recorded t = recorded s @ [last (accepted s)]"
    using t acc(1) by (simp add: recorded_def)
qed

lemma worker_step_accepted: "worker_step s t \<Longrightarrow> recorded t = recorded s"
  using worker_step_frame [of s t] by (simp add: recorded_def)

section \<open>Invariant\<close>

definition process_ok :: "nat \<Rightarrow> i64 list \<Rightarrow> CheckpointManager \<Rightarrow> filesystem \<Rightarrow> process \<Rightarrow> bool" where
  "process_ok n init cm fs p \<longleftrightarrow>
     system_ok n init (px_sys p) \<and> cp_threads_inv cm fs (px_cp p)
     \<and> recorded_ok (cp_triple (cp_data cm)) p"

lemma system_ok_steps:
  "subscriber_step ar s t \<Longrightarrow> system_ok n init s \<Longrightarrow> system_ok n init t"
  "worker_step s t \<Longrightarrow> system_ok n init s \<Longrightarrow> system_ok n init t"
  by (blast intro: system_ok_reachable zc_reachable.intros)+

text \<open>The invariants of the pipeline do not look at the statistics queue.\<close>

lemma record_ok_stats [simp]: "record_ok pc (s\<lparr>sy_stats := q\<rparr>) = record_ok pc s"
  by (cases pc) simp_all

lemma system_ok_stats [simp]: "system_ok n init (s\<lparr>sy_stats := q\<rparr>) = system_ok n init s"
  by (simp add: system_ok_def zc_inv_def resources_ok_def places_def data_ok_def counted_def
      checkpointed_def handler_ok_def numbers_def)

lemma update_step_history:
  "update_step s t \<Longrightarrow> updater s \<noteq> U_Idle \<Longrightarrow> history t = history s"
  by (induction rule: update_step.induct) simp_all

lemma flush_step_history: "flush_step s t \<Longrightarrow> history t = history s"
  by (induction rule: flush_step.induct) simp_all

lemma process_step_ok:
  assumes "process_step ar p p'" and "process_ok n init cm fs p"
  shows "process_ok n init cm fs p'"
  using assms
proof (induction rule: process_step.induct)
  case (p_subscriber p s)
  then show ?case
    using subscriber_step_accepted [OF p_subscriber(1,2)]
    by (simp add: process_ok_def recorded_ok_def system_ok_steps)
next
  case (p_record p s pos buf c)
  have sys: "system_ok n init s" "record_ok (sub_at (px_sys p)) (px_sys p)"
    using p_record(1,6) by (simp_all add: process_ok_def system_ok_steps)
       (simp add: system_ok_def zc_inv_def)
  note rec = record_step [OF p_record(1,2) sys(2)]
  have "zc_messages_received (sy_sub s) = of_nat (length (accepted s))"
    using sys(1) rec(4) by (simp add: system_ok_def counted_def)
  moreover have "length (accepted s) = Suc (length (recorded (px_sys p)))"
    using rec(1,4) arg_cong [OF rec(1), of length] by (simp add: recorded_def)
  ultimately show ?case
    using p_record(4,5,6) sys(1) rec by (auto simp: process_ok_def recorded_ok_def intro: update_step_inv)
next
  case (p_update p c)
  then show ?case
    using update_step_history [OF p_update(2,1)]
    by (auto simp: process_ok_def recorded_ok_def intro: update_step_inv)
next
  case (p_flush p c)
  then show ?case
    using flush_step_history [OF p_flush(1)]
    by (auto simp: process_ok_def recorded_ok_def intro: flush_step_inv)
next
  case (p_worker p s)
  then show ?case
    using worker_step_accepted [OF p_worker(1)]
    by (simp add: process_ok_def recorded_ok_def system_ok_steps)
qed (simp_all add: process_ok_def recorded_ok_def recorded_def)

lemma process_reachable_ok:
  "process_reachable ar p0 p \<Longrightarrow> process_ok n init cm fs p0 \<Longrightarrow> process_ok n init cm fs p"
  by (induction rule: process_reachable.induct) (auto intro: process_step_ok)

lemma start_process_ok:
  "system_ok n init s \<Longrightarrow> accepted s = [] \<Longrightarrow> process_ok n init cm fs (start_process s cm fs)"
  using cp_threads_inv_init [of cm fs]
  by (simp add: process_ok_def recorded_ok_def recorded_def start_process_def)
     (simp add: cp_threads_init_def)

section \<open>The process that \<open>main\<close> starts\<close>

definition main_process :: "ptr \<Rightarrow> u8 list list \<Rightarrow> main_env \<Rightarrow> session \<Rightarrow> MessageWorker \<Rightarrow> process" where
  "main_process base junk env ss k =
     start_process (main_system base junk (ss_sub ss) k)
       (new_CheckpointManager (sm_stack env) (sm_checkpoints env) (checkpoint_path (config (ss_sub ss))) 1)
       (sm_checkpoints env)"

lemma main_started:
  assumes "subscriber_main env opts = Running ss"
  shows "sub_checkpoint (ss_sub ss) = Some (new_CheckpointManager (sm_stack env) (sm_checkpoints env)
      (checkpoint_path (config (ss_sub ss))) 1)"
    and "main_memory base junk \<Longrightarrow> system_ok 1024 (initial_window (config (ss_sub ss)))
      (main_system base junk (ss_sub ss) k)"
proof -
  obtain c cfg s where r: "ready_subscriber env cfg s" "started c s (ss_sub ss)"
    using subscriber_main_started [OF assms] by blast
  note same = started_simps [OF r(2)]
  have cfg: "config (ss_sub ss) = cfg" using r(1) same(2) by (simp add: ready_subscriber_def)
  show "sub_checkpoint (ss_sub ss) = Some (new_CheckpointManager (sm_stack env) (sm_checkpoints env)
      (checkpoint_path (config (ss_sub ss))) 1)"
    using r(1) same(6) cfg by (simp add: ready_subscriber_def)
  assume mem: "main_memory base junk"
  have "\<exists>sb. new_AeronSubscriber cfg = Inr sb"
    using r(1) by (auto simp: ready_subscriber_def new_AeronSubscriber_def Let_def)
  then obtain sb where sb: "new_AeronSubscriber cfg = Inr sb" ..
  show "system_ok 1024 (initial_window (config (ss_sub ss))) (main_system base junk (ss_sub ss) k)"
    unfolding cfg
    by (rule started_system_ok [OF mem sb])
       (use r(1) same new_AeronSubscriber_fields [OF sb] in \<open>simp_all add: ready_subscriber_def\<close>)
qed

lemma main_process_ok:
  assumes "subscriber_main env opts = Running ss" and "main_memory base junk"
    and "process_reachable ar (main_process base junk env ss k) p"
  shows "process_ok 1024 (initial_window (config (ss_sub ss)))
    (new_CheckpointManager (sm_stack env) (sm_checkpoints env) (checkpoint_path (config (ss_sub ss))) 1)
    (sm_checkpoints env) p"
proof (rule process_reachable_ok [OF assms(3)])
  show "process_ok 1024 (initial_window (config (ss_sub ss)))
    (new_CheckpointManager (sm_stack env) (sm_checkpoints env) (checkpoint_path (config (ss_sub ss))) 1)
    (sm_checkpoints env) (main_process base junk env ss k)"
    unfolding main_process_def
    by (rule start_process_ok [OF main_started(2) [OF assms(1,2)]])
       (simp add: main_system_def zc_system_init_def)
qed

section \<open>What a crash costs\<close>

text \<open>The messages, counted from the first one accepted, that the worker is done with.\<close>

definition handled :: "zc_system \<Rightarrow> nat" where
  "handled s = length (taken s) - length (in_hand (worker_at s))"

text \<open>The position that was passed to \<open>update\<close> with the m-th accepted message.\<close>

definition message_position :: "process \<Rightarrow> nat \<Rightarrow> i64" where
  "message_position p m = fst (snd (history (px_cp p) ! Suc m))"

definition positions_increase :: "process \<Rightarrow> bool" where
  "positions_increase p \<longleftrightarrow> sorted_wrt (\<lambda>e f. sint (fst (snd e)) < sint (fst (snd f))) (history (px_cp p))"

text \<open>At most the buffers of the pool are between the subscriber and the handler.\<close>

lemma unhandled_bound:
  assumes "system_ok n init s"
  shows "length (accepted s) - handled s \<le> n"
proof -
  have res: "resources_ok s" "PoolSize (sy_pool s) = n"
    and data: "accepted s = taken s @ map (buf_of s) (mq_contents (sy_queue s))"
    using assms by (simp_all add: system_ok_def zc_inv_def data_ok_def)
  have "length (in_hand (worker_at s)) \<le> length (worker_held (worker_at s))"
    by (cases "worker_at s") simp_all
  then have "length (accepted s) - handled s \<le> length (places s)"
    by (simp add: handled_def data places_def)
  also have "\<dots> \<le> n" using places_length [OF res(1)] res(2) by simp
  finally show ?thesis .
qed

lemma recorded_length: "recorded_ok e0 p \<Longrightarrow> length (history (px_cp p)) = Suc (length (recorded (px_sys p)))"
  unfolding recorded_ok_def by (auto dest: arg_cong [where f = length])

lemma recorded_number:
  assumes "recorded_ok e0 p" and "m < length (recorded (px_sys p))"
  shows "fst (history (px_cp p) ! Suc m) = seq_of (accepted (px_sys p) ! m)"
    "snd (snd (history (px_cp p) ! Suc m)) = of_nat (Suc m)"
proof -
  obtain es where es: "history (px_cp p) = e0 # es"
      "map (\<lambda>e. (fst e, snd (snd e))) es = calls_of (recorded (px_sys p))"
    using assms(1) by (auto simp: recorded_ok_def)
  have len: "length es = length (recorded (px_sys p))" using arg_cong [OF es(2), of length] by simp
  have "(fst (es ! m), snd (snd (es ! m))) = map (\<lambda>e. (fst e, snd (snd e))) es ! m"
    using assms(2) len by simp
  also have "\<dots> = calls_of (recorded (px_sys p)) ! m" by (simp only: es(2))
  also have "\<dots> = (seq_of (accepted (px_sys p) ! m), of_nat (Suc m))"
    using assms(2) by (simp add: calls_of_def del: of_nat_Suc) (simp add: recorded_def)
  finally show "fst (history (px_cp p) ! Suc m) = seq_of (accepted (px_sys p) ! m)"
    "snd (snd (history (px_cp p) ! Suc m)) = of_nat (Suc m)"
    by (simp_all add: es(1) del: of_nat_Suc)
qed

text \<open>Which messages lie behind a position of the history.\<close>

lemma position_split:
  assumes "recorded_ok e0 p" and "positions_increase p" and "j \<le> length (recorded (px_sys p))"
    and "m < length (recorded (px_sys p))"
  shows "sint (message_position p m) \<le> sint (fst (snd (history (px_cp p) ! j))) \<longleftrightarrow> m < j"
proof -
  let ?pos = "\<lambda>i. sint (fst (snd (history (px_cp p) ! i)))"
  have len: "length (history (px_cp p)) = Suc (length (recorded (px_sys p)))"
    by (rule recorded_length [OF assms(1)])
  have less: "?pos a < ?pos b" if "a < b" "b \<le> length (recorded (px_sys p))" for a b
    using assms(2) that len by (simp add: positions_increase_def sorted_wrt_iff_nth_less)
  show ?thesis
    using less [of "Suc m" j] less [of j "Suc m"] assms(3,4)
    by (cases "Suc m" j rule: linorder_cases) (auto simp: message_position_def)
qed

text \<open>What the next run loads.\<close>

lemma crash_loads:
  assumes ok: "process_ok n init (new_CheckpointManager st fs path i) fs p" and st: "wf_stack st" "wf_stack st'"
  shows "nearly_from (history (px_cp p)) (cp_data (new_CheckpointManager st' (disk (px_cp p)) path i'))"
proof -
  define cm where "cm = new_CheckpointManager st fs path i"
  have path: "checkpoint_file cm = path"
    by (simp add: cm_def new_CheckpointManager_def load_def split: option.split)
  have inv: "cp_threads_inv cm fs (px_cp p)" and rec: "recorded_ok (cp_triple (cp_data cm)) p"
    using ok by (simp_all add: process_ok_def cm_def)
  let ?d = "cp_data (new_CheckpointManager st' (disk (px_cp p)) path i')"
  have "?d = cp_data (new_CheckpointManager st' fs path i') \<or> nearly_from (history (px_cp p)) ?d"
    using crash_data [OF st(2) inv, of i'] by (simp add: Let_def path)
  moreover have "nearly_from (history (px_cp p)) ?d" if "?d = cp_data (new_CheckpointManager st' fs path i')"
  proof -
    have "?d = cp_data cm"
      unfolding that cm_def by (rule new_CheckpointManager_stack [OF st(2,1)])
    moreover obtain es where "history (px_cp p) = cp_triple (cp_data cm) # es"
      using rec by (auto simp: recorded_ok_def)
    ultimately show ?thesis
      by (auto simp: nearly_from_def seq_from_def field_from_def cp_triple_def intro!: exI [of _ 0])
  qed
  ultimately show ?thesis by blast
qed

text \<open>Where the replay of a run begins.\<close>

lemma main_start_position:
  assumes "subscriber_main env opts = Running ss" and "sub_replay_merge (ss_sub ss) = Some (rid, start)"
    and "parse_options subscriber_option opts default_subscriber_cli = Inr c"
  shows "start = (let P = last_position (cp_data (new_CheckpointManager (sm_stack env) (sm_checkpoints env)
                           (checkpoint_path (config (ss_sub ss))) 1))
                  in if 0 < sint P then P else sl_start_position c)"
proof -
  obtain cfg s where r: "ready_subscriber env cfg s" "started c s (ss_sub ss)"
    using subscriber_main_started [OF assms(1)] assms(3) by auto
  have "cfg = config (ss_sub ss)" using r started_simps(2) by (simp add: ready_subscriber_def)
  with r(1) have "checkpoint_position s = last_position (cp_data (new_CheckpointManager (sm_stack env)
      (sm_checkpoints env) (checkpoint_path (config (ss_sub ss))) 1))"
    by (simp add: ready_subscriber_def checkpoint_position_def getCheckpointManager_def getLastPosition_def)
  moreover have "sl_replay_auto_mode c" "start = start_position_of c s"
    using r assms(2) by (auto simp: started_def ready_subscriber_def)
  ultimately show ?thesis by (simp add: start_position_of_def Let_def)
qed

section \<open>Complete calls\<close>

lemma process_subscriber:
  "process_reachable ar p0 p \<Longrightarrow> subscriber_step ar (px_sys p) s \<Longrightarrow> unrecorded (sub_at (px_sys p)) = 0 \<Longrightarrow>
   updater (px_cp p) = U_Idle \<Longrightarrow> process_reachable ar p0 (p\<lparr>px_sys := s\<rparr>)"
  by (blast intro: process_next p_subscriber)

lemma process_update:
  "process_reachable ar p0 p \<Longrightarrow> updater (px_cp p) \<noteq> U_Idle \<Longrightarrow> update_step (px_cp p) c \<Longrightarrow>
   process_reachable ar p0 (p\<lparr>px_cp := c\<rparr>)"
  by (blast intro: process_next p_update)

lemma process_flush:
  "flush_step\<^sup>*\<^sup>* (px_cp p) c \<Longrightarrow> process_reachable ar p0 p \<Longrightarrow> process_reachable ar p0 (p\<lparr>px_cp := c\<rparr>)"
proof (induction rule: rtranclp_induct)
  case (step c c')
  then show ?case using process_next [OF step.IH [OF step.prems] p_flush, of c'] by simp
qed simp

lemma subscriber_step_stats: "subscriber_step ar s t \<Longrightarrow> sy_stats t = sy_stats s"
  by (induction rule: subscriber_step.induct) simp_all

text \<open>A call of \<open>handleMessageFastPath\<close> with its call of \<open>update\<close>, while the other threads wait.\<close>

lemma process_call:
  assumes p: "process_reachable ar p0 p" "zc_inv (px_sys p)" "sub_at (px_sys p) = S_Idle"
      "updater (px_cp p) = U_Idle"
    and acc: "fast_path_outcome (world_of (px_sys p)) d = Accepted"
  shows "\<exists>p'. process_reachable ar p0 p' \<and> sub_at (px_sys p') = S_Idle \<and> taken (px_sys p') = taken (px_sys p)
     \<and> worker_at (px_sys p') = worker_at (px_sys p) \<and> sy_worker (px_sys p') = sy_worker (px_sys p)
     \<and> sy_stats (px_sys p') = sy_stats (px_sys p) \<and> px_seen p' = px_seen p
     \<and> world_of (px_sys p') = handleMessageFastPath ar t now d pos (world_of (px_sys p))
     \<and> length (accepted (px_sys p')) = Suc (length (accepted (px_sys p)))
     \<and> updater (px_cp p') = U_Idle \<and> flusher (px_cp p') = flusher (px_cp p) \<and> disk (px_cp p') = disk (px_cp p)
     \<and> manager (px_cp p') = update (manager (px_cp p)) now (number_of d) pos (zc_messages_received (sy_sub (px_sys p')))
     \<and> history (px_cp p') = history (px_cp p) @ [(number_of d, pos, zc_messages_received (sy_sub (px_sys p')))]"
proof -
  let ?buf = "next_free (sy_pool (px_sys p))"
  obtain a0 a b c u where steps: "subscriber_step ar (px_sys p) a0" "subscriber_step ar a0 a"
      "subscriber_step ar a b" "subscriber_step ar b c" "subscriber_step ar c u"
    and pc: "sub_at a0 = S_Copy t d pos ?buf" "unrecorded (sub_at a) = 0" "unrecorded (sub_at b) = 0"
      "sub_at c = S_Record pos ?buf" "seq_of (buf_of c ?buf) = number_of d"
    and u: "sub_at u = S_Idle" "taken u = taken (px_sys p)" "worker_at u = worker_at (px_sys p)"
      "sy_worker u = sy_worker (px_sys p)"
      "world_of u = handleMessageFastPath ar t now d pos (world_of (px_sys p))"
      "accepted u = accepted (px_sys p) @ [buf_of u ?buf]"
    using accepted_steps [OF p(2,3) acc, where ar = ar and t = t and pos = pos and now = now] by blast
  define cnt where "cnt = zc_messages_received (sy_sub u)"
  obtain m1 m2 m3 m4 where m: "update_step (px_cp p) m1" "update_step m1 m2" "update_step m2 m3" "update_step m3 m4"
      "updater m1 \<noteq> U_Idle" "updater m2 \<noteq> U_Idle" "updater m3 \<noteq> U_Idle"
      "history m1 = history (px_cp p) @ [(number_of d, pos, cnt)]"
      "updater m4 = U_Idle" "flusher m4 = flusher (px_cp p)" "disk m4 = disk (px_cp p)"
      "manager m4 = update (manager (px_cp p)) now (number_of d) pos cnt"
      "history m4 = history (px_cp p) @ [(number_of d, pos, cnt)]"
    using update_steps [OF p(4), of "number_of d" pos cnt now] by blast
  have "process_reachable ar p0 (p\<lparr>px_sys := a0\<rparr>)"
    using process_subscriber [OF p(1) steps(1)] p(3,4) by simp
  from process_subscriber [OF this, of a] have "process_reachable ar p0 (p\<lparr>px_sys := a\<rparr>)"
    using steps(2) pc(1) p(4) by simp
  from process_subscriber [OF this, of b] have "process_reachable ar p0 (p\<lparr>px_sys := b\<rparr>)"
    using steps(3) pc(2) p(4) by simp
  from process_subscriber [OF this, of c] have "process_reachable ar p0 (p\<lparr>px_sys := c\<rparr>)"
    using steps(4) pc(3) p(4) by simp
  from process_next [OF this p_record, of u pos ?buf m1]
  have "process_reachable ar p0 (p\<lparr>px_sys := u, px_cp := m1\<rparr>)"
    using steps(5) pc(4,5) p(4) m(1,8) by (simp add: cnt_def)
  from process_update [OF this, of m2] have "process_reachable ar p0 (p\<lparr>px_sys := u, px_cp := m2\<rparr>)"
    using m(2,5) by simp
  from process_update [OF this, of m3] have "process_reachable ar p0 (p\<lparr>px_sys := u, px_cp := m3\<rparr>)"
    using m(3,6) by simp
  from process_update [OF this, of m4] have "process_reachable ar p0 (p\<lparr>px_sys := u, px_cp := m4\<rparr>)"
    using m(4,7) by simp
  moreover have "sy_stats u = sy_stats (px_sys p)"
    using steps by (simp add: subscriber_step_stats)
  ultimately show ?thesis
    using u m by (intro exI [of _ "p\<lparr>px_sys := u, px_cp := m4\<rparr>"]) (simp add: cnt_def)
qed

section \<open>Properties\<close>

text \<open>C6: What a crash of the whole program costs. Let the program run in any interleaving of its threads, be
  killed anywhere, and be started again with \<open>--replay-auto\<close> on the files that are left. If the positions
  grew from message to message, the replay begins at the position of a message \<open>j\<close> of the first run (or
  of the checkpoint that this one began with, \<open>j = 0\<close>), so exactly the messages after \<open>j\<close> are delivered
  again. The messages up to \<open>j\<close> are not, and those of them that the worker had not yet handled
  are lost: never more than the 1024 that the pool can hold.\<close>

theorem crash_recovery:
  assumes run: "subscriber_main env opts = Running ss" "main_memory base junk"
      "process_reachable ar (main_process base junk env ss k) p" "positions_increase p"
    and restart: "subscriber_main env' opts' = Running ss'" "sm_checkpoints env' = disk (px_cp p)"
      "checkpoint_path (config (ss_sub ss')) = checkpoint_path (config (ss_sub ss))"
      "parse_options subscriber_option opts' default_subscriber_cli = Inr c"
      "sub_replay_merge (ss_sub ss') = Some (rid, start)"
    and st: "wf_stack (sm_stack env)" "wf_stack (sm_stack env')"
  shows "\<exists>j \<le> length (recorded (px_sys p)). let P = fst (snd (history (px_cp p) ! j)) in
     start = (if 0 < sint P then P else sl_start_position c)
     \<and> (\<forall>m < length (recorded (px_sys p)). sint P < sint (message_position p m) \<longleftrightarrow> j \<le> m)
     \<and> j - handled (px_sys p) \<le> 1024"
proof -
  note ok = main_process_ok [OF run(1-3)]
  have rec: "recorded_ok (history (px_cp p) ! 0) p" and sys: "system_ok 1024 (initial_window (config (ss_sub ss))) (px_sys p)"
    using ok by (auto simp: process_ok_def recorded_ok_def)
  define d where "d = cp_data (new_CheckpointManager (sm_stack env') (disk (px_cp p))
      (checkpoint_path (config (ss_sub ss))) 1)"
  have "nearly_from (history (px_cp p)) d" unfolding d_def by (rule crash_loads [OF ok st])
  from nearly_from_indices [OF this] obtain j
    where j: "j < length (history (px_cp p))" "last_position d = fst (snd (history (px_cp p) ! j))"
    by (auto simp: cp_triple_def)
  have j': "j \<le> length (recorded (px_sys p))" using j(1) recorded_length [OF rec] by simp
  have "start = (let P = last_position d in if 0 < sint P then P else sl_start_position c)"
    using main_start_position [OF restart(1,5,4)] restart(2,3) by (simp add: d_def)
  moreover have "j - handled (px_sys p) \<le> 1024"
    using unhandled_bound [OF sys] j' by (simp add: recorded_def)
  moreover have "sint (last_position d) < sint (message_position p m) \<longleftrightarrow> j \<le> m"
    if "m < length (recorded (px_sys p))" for m
    using position_split [OF rec run(4) j' that] unfolding j(2) by linarith
  ultimately show ?thesis
    using j' by (intro exI [of _ j]) (simp add: Let_def flip: j(2))
qed

text \<open>The example: the program resumes from 4096, accepts message 5 at 8192, flushes, and is killed before
  the worker has taken it.\<close>

definition example_process :: process where
  "example_process = main_process 64 example_memory (example_main_env example_files)
     (example_running example_files 4096) new_MessageWorker"

lemma example_path: "checkpoint_path (config (ss_sub (example_running fs pos))) = AERON_DIR @ ''/subscriber.checkpoint''"
  by (simp add: example_running_def enableCheckpoint_def checkpoint_path_def subscriber_config_def
      default_subscriber_cli_def loadDefault_def default_AeronSettings_def Let_def)

lemma example_process_start:
  "zc_inv (px_sys example_process)" "sub_at (px_sys example_process) = S_Idle"
  "fast_path_outcome (world_of (px_sys example_process)) (example_message 5) = Accepted"
  "accepted (px_sys example_process) = []" "taken (px_sys example_process) = []"
proof -
  have px: "px_sys example_process = main_system 64 example_memory
      (ss_sub (example_running example_files 4096)) new_MessageWorker"
    by (simp add: example_process_def main_process_def start_process_def)
  show "zc_inv (px_sys example_process)"
    using main_started(2) [OF example_main_files example_memory_ok] by (simp add: px system_ok_def)
  show "sub_at (px_sys example_process) = S_Idle" "accepted (px_sys example_process) = []"
    "taken (px_sys example_process) = []"
    by (simp_all add: px main_system_def zc_system_init_def)
  have "mq_contents (sy_queue (px_sys example_process)) = []" "mq_capacity (sy_queue (px_sys example_process)) = 4095"
    by (simp_all add: px main_system_def zc_system_init_def)
       (simp add: mq_capacity_def mq_Size_def new_MessageQueue_def)
  moreover have "duplicate_buffer (sy_sub (px_sys example_process)) = replicate 1000 (- 1)"
    by (simp add: px main_system_def zc_system_init_def example_running_def enableCheckpoint_def Let_def)
  moreover have "free_count (sy_pool (px_sys example_process)) = 1024"
    by (simp add: px main_system_def zc_system_init_def new_BufferPool_def example_memory_def)
  ultimately show "fast_path_outcome (world_of (px_sys example_process)) (example_message 5) = Accepted"
    by (simp add: fast_path_outcome_def isDuplicate_def list_ex_iff)
qed

lemma example_process_cp:
  "updater (px_cp example_process) = U_Idle" "flusher (px_cp example_process) = F_Idle"
  "history (px_cp example_process) = [cp_triple (cp_data example_checkpoint)]"
  "checkpoint_file (manager (px_cp example_process)) = AERON_DIR @ ''/subscriber.checkpoint''"
proof -
  have "cp_data (new_CheckpointManager example_stack example_files (AERON_DIR @ ''/subscriber.checkpoint'') 1)
      = cp_data example_checkpoint"
    by (simp add: new_CheckpointManager_data example_files_def)
  moreover have "checkpoint_file (new_CheckpointManager example_stack example_files
      (AERON_DIR @ ''/subscriber.checkpoint'') 1) = AERON_DIR @ ''/subscriber.checkpoint''"
    by (simp add: new_CheckpointManager_def load_def split: option.split)
  ultimately show "updater (px_cp example_process) = U_Idle" "flusher (px_cp example_process) = F_Idle"
    "history (px_cp example_process) = [cp_triple (cp_data example_checkpoint)]"
    "checkpoint_file (manager (px_cp example_process)) = AERON_DIR @ ''/subscriber.checkpoint''"
    by (simp_all add: example_process_def main_process_def start_process_def cp_threads_init_def example_path
        example_main_env_def)
qed

lemma example_process_run:
  "\<exists>p. process_reachable example_archive example_process p \<and> sub_at (px_sys p) = S_Idle
     \<and> worker_at (px_sys p) = W_Idle \<and> seen_sequences (sy_worker (px_sys p)) = {}
     \<and> sy_stats (px_sys p) = new_SPSCQueue 16384 default_MessageStats \<and> px_seen p = []
     \<and> length (accepted (px_sys p)) = 1 \<and> taken (px_sys p) = []
     \<and> history (px_cp p) = [cp_triple (cp_data example_checkpoint), (5, 8192, 1)]
     \<and> (\<exists>d. last_position d = 8192
          \<and> disk (px_cp p) (AERON_DIR @ ''/subscriber.checkpoint'') = Some (checkpoint_image d))"
proof -
  let ?f = "AERON_DIR @ ''/subscriber.checkpoint''"
  obtain p where p: "process_reachable example_archive example_process p" "sub_at (px_sys p) = S_Idle"
      "taken (px_sys p) = []" "length (accepted (px_sys p)) = 1" "flusher (px_cp p) = F_Idle"
      "worker_at (px_sys p) = worker_at (px_sys example_process)"
      "sy_worker (px_sys p) = sy_worker (px_sys example_process)"
      "sy_stats (px_sys p) = sy_stats (px_sys example_process)" "px_seen p = px_seen example_process"
      "manager (px_cp p) = update (manager (px_cp example_process)) 10 5 8192 (zc_messages_received (sy_sub (px_sys p)))"
      "history (px_cp p) = [cp_triple (cp_data example_checkpoint), (5, 8192, zc_messages_received (sy_sub (px_sys p)))]"
    using process_call [OF process_start example_process_start(1,2) example_process_cp(1) example_process_start(3),
        of example_archive 9 10 8192] example_process_start(4,5) example_process_cp(2,3) by auto
  have "process_ok 1024 (initial_window (config (ss_sub (example_running example_files 4096))))
    (new_CheckpointManager example_stack example_files ?f 1) example_files p"
    using main_process_ok [OF example_main_files example_memory_ok p(1) [unfolded example_process_def]]
    by (simp add: example_path example_main_env_def)
  then have "zc_messages_received (sy_sub (px_sys p)) = 1"
    using p(2,4) by (simp add: process_ok_def system_ok_def counted_def)
  note p = p [unfolded this]
  have m: "\<not> nothing_to_flush (shared (px_cp p))" "last_position (shared (px_cp p)) = 8192"
    "checkpoint_file (manager (px_cp p)) = ?f"
    using p(10) example_process_cp(4) by (simp_all add: update_def nothing_to_flush_def)
  have w: "worker_at (px_sys p) = W_Idle" "seen_sequences (sy_worker (px_sys p)) = {}"
    "sy_stats (px_sys p) = new_SPSCQueue 16384 default_MessageStats" "px_seen p = []"
    unfolding p(6-9)
    by (simp_all add: example_process_def main_process_def start_process_def main_system_def zc_system_init_def
        new_MessageWorker_def)
  obtain c where c: "flush_step\<^sup>*\<^sup>* (px_cp p) c" "history c = history (px_cp p)"
      "disk c ?f = Some (checkpoint_image (shared (px_cp p)))"
    using flush_run [OF p(5) m(1)] m(3) by auto
  show ?thesis
    using process_flush [OF c(1) p(1)] c(2,3) p m(2) w
    by (intro exI [of _ "p\<lparr>px_cp := c\<rparr>"]) auto
qed

theorem crash_recovery_witness:
  "\<exists>p ss'. process_reachable example_archive example_process p
     \<and> subscriber_main (example_main_env (disk (px_cp p))) example_options = Running ss'
     \<and> sub_replay_merge (ss_sub ss') = Some (0, 8192)
     \<and> length (recorded (px_sys p)) = 1 \<and> handled (px_sys p) = 0
     \<and> (\<exists>j \<le> 1. fst (snd (history (px_cp p) ! j)) = 8192 \<and> j - handled (px_sys p) \<le> 1024)"
proof -
  obtain p d where p: "process_reachable example_archive example_process p" "sub_at (px_sys p) = S_Idle"
      "length (accepted (px_sys p)) = 1" "taken (px_sys p) = []"
      "history (px_cp p) = [cp_triple (cp_data example_checkpoint), (5, 8192, 1)]"
      "last_position d = 8192"
      "disk (px_cp p) (AERON_DIR @ ''/subscriber.checkpoint'') = Some (checkpoint_image d)"
    using example_process_run by blast
  let ?ss = "example_running (disk (px_cp p)) 8192" and ?env = "example_main_env (disk (px_cp p))"
  have main: "subscriber_main ?env example_options = Running ?ss"
    using example_main [of "disk (px_cp p)" d, OF p(7)] p(6) by simp
  have inc: "positions_increase p"
    by (simp add: positions_increase_def p(5) cp_triple_def example_checkpoint_def)
  have replay: "sub_replay_merge (ss_sub ?ss) = Some (0, 8192)"
    by (simp add: example_running_def enableCheckpoint_def Let_def)
  have env: "sm_checkpoints ?env = disk (px_cp p)" "wf_stack (sm_stack (example_main_env fs))" for fs
    by (simp_all add: example_main_env_def)
  have len: "length (recorded (px_sys p)) = 1" "handled (px_sys p) = 0"
    using p(2-4) by (simp_all add: recorded_def handled_def)
  obtain j where j: "j \<le> 1" "let P = fst (snd (history (px_cp p) ! j)) in
      8192 = (if 0 < sint P then P else sl_start_position example_cli) \<and> j - handled (px_sys p) \<le> 1024"
    using crash_recovery [OF example_main_files example_memory_ok p(1) [unfolded example_process_def] inc
        main env(1) _ example_options_parsed replay env(2,2)] len(1)
    by (auto simp: example_path Let_def)
  then have "fst (snd (history (px_cp p) ! j)) = 8192"
    by (auto simp: Let_def example_cli_def split: if_splits)
  with j have "\<exists>j \<le> 1. fst (snd (history (px_cp p) ! j)) = 8192 \<and> j - handled (px_sys p) \<le> 1024"
    by (intro exI [of _ j]) (simp add: Let_def)
  with main replay p(1) len show ?thesis by blast
qed

section \<open>What the monitoring thread sees\<close>

text \<open>The message that the worker will still report.\<close>

fun unreported :: "worker_pc \<Rightarrow> ptr list" where
  "unreported (W_Monitor buf) = [buf]"
| "unreported pc = in_hand pc"




lemma unreported_length: "length (unreported pc) \<le> 1"
  by (cases pc) simp_all











end
