(* ===== verification/Statistics.thy ===== *)
theory Statistics
  imports Subscriber_Shutdown Settings_Print Zero_Copy_System
begin

text \<open>
  What the subscriber program reports: the latencies of a message, the utilization of the pool and the
  queue, the \<open>printStatistics\<close> of \<open>MessageQueue.h\<close>, \<open>BufferPool.h\<close>, \<open>MessageWorker.cpp\<close> and
  \<open>CheckpointManager.cpp\<close>, the final statistics of \<open>AeronSubscriber::shutdown\<close>, the report of the
  monitoring thread and the one at the end of \<open>main\<close>. A print is the list of its lines. The
  quotients are exact; the text of a \<open>double\<close> rounds to the digits that the stream asks for. The
  format of \<open>std::cout\<close> is a state that one print leaves to the next.
\<close>

section \<open>Latencies\<close>

definition networkLatencyUs :: "MessageHeader \<Rightarrow> real" where
  "networkLatencyUs h =
     (if recv_time_ns h = 0 \<or> publish_time_ns h = 0 then 0
      else real_of_int (sint (recv_time_ns h - publish_time_ns h)) / 1000)"

definition eventToReceiveUs :: "MessageHeader \<Rightarrow> real" where
  "eventToReceiveUs h =
     (if recv_time_ns h = 0 \<or> event_time_ns h = 0 then 0
      else real_of_int (sint (recv_time_ns h - event_time_ns h)) / 1000)"

definition queuingLatencyUs :: "MessageBuffer \<Rightarrow> real" where
  "queuingLatencyUs b =
     (if worker_dequeue_time_ns b = 0 \<or> recv_time_ns (header b) = 0 then 0
      else real_of_int (sint (worker_dequeue_time_ns b - recv_time_ns (header b))) / 1000)"

text \<open>The two fields of the \<open>timespec\<close> as one number of nanoseconds.\<close>

definition getCurrentTimeNanos :: "i64 \<Rightarrow> i64 \<Rightarrow> i64" where
  "getCurrentTimeNanos tv_sec tv_nsec = tv_sec * 1000000000 + tv_nsec"

section \<open>Doubles as text\<close>

text \<open>\<open>General\<close> is the state of a new stream, six significant digits; \<open>Fixed n\<close> is \<open>std::fixed\<close> with
  \<open>std::setprecision(n)\<close>.\<close>

datatype float_format = General | Fixed nat

text \<open>To the nearest integer, ties to the even one.\<close>

definition nearest :: "real \<Rightarrow> int" where
  "nearest x =
     (let f = \<lfloor>x\<rfloor>; d = x - of_int f
      in if d < 1 / 2 \<or> d = 1 / 2 \<and> even f then f else f + 1)"

definition padded :: "nat \<Rightarrow> nat \<Rightarrow> string" where
  "padded n v = replicate (n - length (decimal v)) CHR ''0'' @ decimal v"

text \<open>\<open>v\<close> units of \<open>10 ^ - n\<close>.\<close>

definition point_text :: "nat \<Rightarrow> nat \<Rightarrow> string" where
  "point_text n v = decimal (v div 10 ^ n) @ (if n = 0 then [] else CHR ''.'' # padded n (v mod 10 ^ n))"

definition strip_zeros :: "string \<Rightarrow> string" where
  "strip_zeros s =
     (if CHR ''.'' \<in> set s
      then rev (let t = dropWhile (\<lambda>c. c = CHR ''0'') (rev s) in if hd t = CHR ''.'' then tl t else t)
      else s)"

text \<open>The decimal exponent of a positive number, with the number rounded to six digits. A \<open>double\<close> is
  within \<open>10 ^ 309\<close> and \<open>10 ^ - 324\<close>.\<close>

definition scaled :: "real \<Rightarrow> int \<Rightarrow> real" where
  "scaled x e = (if 0 \<le> e then x / 10 ^ nat e else x * 10 ^ nat (- e))"

definition six_digits :: "real \<Rightarrow> nat \<times> int" where
  "six_digits x =
     (let e = (case List.find (\<lambda>e. 1 \<le> scaled x e) (rev [-324..308]) of Some e \<Rightarrow> e | None \<Rightarrow> -324);
          m = nearest (scaled x (e - 5))
      in if m = 10 ^ 6 then (10 ^ 5, e + 1) else (nat m, e))"

definition general_text :: "real \<Rightarrow> string" where
  "general_text x =
     (if x = 0 then ''0''
      else let (m, e) = six_digits \<bar>x\<bar>; sign = (if x < 0 then ''-'' else '''')
        in if - 4 \<le> e \<and> e < 6 then sign @ strip_zeros (point_text (nat (5 - e)) m)
           else sign @ strip_zeros (point_text 5 m) @ ''e'' @ (if e < 0 then ''-'' else ''+'')
                @ padded 2 (nat \<bar>e\<bar>))"

definition fixed_text :: "nat \<Rightarrow> real \<Rightarrow> string" where
  "fixed_text n x = (if x < 0 then ''-'' else '''') @ point_text n (nat (nearest (\<bar>x\<bar> * 10 ^ n)))"

fun double_text :: "float_format \<Rightarrow> real \<Rightarrow> string" where
  "double_text General x = general_text x"
| "double_text (Fixed n) x = fixed_text n x"

section \<open>Lines\<close>

definition count_text :: "'a::len word \<Rightarrow> string" where
  "count_text w = decimal (unat w)"

definition signed_text :: "'a::len word \<Rightarrow> string" where
  "signed_text w = decimal_int (sint w)"

text \<open>The symbols that the program prints, as their UTF-8 bytes.\<close>

definition warning_sign :: string where
  "warning_sign = [CHR 0xE2, CHR 0x9A, CHR 0xA0, CHR 0xEF, CHR 0xB8, CHR 0x8F]"

definition info_sign :: string where
  "info_sign = [CHR 0xE2, CHR 0x84, CHR 0xB9, CHR 0xEF, CHR 0xB8, CHR 0x8F]"

definition check_mark :: string where
  "check_mark = [CHR 0xE2, CHR 0x9C, CHR 0x93]"

definition chart_sign :: string where
  "chart_sign = [CHR 0xF0, CHR 0x9F, CHR 0x93, CHR 0x8A]"

definition us_text :: string where
  "us_text = [CHR 0xCE, CHR 0xBC, CHR ''s'']"

definition warning_line :: "u64 \<Rightarrow> string \<Rightarrow> string list" where
  "warning_line n what = (if 0 < n then [warning_sign @ ''  WARNING: '' @ count_text n @ what] else [])"

section \<open>The message queue\<close>

definition mq_utilization :: "MessageQueue \<Rightarrow> real" where
  "mq_utilization q = real (unat (mq_size q)) / real (mq_capacity q)"

record QueueStatistics =
  qs_total_enqueued :: u64
  qs_total_dequeued :: u64
  qs_enqueue_failures :: u64
  qs_current_size :: size_t
  qs_capacity :: nat
  qs_utilization :: real

definition mq_getStatistics :: "MessageQueue \<Rightarrow> QueueStatistics" where
  "mq_getStatistics q =
     \<lparr>qs_total_enqueued = total_enqueued q,
      qs_total_dequeued = total_dequeued q,
      qs_enqueue_failures = enqueue_failures q,
      qs_current_size = mq_size q,
      qs_capacity = mq_capacity q,
      qs_utilization = mq_utilization q\<rparr>"

definition mq_printStatistics :: "float_format \<Rightarrow> MessageQueue \<Rightarrow> string list" where
  "mq_printStatistics f q =
     (let st = mq_getStatistics q
      in ['''', ''=== Message Queue Statistics ==='',
          ''Capacity:      '' @ decimal (qs_capacity st) @ '' messages'',
          ''Current size:  '' @ count_text (qs_current_size st),
          ''Utilization:   '' @ double_text f (qs_utilization st * 100) @ ''%'',
          ''Enqueued:      '' @ count_text (qs_total_enqueued st),
          ''Dequeued:      '' @ count_text (qs_total_dequeued st),
          ''Failures:      '' @ count_text (qs_enqueue_failures st)]
         @ warning_line (qs_enqueue_failures st) '' enqueue failures (queue full)''
         @ [''================================'', ''''])"

text \<open>The destructor: what it writes to \<open>std::cerr\<close>.\<close>

definition delete_MessageQueue :: "MessageQueue \<Rightarrow> string list" where
  "delete_MessageQueue q =
     (let remaining = mq_size q
      in if 0 < remaining
         then [''WARNING: MessageQueue destroyed with '' @ count_text remaining
               @ '' messages still in queue'']
         else [])"

section \<open>The buffer pool\<close>

definition pool_utilization :: "BufferPool \<Rightarrow> real" where
  "pool_utilization p = real (PoolSize p - available p) / real (PoolSize p)"

definition pool_printStatistics :: "float_format \<Rightarrow> BufferPool \<Rightarrow> string list" where
  "pool_printStatistics f p =
     (let st = pool_getStatistics p
      in ['''', ''=== Buffer Pool Statistics ==='',
          ''Capacity:      '' @ decimal (PoolSize p) @ '' buffers'',
          ''Available:     '' @ decimal (ps_current_available st),
          ''In use:        '' @ decimal (ps_current_in_use st),
          ''Utilization:   '' @ double_text f (pool_utilization p * 100) @ ''%'',
          ''Allocations:   '' @ count_text (ps_total_allocations st),
          ''Deallocations: '' @ count_text (ps_total_deallocations st),
          ''Failures:      '' @ count_text (ps_allocation_failures st)]
         @ warning_line (ps_allocation_failures st) '' allocation failures (pool exhausted)''
         @ [''=============================='', ''''])"

section \<open>The worker\<close>

text \<open>The format that the stream has afterwards is part of the result.\<close>

definition wk_printStatistics :: "float_format \<Rightarrow> MessageWorker \<Rightarrow> string list \<times> float_format" where
  "wk_printStatistics f k =
     (let st = wk_getStatistics k; averages = 0 < ws_messages_processed st
      in (['''', ''=== Worker Thread Statistics ==='',
           ''Messages processed:  '' @ count_text (ws_messages_processed st),
           ''Messages invalid:    '' @ count_text (ws_messages_invalid st),
           ''Messages duplicate:  '' @ count_text (ws_messages_duplicate st),
           ''Queue empty count:   '' @ count_text (ws_queue_empty_count st)]
          @ (if averages
             then [''Avg processing time: '' @ double_text (Fixed 2) (ws_avg_processing_time_us st)
                     @ '' '' @ us_text,
                   ''Avg queue depth:     '' @ double_text (Fixed 2) (ws_avg_queue_depth st)]
             else [])
          @ warning_line (ws_messages_invalid st) '' invalid messages''
          @ (if 0 < ws_messages_duplicate st
             then [info_sign @ ''  INFO: '' @ count_text (ws_messages_duplicate st)
                     @ '' duplicate messages filtered'']
             else [])
          @ [''================================='', ''''],
          if averages then Fixed 2 else f))"

section \<open>The checkpoint manager and the subscriber\<close>

definition cp_printStatistics :: "CheckpointManager \<Rightarrow> string list" where
  "cp_printStatistics cm =
     ['''', rule_line, ''Checkpoint Statistics'', rule_line,
      ''  Total flushes: '' @ count_text (flush_count cm),
      ''  Flush failures: '' @ count_text (flush_failures cm),
      ''  Last sequence: '' @ signed_text (getLastSequence cm),
      ''  Last position: '' @ signed_text (getLastPosition cm),
      ''  Message count: '' @ signed_text (getMessageCount cm),
      rule_line]"

definition printGapStats :: "AeronSubscriber \<Rightarrow> string" where
  "printGapStats s =
     ''Messages: '' @ signed_text (sub_message_count s) @ '', Gaps: '' @ signed_text (gap_count s)"

definition enabled_text :: "bool \<Rightarrow> string" where
  "enabled_text b = (if b then ''ENABLED'' else ''DISABLED'')"

text \<open>What \<open>shutdown\<close> prints before it resets the connections.\<close>

definition shutdown_statistics :: "AeronSubscriber \<Rightarrow> string list" where
  "shutdown_statistics s =
     [''Shutting down Subscriber...'', '''', ''=== FINAL STATISTICS ==='',
      ''Messages received:      '' @ count_text (zc_messages_received s),
      ''Gaps detected:          '' @ count_text (gaps_detected s),
      ''Gaps recovered:         '' @ count_text (gaps_recovered s),
      ''Duplicates detected:    '' @ count_text (duplicates_detected s),
      ''Buffer allocation fails: '' @ count_text (zc_buffer_allocation_failures s),
      ''Queue full failures:    '' @ count_text (zc_queue_full_failures s)]
     @ (if 0 < sint (gap_count s) then ['''', ''Legacy gap count: '' @ signed_text (gap_count s)] else [])
     @ ['''', ''Gap Recovery: '' @ enabled_text (gap_recovery_enabled (config s)),
        ''Duplicate Check: '' @ enabled_text (duplicate_check_enabled (config s))]"

section \<open>The monitoring thread\<close>

text \<open>What the thread prints with every hundredth item: the latest item, the averages so far, and the
  resources in use. It sets the format of the stream.\<close>

definition monitor_due :: "monitor \<Rightarrow> bool" where
  "monitor_due m \<longleftrightarrow> sint (mn_counter m) mod 100 = 0"

definition stats_rule :: string where
  "stats_rule = replicate 42 CHR ''=''"

definition monitor_report ::
  "BufferPool \<Rightarrow> MessageQueue \<Rightarrow> MessageStats SPSCQueue \<Rightarrow> i64 \<Rightarrow> MessageStats \<Rightarrow> monitor \<Rightarrow> string list"
  where
  "monitor_report p q sq skipped st m =
     (let avg = monitor_average m
      in ['''', stats_rule, chart_sign @ '' Zero-Copy Stats (last 100 messages)'', stats_rule,
          ''Total messages:   '' @ signed_text (mn_counter m),
          ''Latest message:   #'' @ signed_text (message_number st)]
         @ (if avg > 0
            then [''Avg latency:      '' @ double_text (Fixed 2) avg @ '' '' @ us_text,
                  ''Min latency:      '' @ signed_text (mn_min_latency_us m) @ '' '' @ us_text,
                  ''Max latency:      '' @ signed_text (mn_max_latency_us m) @ '' '' @ us_text]
            else [])
         @ ['''', ''Resource Usage:'',
            ''Buffer pool:      '' @ decimal (available p) @ '' / '' @ decimal (pool_capacity p)
              @ '' (util: '' @ double_text (Fixed 1) (pool_utilization p * 100) @ ''%)'',
            ''Message queue:    '' @ count_text (mq_size q) @ '' / '' @ decimal (mq_capacity q)
              @ '' (util: '' @ double_text (Fixed 1) (mq_utilization q * 100) @ ''%)'',
            ''Stats queue:      '' @ count_text (sq_size sq) @ '' / '' @ decimal (sq_capacity sq)]
         @ (if 0 < sint skipped
            then [warning_sign @ ''  Skipped:        '' @ signed_text skipped @ '' messages'']
            else [])
         @ [stats_rule, ''''])"

text \<open>The thread over the items that it takes, each with the objects as they are when it is printed;
  the count of skipped items, which nothing ever increments, is 0.\<close>

fun monitor_loop ::
  "(MessageStats \<times> BufferPool \<times> MessageQueue \<times> MessageStats SPSCQueue) list \<Rightarrow> float_format \<times> monitor
   \<Rightarrow> string list \<times> float_format \<times> monitor" where
  "monitor_loop [] (f, m) =
     ([check_mark @ '' Monitoring thread stopped (total: '' @ signed_text (mn_counter m) @ '' messages)''], f, m)"
| "monitor_loop ((st, p, q, sq) # items) (f, m) =
     (let m1 = monitor_item st m;
          (out, f1) = (if monitor_due m1 then (monitor_report p q sq 0 st m1, Fixed 1) else ([], f));
          (rest, f2, m2) = monitor_loop items (f1, m1)
      in (out @ rest, f2, m2))"

section \<open>The end of \<open>main\<close>\<close>

text \<open>Section 13 of \<open>main\<close>, after the shutdown.\<close>

definition final_statistics :: "float_format \<Rightarrow> program \<Rightarrow> string list \<times> float_format" where
  "final_statistics f p =
     (let zc = getZeroCopyStats (ss_sub (pr_session p));
          w = pr_worker p;
          (worker_lines, f1) = wk_printStatistics f (worker w)
      in (['''', stats_rule, ''  Final Statistics'', stats_rule, '''', ''Zero-Copy Subscriber:'',
           ''  Messages received:     '' @ count_text (zs_messages_received zc),
           ''  Buffer alloc failures: '' @ count_text (zs_buffer_allocation_failures zc),
           ''  Queue full failures:   '' @ count_text (zs_queue_full_failures zc),
           '''', ''Worker Thread:'']
          @ worker_lines
          @ pool_printStatistics f1 (wk_pool w)
          @ mq_printStatistics f1 (wk_queue w)
          @ ['''', stats_rule, ''  '' @ check_mark @ '' Zero-Copy Subscriber Shutdown Complete'', stats_rule],
          f1))"

section \<open>The text of a double\<close>

lemma nearest_error: "\<bar>of_int (nearest x) - x\<bar> \<le> 1 / 2"
  by (auto simp: nearest_def Let_def)

lemma nearest_int [simp]: "nearest (of_int z) = z"
  by (simp add: nearest_def)

lemma nearest_nonneg: "0 \<le> x \<Longrightarrow> 0 \<le> nearest x"
  by (auto simp: nearest_def Let_def)

text \<open>What \<open>std::fixed\<close> prints is within half a unit of the last digit.\<close>

lemma fixed_text_error:
  assumes "0 \<le> x"
  shows "fixed_text n x = point_text n (nat (nearest (x * 10 ^ n)))"
    and "\<bar>real (nat (nearest (x * 10 ^ n))) / 10 ^ n - x\<bar> \<le> 1 / (2 * 10 ^ n)"
proof -
  show "fixed_text n x = point_text n (nat (nearest (x * 10 ^ n)))"
    using assms by (simp add: fixed_text_def)
  have "\<bar>real (nat (nearest (x * 10 ^ n))) - x * 10 ^ n\<bar> \<le> 1 / 2"
    using assms nearest_error [of "x * 10 ^ n"] nearest_nonneg [of "x * 10 ^ n"] by simp
  then show "\<bar>real (nat (nearest (x * 10 ^ n))) / 10 ^ n - x\<bar> \<le> 1 / (2 * 10 ^ n)"
    by (simp add: abs_le_iff field_simps)
qed

section \<open>Utilization\<close>

lemma mq_empty_iff: "mq_inv q \<Longrightarrow> mq_empty q \<longleftrightarrow> mq_contents q = []"
  using mq_dequeue_cases [of q] by (auto simp: mq_empty_def mq_dequeue_def Let_def split: if_splits)

lemma mq_utilization_bounds:
  assumes "mq_inv q"
  shows "0 \<le> mq_utilization q" "mq_utilization q \<le> 1"
    "1 < mq_Size q \<Longrightarrow> mq_utilization q = 1 \<longleftrightarrow> mq_full q"
    "1 < mq_Size q \<Longrightarrow> mq_utilization q = 0 \<longleftrightarrow> mq_empty q"
proof -
  have len: "unat (mq_size q) = length (mq_contents q)" "length (mq_contents q) \<le> mq_capacity q"
    using mq_size_contents [OF assms] mq_length_contents [OF assms] by simp_all
  show "0 \<le> mq_utilization q" "mq_utilization q \<le> 1"
    using len by (auto simp: mq_utilization_def divide_le_eq_1)
  assume "1 < mq_Size q"
  then have "0 < mq_capacity q" by (simp add: mq_capacity_def)
  then show "mq_utilization q = 1 \<longleftrightarrow> mq_full q" "mq_utilization q = 0 \<longleftrightarrow> mq_empty q"
    using len mq_full_iff [OF assms] mq_empty_iff [OF assms] by (auto simp: mq_utilization_def)
qed

lemma pool_utilization_bounds:
  assumes "pool_inv p"
  shows "0 \<le> pool_utilization p" "pool_utilization p \<le> 1"
    "pool_utilization p = 1 \<longleftrightarrow> owned p = pool_ptrs p"
proof -
  have n: "0 < PoolSize p" "free_count p \<le> PoolSize p"
    using assms by (simp_all add: pool_inv_def pool_size_ok_def)
  have fin: "finite (pool_ptrs p)" "card (pool_ptrs p) = PoolSize p"
    by (simp_all add: pool_ptrs_def card_image inj_on_def)
  have sub: "owned p \<subseteq> pool_ptrs p" by (auto simp: owned_def)
  show "0 \<le> pool_utilization p" "pool_utilization p \<le> 1"
    by (auto simp: pool_utilization_def divide_le_eq_1)
  have "owned p = pool_ptrs p \<longleftrightarrow> card (owned p) = PoolSize p"
    using fin sub card_subset_eq by metis
  then show "pool_utilization p = 1 \<longleftrightarrow> owned p = pool_ptrs p"
    using n by (auto simp: pool_utilization_def available_def card_owned [OF assms])
qed


section \<open>What the counters count\<close>





lemma pool_counted_store [simp]: "pool_counted (store p a b) = pool_counted p"
  by (simp add: pool_counted_def store_def PoolSize_def)








section \<open>Properties\<close>



end
