(* ===== verification/Shutdown_Race.thy ===== *)
theory Shutdown_Race
  imports Subscriber_Session
begin

text \<open>
  The end of the receive loop: the subscriber's thread in \<open>AeronSubscriber::run\<close> and the main thread in
  \<open>AeronSubscriber::shutdown\<close> (\<open>subscriber/src/AeronSubscriber.cpp\<close>), which \<open>main\<close> calls before it joins the
  other thread. The two interleave at every access to \<open>running_\<close>, \<open>replay_merge_\<close> and \<open>subscription_\<close>. A
  call through a pointer that has been reset, and a call of the merge that is under way when \<open>reset\<close>
  destroys it (\<open>replay_merge_\<close> is its only owner), is \<open>R_Fault\<close>; a poll of the shared \<open>subscription_\<close> that is
  under way goes on.
\<close>

section \<open>Program points and steps\<close>

text \<open>Inside \<open>poll\<close> the thread handles fragments; every other point is before the access it names.\<close>

datatype run_pc =
    R_Loop
  | R_Merge_check
  | R_Merge_call
  | R_Merge_poll
  | R_Is_merged
  | R_Merged_reset
  | R_Has_failed
  | R_Failed_reset
  | R_Subscription_check
  | R_Subscription_call
  | R_Subscription_poll
  | R_Returned
  | R_Fault

datatype stop_pc = T_Signal | T_Merge | T_Subscription | T_Archive | T_Done

record race =
  rc_world :: zc_world
  run_at :: run_pc
  stop_at :: stop_pc

abbreviation merge_of :: "race \<Rightarrow> (i64 \<times> i64) option" where
  "merge_of s \<equiv> sub_replay_merge (sub (rc_world s))"

abbreviation subscription_of :: "race \<Rightarrow> i64 option" where
  "subscription_of s \<equiv> sub_subscription (sub (rc_world s))"

abbreviation running_of :: "race \<Rightarrow> bool" where
  "running_of s \<equiv> sub_running (sub (rc_world s))"

definition map_sub :: "(AeronSubscriber \<Rightarrow> AeronSubscriber) \<Rightarrow> race \<Rightarrow> race" where
  "map_sub f s = s\<lparr>rc_world := (rc_world s)\<lparr>sub := f (sub (rc_world s))\<rparr>\<rparr>"

text \<open>The loop of \<open>run\<close>; what the merge answers is open.\<close>

inductive control_step :: "race \<Rightarrow> race \<Rightarrow> bool" where
  r_stop: "run_at s = R_Loop \<Longrightarrow> \<not> running_of s \<Longrightarrow> control_step s (s\<lparr>run_at := R_Returned\<rparr>)"
| r_go: "run_at s = R_Loop \<Longrightarrow> running_of s \<Longrightarrow> control_step s (s\<lparr>run_at := R_Merge_check\<rparr>)"
| r_merging: "run_at s = R_Merge_check \<Longrightarrow> merge_of s \<noteq> None \<Longrightarrow>
     control_step s (s\<lparr>run_at := R_Merge_call\<rparr>)"
| r_not_merging: "run_at s = R_Merge_check \<Longrightarrow> merge_of s = None \<Longrightarrow>
     control_step s (s\<lparr>run_at := R_Subscription_check\<rparr>)"
| r_call: "run_at s = R_Merge_call \<Longrightarrow> merge_of s \<noteq> None \<Longrightarrow>
     control_step s (s\<lparr>run_at := R_Merge_poll\<rparr>)"
| r_polled: "run_at s = R_Merge_poll \<Longrightarrow> merge_of s \<noteq> None \<Longrightarrow>
     control_step s (s\<lparr>run_at := R_Is_merged\<rparr>)"
| r_merged: "run_at s = R_Is_merged \<Longrightarrow> merge_of s \<noteq> None \<Longrightarrow>
     control_step s (s\<lparr>run_at := R_Merged_reset\<rparr>)"
| r_not_merged: "run_at s = R_Is_merged \<Longrightarrow> merge_of s \<noteq> None \<Longrightarrow>
     control_step s (s\<lparr>run_at := R_Has_failed\<rparr>)"
| r_merged_reset: "run_at s = R_Merged_reset \<Longrightarrow>
     control_step s ((map_sub (\<lambda>u. u\<lparr>sub_replay_merge := None\<rparr>) s)\<lparr>run_at := R_Loop\<rparr>)"
| r_failed: "run_at s = R_Has_failed \<Longrightarrow> merge_of s \<noteq> None \<Longrightarrow>
     control_step s (s\<lparr>run_at := R_Failed_reset\<rparr>)"
| r_not_failed: "run_at s = R_Has_failed \<Longrightarrow> merge_of s \<noteq> None \<Longrightarrow>
     control_step s (s\<lparr>run_at := R_Loop\<rparr>)"
| r_failed_reset: "run_at s = R_Failed_reset \<Longrightarrow>
     control_step s ((map_sub (\<lambda>u. u\<lparr>sub_replay_merge := None\<rparr>) s)\<lparr>run_at := R_Returned\<rparr>)"
| r_merge_gone: "run_at s \<in> {R_Merge_call, R_Merge_poll, R_Is_merged, R_Has_failed} \<Longrightarrow>
     merge_of s = None \<Longrightarrow> control_step s (s\<lparr>run_at := R_Fault\<rparr>)"
| r_subscribed: "run_at s = R_Subscription_check \<Longrightarrow> subscription_of s \<noteq> None \<Longrightarrow>
     control_step s (s\<lparr>run_at := R_Subscription_call\<rparr>)"
| r_idle: "run_at s = R_Subscription_check \<Longrightarrow> subscription_of s = None \<Longrightarrow>
     control_step s (s\<lparr>run_at := R_Loop\<rparr>)"
| r_subscription_call: "run_at s = R_Subscription_call \<Longrightarrow> subscription_of s \<noteq> None \<Longrightarrow>
     control_step s (s\<lparr>run_at := R_Subscription_poll\<rparr>)"
| r_subscription_gone: "run_at s = R_Subscription_call \<Longrightarrow> subscription_of s = None \<Longrightarrow>
     control_step s (s\<lparr>run_at := R_Fault\<rparr>)"
| r_subscription_polled: "run_at s = R_Subscription_poll \<Longrightarrow>
     control_step s (s\<lparr>run_at := R_Loop\<rparr>)"

text \<open>A fragment that a poll delivers.\<close>

inductive handle_step :: "archive_client \<Rightarrow> race \<Rightarrow> race \<Rightarrow> bool" for ar where
  h_merge: "run_at s = R_Merge_poll \<Longrightarrow> merge_of s \<noteq> None \<Longrightarrow>
     handle_step ar s (s\<lparr>rc_world := fragmentHandler ar f (rc_world s)\<rparr>)"
| h_subscription: "run_at s = R_Subscription_poll \<Longrightarrow>
     handle_step ar s (s\<lparr>rc_world := fragmentHandler ar f (rc_world s)\<rparr>)"

text \<open>\<open>shutdown\<close>: the store to \<open>running_\<close>, then the resets.\<close>

inductive stop_step :: "race \<Rightarrow> race \<Rightarrow> bool" where
  t_signal: "stop_at s = T_Signal \<Longrightarrow>
     stop_step s ((map_sub (\<lambda>u. u\<lparr>sub_running := False\<rparr>) s)\<lparr>stop_at := T_Merge\<rparr>)"
| t_merge: "stop_at s = T_Merge \<Longrightarrow>
     stop_step s ((map_sub (\<lambda>u. u\<lparr>sub_replay_merge := None\<rparr>) s)\<lparr>stop_at := T_Subscription\<rparr>)"
| t_subscription: "stop_at s = T_Subscription \<Longrightarrow>
     stop_step s ((map_sub (\<lambda>u. u\<lparr>sub_subscription := None\<rparr>) s)\<lparr>stop_at := T_Archive\<rparr>)"
| t_archive: "stop_at s = T_Archive \<Longrightarrow>
     stop_step s ((map_sub (\<lambda>u. u\<lparr>sub_archive := False\<rparr>) s)\<lparr>stop_at := T_Done\<rparr>)"

text \<open>A run of the two threads, with the number of steps that the loop has made.\<close>

inductive race_run :: "archive_client \<Rightarrow> race \<Rightarrow> nat \<Rightarrow> race \<Rightarrow> bool" for ar s0 where
  race_start: "race_run ar s0 0 s0"
| race_control: "race_run ar s0 n s \<Longrightarrow> control_step s t \<Longrightarrow> race_run ar s0 (Suc n) t"
| race_handle: "race_run ar s0 n s \<Longrightarrow> handle_step ar s t \<Longrightarrow> race_run ar s0 n t"
| race_stop: "race_run ar s0 n s \<Longrightarrow> stop_step s t \<Longrightarrow> race_run ar s0 n t"

definition start_race :: "zc_world \<Rightarrow> race" where
  "start_race w = \<lparr>rc_world = w, run_at = R_Loop, stop_at = T_Signal\<rparr>"

section \<open>Without interference\<close>

lemma map_sub_simps [simp]:
  "rc_world (map_sub f s) = (rc_world s)\<lparr>sub := f (sub (rc_world s))\<rparr>"
  "run_at (map_sub f s) = run_at s" "stop_at (map_sub f s) = stop_at s"
  by (simp_all add: map_sub_def)

lemma race_run_trans: "race_run ar t n u \<Longrightarrow> race_run ar s m t \<Longrightarrow> race_run ar s (m + n) u"
  by (induction rule: race_run.induct) (auto intro: race_run.intros)

lemma handle_fragments:
  assumes "race_run ar s0 n s" and "zero_copy_ready (sub (rc_world s))"
    and "run_at s = R_Merge_poll \<and> merge_of s \<noteq> None \<or> run_at s = R_Subscription_poll"
  shows "race_run ar s0 n (s\<lparr>rc_world := fold (fragmentHandler ar) fs (rc_world s)\<rparr>)"
  using assms
proof (induction fs arbitrary: s)
  case (Cons f fs)
  let ?t = "s\<lparr>rc_world := fragmentHandler ar f (rc_world s)\<rparr>"
  have same: "connection (sub (rc_world ?t)) = connection (sub (rc_world s))"
    using connection_fragment [OF Cons.prems(2)] by simp
  have "handle_step ar s ?t"
    using Cons.prems(3) h_merge [of s ar f] h_subscription [of s ar f] by blast
  with Cons.prems(1) have "race_run ar s0 n ?t" by (rule race_handle)
  from Cons.IH [OF this] show ?case
    using Cons.prems(2,3) same ready_connection [OF same] connection_fields [OF same] by simp
qed simp

lemma race_update: "s\<lparr>rc_world := w, run_at := r\<rparr> = s\<lparr>run_at := r, rc_world := w\<rparr>"
  by simp

lemma race_same: "run_at s = r \<Longrightarrow> s\<lparr>run_at := r\<rparr> = s" for s :: race
  by simp

text \<open>A pass through the loop with one poll.\<close>

lemma race_iteration:
  assumes s: "run_at s = R_Loop" "running_of s" "zero_copy_ready (sub (rc_world s))"
  shows "\<exists>n. race_run ar s n (s\<lparr>rc_world := snd (run_iteration ar a (rc_world s)),
      run_at := (if fst (run_iteration ar a (rc_world s)) then R_Returned else R_Loop)\<rparr>)"
proof -
  let ?w = "fold (fragmentHandler ar) (pa_fragments a) (rc_world s)"
  have same: "connection (sub ?w) = connection (sub (rc_world s))" by (rule connection_fragments [OF s(3)])
  note same = connection_fields [OF same]
  have check: "race_run ar s 1 (s\<lparr>run_at := R_Merge_check\<rparr>)"
    using race_control [OF race_start r_go [OF s(1,2)]] by simp
  show ?thesis
  proof (cases "merge_of s = None")
    case False
    have "race_run ar s 2 (s\<lparr>run_at := R_Merge_call\<rparr>)"
      using race_control [OF check r_merging] False by (simp add: numeral_2_eq_2)
    from race_control [OF this r_call] have "race_run ar s 3 (s\<lparr>run_at := R_Merge_poll\<rparr>)"
      using False by (simp add: numeral_3_eq_3)
    from handle_fragments [OF this, of "pa_fragments a"]
    have "race_run ar s 3 (s\<lparr>rc_world := ?w, run_at := R_Merge_poll\<rparr>)" using s(3) False by (simp add: race_update)
    from race_control [OF this r_polled] have m: "race_run ar s 4 (s\<lparr>rc_world := ?w, run_at := R_Is_merged\<rparr>)"
      using False same(3) by simp
    show ?thesis
    proof (cases "pa_merged a")
      case True
      from race_control [OF m r_merged]
      have "race_run ar s 5 (s\<lparr>rc_world := ?w, run_at := R_Merged_reset\<rparr>)" using False same(3) by simp
      from race_control [OF this r_merged_reset] show ?thesis
        using False True by (intro exI [of _ 6]) (simp add: run_iteration_def Let_def map_sub_def)
    next
      case not_merged: False
      from race_control [OF m r_not_merged]
      have f: "race_run ar s 5 (s\<lparr>rc_world := ?w, run_at := R_Has_failed\<rparr>)" using False same(3) by simp
      show ?thesis
      proof (cases "pa_failed a")
        case True
        from race_control [OF f r_failed]
        have "race_run ar s 6 (s\<lparr>rc_world := ?w, run_at := R_Failed_reset\<rparr>)" using False same(3) by simp
        from race_control [OF this r_failed_reset] show ?thesis
          using False not_merged True
          by (intro exI [of _ 7]) (simp add: run_iteration_def Let_def map_sub_def)
      next
        case not_failed: False
        from race_control [OF f r_not_failed] show ?thesis
          using False not_merged not_failed same(3)
          by (intro exI [of _ 6]) (simp add: run_iteration_def Let_def)
      qed
    qed
  next
    case True
    have c: "race_run ar s 2 (s\<lparr>run_at := R_Subscription_check\<rparr>)"
      using race_control [OF check r_not_merging] True by (simp add: numeral_2_eq_2)
    show ?thesis
    proof (cases "subscription_of s = None")
      case none: True
      from race_control [OF c r_idle] show ?thesis
        using True none by (intro exI [of _ 3]) (simp add: run_iteration_def numeral_3_eq_3)
    next
      case False
      from race_control [OF c r_subscribed] have "race_run ar s 3 (s\<lparr>run_at := R_Subscription_call\<rparr>)"
        using False by (simp add: numeral_3_eq_3)
      from race_control [OF this r_subscription_call]
      have "race_run ar s 4 (s\<lparr>run_at := R_Subscription_poll\<rparr>)" using False by simp
      from handle_fragments [OF this, of "pa_fragments a"]
      have "race_run ar s 4 (s\<lparr>rc_world := ?w, run_at := R_Subscription_poll\<rparr>)" using s(3) by (simp add: race_update)
      from race_control [OF this r_subscription_polled] show ?thesis
        using True False by (intro exI [of _ 5]) (simp add: run_iteration_def)
    qed
  qed
qed

lemma ready_run_iteration:
  "zero_copy_ready (sub w) \<Longrightarrow> zero_copy_ready (sub (snd (run_iteration ar a w)))"
  using connection_fragments [of w ar "pa_fragments a"] ready_connection
  by (auto simp: run_iteration_def Let_def zero_copy_ready_def connection_def)

lemma race_run_loop:
  assumes "run_at s = R_Loop" and "zero_copy_ready (sub (rc_world s))"
  shows "\<exists>n. race_run ar s n (s\<lparr>rc_world := snd (run_loop ar as (rc_world s)),
      run_at := (if fst (run_loop ar as (rc_world s)) then R_Returned else R_Loop)\<rparr>)"
  using assms
proof (induction as arbitrary: s)
  case Nil
  then show ?case
    using race_control [OF race_start r_stop, of s ar] race_start [of ar s]
    by (cases "running_of s") (auto simp: race_same)
next
  case (Cons a as)
  show ?case
  proof (cases "running_of s")
    case False
    then show ?thesis using race_control [OF race_start r_stop, of s ar] Cons.prems by auto
  next
    case True
    let ?r = "run_iteration ar a (rc_world s)"
    obtain n where n: "race_run ar s n (s\<lparr>rc_world := snd ?r, run_at := (if fst ?r then R_Returned else R_Loop)\<rparr>)"
      using race_iteration [OF Cons.prems(1) True Cons.prems(2), of ar a] by blast
    show ?thesis
    proof (cases "fst ?r")
      case broke: True
      with n True show ?thesis by (intro exI [of _ n]) (simp add: case_prod_beta)
    next
      case False
      let ?t = "s\<lparr>rc_world := snd ?r, run_at := R_Loop\<rparr>"
      have "race_run ar s n ?t" using n False by simp
      moreover obtain m where "race_run ar ?t m (?t\<lparr>rc_world := snd (run_loop ar as (rc_world ?t)),
          run_at := (if fst (run_loop ar as (rc_world ?t)) then R_Returned else R_Loop)\<rparr>)"
        using Cons.IH [of ?t] ready_run_iteration [OF Cons.prems(2)] by auto
      ultimately show ?thesis
        using race_run_trans True False by (fastforce simp: case_prod_beta)
    qed
  qed
qed

section \<open>After the signal\<close>

text \<open>How many more steps the loop can make once \<open>running_\<close> is false.\<close>

fun steps_left :: "run_pc \<Rightarrow> nat" where
  "steps_left R_Returned = 0"
| "steps_left R_Fault = 0"
| "steps_left R_Loop = 1"
| "steps_left R_Failed_reset = 1"
| "steps_left R_Merged_reset = 2"
| "steps_left R_Has_failed = 2"
| "steps_left R_Subscription_poll = 2"
| "steps_left R_Is_merged = 3"
| "steps_left R_Subscription_call = 3"
| "steps_left R_Merge_poll = 4"
| "steps_left R_Subscription_check = 4"
| "steps_left R_Merge_call = 5"
| "steps_left R_Merge_check = 6"

lemma control_step_stopped:
  assumes "control_step s t" and "\<not> running_of s"
  shows "\<not> running_of t \<and> steps_left (run_at t) < steps_left (run_at s)"
  using assms by (induction rule: control_step.induct) auto

lemma fast_path_running: "sub_running (sub (handleMessageFastPath ar t now d pos w)) = sub_running (sub w)"
  using connection_fast_path [of ar t now d pos w] by (simp add: connection_def)

lemma fragment_stopped: "\<not> sub_running (sub w) \<Longrightarrow> \<not> sub_running (sub (fragmentHandler ar f w))"
  by (simp add: fragmentHandler_def handleMessage_def fast_path_running)

lemma handle_step_stopped:
  "handle_step ar s t \<Longrightarrow> \<not> running_of s \<Longrightarrow> \<not> running_of t \<and> run_at t = run_at s"
  by (induction rule: handle_step.induct) (simp_all add: fragment_stopped)

lemma stop_step_stopped: "stop_step s t \<Longrightarrow> \<not> running_of s \<Longrightarrow> \<not> running_of t \<and> run_at t = run_at s"
  by (induction rule: stop_step.induct) simp_all

lemma stopped_run:
  "race_run ar s0 n s \<Longrightarrow> \<not> running_of s0 \<Longrightarrow>
   \<not> running_of s \<and> n + steps_left (run_at s) \<le> steps_left (run_at s0)"
proof (induction rule: race_run.induct)
  case (race_control n s t)
  then show ?case using control_step_stopped [of s t] by simp
next
  case (race_handle n s t)
  then show ?case using handle_step_stopped [of ar s t] by simp
next
  case (race_stop n s t)
  then show ?case using stop_step_stopped [of s t] by simp
qed simp

lemma control_progress: "run_at s \<notin> {R_Returned, R_Fault} \<Longrightarrow> \<exists>t. control_step s t"
  by (cases "run_at s"; cases "merge_of s = None"; cases "subscription_of s = None"; cases "running_of s")
     (blast intro: control_step.intros)+

section \<open>A pointer that is gone\<close>

text \<open>Until the first reset the points of the loop fit the pointers.\<close>

fun pointers_fit :: "run_pc \<Rightarrow> bool \<Rightarrow> bool \<Rightarrow> bool" where
  "pointers_fit R_Merge_call m u = m"
| "pointers_fit R_Merge_poll m u = m"
| "pointers_fit R_Is_merged m u = m"
| "pointers_fit R_Has_failed m u = m"
| "pointers_fit R_Subscription_call m u = u"
| "pointers_fit R_Fault m u = False"
| "pointers_fit _ m u = True"

definition before_reset :: "race \<Rightarrow> bool" where
  "before_reset s \<longleftrightarrow>
     zero_copy_ready (sub (rc_world s))
     \<and> (stop_at s \<in> {T_Signal, T_Merge} \<longrightarrow>
          pointers_fit (run_at s) (merge_of s \<noteq> None) (subscription_of s \<noteq> None))"

lemma control_step_before_reset:
  assumes "control_step s t" and "before_reset s"
  shows "before_reset t"
  using assms
  by (induction rule: control_step.induct) (auto simp: before_reset_def zero_copy_ready_def)

lemma handle_step_before_reset:
  assumes "handle_step ar s t" and "before_reset s"
  shows "before_reset t"
  using assms
proof (induction rule: handle_step.induct)
  case (h_merge s f)
  have same: "connection (sub (fragmentHandler ar f (rc_world s))) = connection (sub (rc_world s))"
    using h_merge(3) by (intro connection_fragment) (simp add: before_reset_def)
  show ?case
    using h_merge(3) connection_fields [OF same] ready_connection [OF same] by (simp add: before_reset_def)
next
  case (h_subscription s f)
  have same: "connection (sub (fragmentHandler ar f (rc_world s))) = connection (sub (rc_world s))"
    using h_subscription(2) by (intro connection_fragment) (simp add: before_reset_def)
  show ?case
    using h_subscription(2) connection_fields [OF same] ready_connection [OF same] by (simp add: before_reset_def)
qed

lemma stop_step_before_reset:
  assumes "stop_step s t" and "before_reset s"
  shows "before_reset t"
  using assms by (induction rule: stop_step.induct) (auto simp: before_reset_def zero_copy_ready_def)

lemma race_before_reset: "race_run ar s0 n s \<Longrightarrow> before_reset s0 \<Longrightarrow> before_reset s"
  by (induction rule: race_run.induct)
     (auto intro: control_step_before_reset handle_step_before_reset stop_step_before_reset)

lemma fault_reachable:
  assumes s: "run_at s = R_Loop" "stop_at s = T_Signal" "running_of s"
    and "merge_of s \<noteq> None \<or> subscription_of s \<noteq> None"
  shows "\<exists>n t. race_run ar s n t \<and> run_at t = R_Fault"
proof -
  define a where "a = s\<lparr>run_at := R_Merge_check\<rparr>"
  have a: "race_run ar s 1 a"
    using race_control [OF race_start r_go [OF s(1,3)]] by (simp add: a_def)
  define p where "p = (if merge_of s \<noteq> None then R_Merge_call else R_Subscription_call)"
  define b where "b = s\<lparr>run_at := p\<rparr>"
  have "\<exists>n. race_run ar s n b"
  proof (cases "merge_of s = None")
    case False
    with race_control [OF a r_merging] show ?thesis by (auto simp: a_def b_def p_def)
  next
    case True
    from race_control [OF a r_not_merging] have "race_run ar s 2 (s\<lparr>run_at := R_Subscription_check\<rparr>)"
      using True by (simp add: a_def numeral_2_eq_2)
    from race_control [OF this r_subscribed] show ?thesis
      using True assms(4) by (auto simp: b_def p_def)
  qed
  then obtain n where b: "race_run ar s n b" ..
  define c where "c = (map_sub (\<lambda>u. u\<lparr>sub_running := False\<rparr>) b)\<lparr>stop_at := T_Merge\<rparr>"
  define d where "d = (map_sub (\<lambda>u. u\<lparr>sub_replay_merge := None\<rparr>) c)\<lparr>stop_at := T_Subscription\<rparr>"
  define e where "e = (map_sub (\<lambda>u. u\<lparr>sub_subscription := None\<rparr>) d)\<lparr>stop_at := T_Archive\<rparr>"
  have "stop_step b c" unfolding c_def by (rule t_signal) (simp add: b_def s)
  moreover have "stop_step c d" unfolding d_def by (rule t_merge) (simp add: c_def)
  moreover have "stop_step d e" unfolding e_def by (rule t_subscription) (simp add: d_def)
  ultimately have e: "race_run ar s n e" using b race_stop by blast
  have "run_at e = p" "merge_of e = None" "subscription_of e = None"
    by (simp_all add: e_def d_def c_def b_def)
  then have "control_step e (e\<lparr>run_at := R_Fault\<rparr>)"
    using r_merge_gone [of e] r_subscription_gone [of e] by (auto simp: p_def split: if_splits)
  with e have "race_run ar s (Suc n) (e\<lparr>run_at := R_Fault\<rparr>)" by (rule race_control)
  then show ?thesis by (intro exI [of _ "Suc n"] exI [of _ "e\<lparr>run_at := R_Fault\<rparr>"]) simp
qed

section \<open>Properties\<close>

text \<open>The steps of the subscriber's thread implement \<open>run\<close>: as long as the main thread does not
  interfere, they bring the loop, for every sequence of answers of the polls, to the world and the
  exit that the loop as a function has.\<close>

theorem race_refines_run:
  assumes "zero_copy_ready (sub w)"
  shows "\<exists>n s. race_run ar (start_race w) n s \<and> stop_at s = T_Signal
     \<and> rc_world s = snd (run_loop ar as w)
     \<and> run_at s = (if fst (run_loop ar as w) then R_Returned else R_Loop)"
proof -
  let ?s = "start_race w"
  from race_run_loop [of ?s ar as] assms obtain n where
    "race_run ar ?s n (?s\<lparr>rc_world := snd (run_loop ar as w),
       run_at := (if fst (run_loop ar as w) then R_Returned else R_Loop)\<rparr>)"
    by (auto simp: start_race_def)
  then show ?thesis
    by (intro exI [of _ n] exI [of _ "?s\<lparr>rc_world := snd (run_loop ar as w),
       run_at := (if fst (run_loop ar as w) then R_Returned else R_Loop)\<rparr>"])
       (simp add: start_race_def)
qed

theorem race_refines_run_witness:
  "\<exists>n s. race_run example_archive (start_race merging_world) n s
     \<and> rc_world s = snd (run_loop example_archive
         [\<lparr>pa_fragments = [example_fragment 5], pa_merged = True, pa_failed = False\<rparr>] merging_world)"
proof -
  have "zero_copy_ready (sub merging_world)"
    using merging_world_receiving by (simp add: receiving_def)
  from race_refines_run [OF this] show ?thesis by blast
qed

text \<open>C23: Stopping while a connection is open is a race that can crash the program. From every state in which
  the loop runs with a merge or a subscription, some interleaving of \<open>shutdown\<close> with the loop ends in
  a call through a pointer that was reset; and only the resets do it: as long as \<open>shutdown\<close> has not
  begun them, so in particular if \<open>main\<close> joined the thread after the store to \<open>running_\<close>, no
  interleaving does.\<close>

theorem shutdown_race:
  assumes "zero_copy_ready (sub w)" and "sub_running (sub w)"
    and "sub_replay_merge (sub w) \<noteq> None \<or> sub_subscription (sub w) \<noteq> None"
  shows "(\<exists>n s. race_run ar (start_race w) n s \<and> run_at s = R_Fault)
     \<and> (\<forall>n s. race_run ar (start_race w) n s \<longrightarrow> stop_at s \<in> {T_Signal, T_Merge} \<longrightarrow> run_at s \<noteq> R_Fault)"
proof (intro conjI allI impI)
  show "\<exists>n s. race_run ar (start_race w) n s \<and> run_at s = R_Fault"
    using assms by (intro fault_reachable) (simp_all add: start_race_def)
next
  fix n s
  assume run: "race_run ar (start_race w) n s" and at: "stop_at s \<in> {T_Signal, T_Merge}"
  have "before_reset (start_race w)" using assms(1) by (simp add: before_reset_def start_race_def)
  from race_before_reset [OF run this] at show "run_at s \<noteq> R_Fault"
    by (auto simp: before_reset_def)
qed

theorem shutdown_race_witness:
  "\<exists>n s. race_run example_archive (start_race merging_world) n s \<and> run_at s = R_Fault"
proof -
  have "zero_copy_ready (sub merging_world)" "sub_running (sub merging_world)"
    "sub_subscription (sub merging_world) \<noteq> None"
    using merging_world_receiving by (simp_all add: receiving_def)
  from shutdown_race [OF this(1,2)] this(3) show ?thesis by blast
qed

text \<open>C26: The loop ends soon after the signal: once \<open>running_\<close> is false, the thread makes at most six more
  steps of the loop, whatever the merge answers and the main thread does (a poll under way hands
  over its fragments), and it never gets stuck before it has returned or faulted.\<close>

theorem loop_ends_after_signal:
  assumes "\<not> running_of s" and "race_run ar s n t"
  shows "n \<le> 6 \<and> \<not> running_of t
     \<and> (run_at t \<in> {R_Returned, R_Fault} \<or> n < 6 \<and> (\<exists>u. control_step t u))"
proof -
  have b: "\<not> running_of t" "n + steps_left (run_at t) \<le> steps_left (run_at s)"
    using stopped_run [OF assms(2,1)] by simp_all
  have six: "steps_left (run_at s) \<le> 6" by (cases "run_at s") simp_all
  have "run_at t \<in> {R_Returned, R_Fault} \<or> 0 < steps_left (run_at t)" by (cases "run_at t") simp_all
  with b six control_progress [of t] show ?thesis by (cases "run_at t \<in> {R_Returned, R_Fault}") auto
qed

theorem loop_ends_after_signal_witness:
  "\<exists>n s. race_run example_archive
        (start_race (merging_world\<lparr>sub := (sub merging_world)\<lparr>sub_running := False\<rparr>\<rparr>)) n s
     \<and> run_at s = R_Returned \<and> n \<le> 6"
proof -
  let ?s = "start_race (merging_world\<lparr>sub := (sub merging_world)\<lparr>sub_running := False\<rparr>\<rparr>)"
  have stopped: "\<not> running_of ?s" by (simp add: start_race_def)
  have "race_run example_archive ?s 1 (?s\<lparr>run_at := R_Returned\<rparr>)"
    using race_control [OF race_start r_stop, of ?s example_archive] by (simp add: start_race_def)
  from loop_ends_after_signal [OF stopped this] this show ?thesis
    by (intro exI [of _ 1] exI [of _ "?s\<lparr>run_at := R_Returned\<rparr>"]) simp
qed

end
