(* ===== verification/Simulation.thy ===== *)
theory Simulation
  imports Prelude
begin

text \<open>
  The contract between a system whose steps are single accesses to shared memory and one whose
  steps are whole operations: every step of the first is matched by finitely many of the second,
  possibly none. \<open>Pipeline_Queue\<close>, \<open>Pipeline_Race\<close> and \<open>Pipeline_Accesses\<close>, which split the operations of the
  running pipeline into their accesses, provide it in either direction.
\<close>

locale simulation =
  fixes concrete :: "'c \<Rightarrow> 'c \<Rightarrow> bool"
    and abstract_step :: "'a \<Rightarrow> 'a \<Rightarrow> bool"
    and matches :: "'c \<Rightarrow> 'a \<Rightarrow> bool"
  assumes step_matched: "matches c a \<Longrightarrow> concrete c c' \<Longrightarrow> \<exists>a'. abstract_step\<^sup>*\<^sup>* a a' \<and> matches c' a'"
begin

lemma run_matched:
  assumes "concrete\<^sup>*\<^sup>* c c'" and "matches c a"
  shows "\<exists>a'. abstract_step\<^sup>*\<^sup>* a a' \<and> matches c' a'"
  using assms
proof (induction rule: rtranclp_induct)
  case base
  then show ?case by blast
next
  case (step c' c'')
  then obtain a' where a: "abstract_step\<^sup>*\<^sup>* a a'" "matches c' a'" by blast
  from step_matched [OF a(2) step.hyps(2)] a(1) show ?case by (meson rtranclp_trans)
qed

end

end
