(* ===== verification/Pipeline_Race.thy ===== *)
theory Pipeline_Race
  imports Zero_Copy_System Buffer_Pool_Steps Simulation
begin

text \<open>
  The zero-copy pipeline with the pool at the grain of its accesses to shared memory. In
  \<open>Zero_Copy_System\<close> a call of \<open>allocate\<close> or \<open>deallocate\<close> is one step; here the calls that
  \<open>handleMessageFastPath\<close> and \<open>workerThreadMain\<close> make run through the program counters of
  \<open>Buffer_Pool_Steps\<close>, and the other thread may move between any two of them. The theory shows
  what of the pipeline survives that (counts, bounds, memory safety) and what does not.
\<close>

section \<open>State\<close>

text \<open>The subscriber is in \<open>allocate\<close> or in \<open>deallocate\<close>, the worker in \<open>deallocate\<close>; an idle counter
  is a call that has not begun.\<close>

record fine_system =
  fn_sys :: zc_system
  fn_alloc :: alloc_pc
  fn_drop :: dealloc_pc
  fn_free :: dealloc_pc

definition fine_of :: "zc_system \<Rightarrow> fine_system" where
  "fine_of s = \<lparr>fn_sys = s, fn_alloc = A_Idle, fn_drop = D_Idle, fn_free = D_Idle\<rparr>"

fun sub_frees :: "sub_pc \<Rightarrow> ptr option" where
  "sub_frees (S_Drop_duplicate b) = Some b"
| "sub_frees (S_Drop_full b) = Some b"
| "sub_frees _ = None"

fun worker_frees :: "worker_pc \<Rightarrow> ptr option" where
  "worker_frees (W_Release b) = Some b"
| "worker_frees (W_Drop_duplicate b) = Some b"
| "worker_frees _ = None"

text \<open>What each thread does when its call of \<open>deallocate\<close> has returned.\<close>

definition sub_returns :: "zc_system \<Rightarrow> zc_system" where
  "sub_returns s =
     (case sub_at s of
        S_Drop_full b \<Rightarrow>
          s\<lparr>sy_sub := (sy_sub s)\<lparr>zc_queue_full_failures := zc_queue_full_failures (sy_sub s) + 1\<rparr>,
            sub_at := S_Idle\<rparr>
      | _ \<Rightarrow> s\<lparr>sub_at := S_Idle\<rparr>)"

definition worker_returns :: "zc_system \<Rightarrow> zc_system" where
  "worker_returns s =
     (case worker_at s of
        W_Release b \<Rightarrow>
          s\<lparr>sy_worker := (sy_worker s)\<lparr>messages_processed := messages_processed (sy_worker s) + 1\<rparr>,
            worker_at := W_Idle\<rparr>
      | _ \<Rightarrow> s\<lparr>worker_at := W_Idle\<rparr>)"

section \<open>Steps\<close>

text \<open>One access of a call \<open>deallocate b\<close>. A pointer that the pool refuses returns at once.\<close>

inductive free_access :: "ptr \<Rightarrow> BufferPool \<times> dealloc_pc \<Rightarrow> BufferPool \<times> dealloc_pc \<Rightarrow> bool" for b where
  free_step: "dealloc_step \<lparr>pool = p, allocator = A_Idle, deallocator = pc, handed = [b]\<rparr> v \<Longrightarrow>
     free_access b (p, pc) (pool v, deallocator v)"
| free_refused: "b = nullptr \<or> \<not> isValidBuffer p b \<Longrightarrow> free_access b (p, D_Idle) (p, D_Idle)"

definition returned :: "dealloc_pc \<Rightarrow> bool" where
  "returned pc \<longleftrightarrow> pc = D_Idle \<or> pc = D_Overflow"

abbreviation alloc_view :: "fine_system \<Rightarrow> pool_threads" where
  "alloc_view f \<equiv>
     \<lparr>pool = sy_pool (fn_sys f), allocator = fn_alloc f, deallocator = D_Idle, handed = []\<rparr>"

inductive fine_step :: "archive_client \<Rightarrow> fine_system \<Rightarrow> fine_system \<Rightarrow> bool" for ar where
  f_subscriber: "subscriber_step ar (fn_sys f) s \<Longrightarrow> sub_at (fn_sys f) \<noteq> S_Idle \<Longrightarrow>
     sub_frees (sub_at (fn_sys f)) = None \<Longrightarrow> fine_step ar f (f\<lparr>fn_sys := s\<rparr>)"
| f_allocate: "sub_at (fn_sys f) = S_Idle \<Longrightarrow> alloc_step (alloc_view f) v \<Longrightarrow> handed v = [] \<Longrightarrow>
     fn_alloc f \<noteq> A_Fail \<Longrightarrow>
     fine_step ar f (f\<lparr>fn_sys := (fn_sys f)\<lparr>sy_pool := pool v\<rparr>, fn_alloc := allocator v\<rparr>)"
| f_allocated: "sub_at (fn_sys f) = S_Idle \<Longrightarrow> alloc_step (alloc_view f) v \<Longrightarrow> handed v = [buf] \<Longrightarrow>
     fine_step ar f
       (f\<lparr>fn_sys := (fn_sys f)\<lparr>sy_pool := pool v, sub_at := S_Copy t d pos buf\<rparr>,
          fn_alloc := allocator v\<rparr>)"
| f_exhausted: "sub_at (fn_sys f) = S_Idle \<Longrightarrow> alloc_step (alloc_view f) v \<Longrightarrow> fn_alloc f = A_Fail \<Longrightarrow>
     fine_step ar f
       (f\<lparr>fn_sys := (fn_sys f)
            \<lparr>sy_pool := pool v,
             sy_sub := (sy_sub (fn_sys f))\<lparr>zc_buffer_allocation_failures :=
               zc_buffer_allocation_failures (sy_sub (fn_sys f)) + 1\<rparr>\<rparr>,
          fn_alloc := allocator v\<rparr>)"
| f_drop: "sub_frees (sub_at (fn_sys f)) = Some b \<Longrightarrow>
     free_access b (sy_pool (fn_sys f), fn_drop f) (p, pc) \<Longrightarrow> \<not> returned pc \<Longrightarrow>
     fine_step ar f (f\<lparr>fn_sys := (fn_sys f)\<lparr>sy_pool := p\<rparr>, fn_drop := pc\<rparr>)"
| f_dropped: "sub_frees (sub_at (fn_sys f)) = Some b \<Longrightarrow>
     free_access b (sy_pool (fn_sys f), fn_drop f) (p, pc) \<Longrightarrow> returned pc \<Longrightarrow>
     fine_step ar f (f\<lparr>fn_sys := sub_returns ((fn_sys f)\<lparr>sy_pool := p\<rparr>), fn_drop := D_Idle\<rparr>)"
| f_worker: "worker_step (fn_sys f) s \<Longrightarrow> worker_frees (worker_at (fn_sys f)) = None \<Longrightarrow>
     fine_step ar f (f\<lparr>fn_sys := s\<rparr>)"
| f_free: "worker_frees (worker_at (fn_sys f)) = Some b \<Longrightarrow>
     free_access b (sy_pool (fn_sys f), fn_free f) (p, pc) \<Longrightarrow> \<not> returned pc \<Longrightarrow>
     fine_step ar f (f\<lparr>fn_sys := (fn_sys f)\<lparr>sy_pool := p\<rparr>, fn_free := pc\<rparr>)"
| f_freed: "worker_frees (worker_at (fn_sys f)) = Some b \<Longrightarrow>
     free_access b (sy_pool (fn_sys f), fn_free f) (p, pc) \<Longrightarrow> returned pc \<Longrightarrow>
     fine_step ar f (f\<lparr>fn_sys := worker_returns ((fn_sys f)\<lparr>sy_pool := p\<rparr>), fn_free := D_Idle\<rparr>)"

abbreviation fine_reachable :: "archive_client \<Rightarrow> fine_system \<Rightarrow> fine_system \<Rightarrow> bool" where
  "fine_reachable ar \<equiv> (fine_step ar)\<^sup>*\<^sup>*"

section \<open>What the interleaving keeps\<close>

text \<open>A call of \<open>deallocate\<close> that has counted its buffer as free and has not returned.\<close>

fun given_back :: "dealloc_pc \<Rightarrow> nat" where
  "given_back (D_Push b c) = 1"
| "given_back D_Count = 1"
| "given_back _ = 0"

definition list_ok :: "BufferPool \<Rightarrow> bool" where
  "list_ok p \<longleftrightarrow> 0 < pool_base p \<and> length (free_list p) = PoolSize p \<and> set (free_list p) \<subseteq> pool_ptrs p"

text \<open>Nothing of what the accesses to the pool, and the stores to its buffers, rely on changes.\<close>

definition same_place :: "BufferPool \<Rightarrow> BufferPool \<Rightarrow> bool" where
  "same_place p q \<longleftrightarrow> PoolSize q = PoolSize p \<and> pool_ptrs q = pool_ptrs p \<and> (list_ok p \<longrightarrow> list_ok q)"

lemma same_place_store [simp]: "same_place p (store p a b)" "list_ok (store p a b) = list_ok p"
  by (simp_all add: same_place_def list_ok_def)

lemma alloc_access_ok:
  assumes "alloc_step v w" and "list_ok (pool v)" and "alloc_pc_ok (pool v) (allocator v)"
    and "free_count (pool v) \<le> PoolSize (pool v)"
  shows "same_place (pool v) (pool w) \<and> alloc_pc_ok (pool w) (allocator w)
    \<and> set (handed w) \<subseteq> set (handed v) \<union> pool_ptrs (pool v)
    \<and> free_count (pool w) + alloc_transit (allocator w) + length (handed w)
        = free_count (pool v) + alloc_transit (allocator v) + length (handed v)"
  using assms
proof cases
  case (a_pop i)
  then have "free_list (pool v) ! i \<in> pool_ptrs (pool v)"
    using assms(2,3) by (auto simp: list_ok_def)
  with a_pop assms(2) show ?thesis by (simp add: same_place_def)
qed (use assms(2-4) in \<open>auto simp: same_place_def list_ok_def\<close>)

lemma free_access_ok:
  assumes "free_access b (p, pc) (q, pd)" and "list_ok p" and "dealloc_pc_ok p pc" and "b \<in> pool_ptrs p"
    and "given_back pc = 0 \<Longrightarrow> free_count p < PoolSize p"
  shows "same_place p q \<and> dealloc_pc_ok q pd
    \<and> (if pd = D_Idle then free_count q = free_count p \<and> given_back pc = 1
       else free_count q + given_back pc = free_count p + given_back pd)"
  using assms(1)
proof cases
  case (free_step v)
  have q: "q = pool v" "pd = deallocator v" using free_step by simp_all
  from free_step(3) show ?thesis
  proof cases
    case (d_push b' c)
    then show ?thesis
      using assms(2,3) q set_update_subset_insert [of "free_list p" c b']
      by (auto simp: same_place_def list_ok_def)
  qed (use assms q in \<open>auto simp: same_place_def list_ok_def\<close>)
next
  case free_refused
  then show ?thesis
    using assms(2,4) isValidBuffer_pool_ptrs pool_ptrs_not_null by (auto simp: list_ok_def)
qed

text \<open>The invariant of the pipeline at this grain: every buffer is counted exactly once, as free, in the
  queue, with a thread or in transit; that it is in only one of these places is not part of it.\<close>

definition memory_ok :: "zc_system \<Rightarrow> bool" where
  "memory_ok s \<longleftrightarrow>
     list_ok (sy_pool s) \<and> mq_inv (sy_queue s) \<and> PoolSize (sy_pool s) \<le> mq_capacity (sy_queue s)
     \<and> set (places s) \<subseteq> pool_ptrs (sy_pool s)
     \<and> (\<forall>pos buf. sub_at s = S_Record pos buf \<longrightarrow> buf \<in> pool_ptrs (sy_pool s))
     \<and> (\<forall>buf. sub_at s \<noteq> S_Drop_full buf) \<and> zc_queue_full_failures (sy_sub s) = 0"

definition calls_ok :: "fine_system \<Rightarrow> bool" where
  "calls_ok f \<longleftrightarrow>
     alloc_pc_ok (sy_pool (fn_sys f)) (fn_alloc f)
     \<and> dealloc_pc_ok (sy_pool (fn_sys f)) (fn_drop f) \<and> dealloc_pc_ok (sy_pool (fn_sys f)) (fn_free f)
     \<and> (fn_alloc f \<noteq> A_Idle \<longrightarrow> sub_at (fn_sys f) = S_Idle)
     \<and> (fn_drop f \<noteq> D_Idle \<longrightarrow> sub_frees (sub_at (fn_sys f)) \<noteq> None)
     \<and> (fn_free f \<noteq> D_Idle \<longrightarrow> worker_frees (worker_at (fn_sys f)) \<noteq> None)"

definition buffers_counted :: "fine_system \<Rightarrow> bool" where
  "buffers_counted f \<longleftrightarrow>
     free_count (sy_pool (fn_sys f)) + length (places (fn_sys f)) + alloc_transit (fn_alloc f)
       = PoolSize (sy_pool (fn_sys f)) + given_back (fn_drop f) + given_back (fn_free f)"

definition fine_inv :: "fine_system \<Rightarrow> bool" where
  "fine_inv f \<longleftrightarrow> memory_ok (fn_sys f) \<and> calls_ok f \<and> buffers_counted f"

lemma sub_frees_held: "sub_frees pc = Some b \<Longrightarrow> sub_held pc = [b]"
  by (cases pc) simp_all

lemma worker_frees_held: "worker_frees pc = Some b \<Longrightarrow> worker_held pc = [b]"
  by (cases pc) simp_all

lemma given_back_idle: "0 < given_back pc \<Longrightarrow> pc \<noteq> D_Idle" "given_back pc \<le> 1"
  by (cases pc; simp)+

text \<open>What a call has given back, its thread still holds.\<close>

lemma given_back_bounds:
  assumes "calls_ok f"
  shows "given_back (fn_drop f) \<le> length (sub_held (sub_at (fn_sys f)))"
    and "given_back (fn_free f) \<le> length (worker_held (worker_at (fn_sys f)))"
proof -
  show "given_back (fn_drop f) \<le> length (sub_held (sub_at (fn_sys f)))"
    using assms given_back_idle(2) [of "fn_drop f"]
    by (cases "fn_drop f = D_Idle") (auto simp: calls_ok_def dest!: sub_frees_held)
  show "given_back (fn_free f) \<le> length (worker_held (worker_at (fn_sys f)))"
    using assms given_back_idle(2) [of "fn_free f"]
    by (cases "fn_free f = D_Idle") (auto simp: calls_ok_def dest!: worker_frees_held)
qed

lemma fine_counts:
  assumes "fine_inv f"
  shows "free_count (sy_pool (fn_sys f)) + length (mq_contents (sy_queue (fn_sys f)))
      + alloc_transit (fn_alloc f) \<le> PoolSize (sy_pool (fn_sys f))"
    and "sub_frees (sub_at (fn_sys f)) = Some b \<Longrightarrow> given_back (fn_drop f) = 0 \<Longrightarrow>
      free_count (sy_pool (fn_sys f)) < PoolSize (sy_pool (fn_sys f))"
    and "worker_frees (worker_at (fn_sys f)) = Some b \<Longrightarrow> given_back (fn_free f) = 0 \<Longrightarrow>
      free_count (sy_pool (fn_sys f)) < PoolSize (sy_pool (fn_sys f))"
    and "sub_at (fn_sys f) = S_Enqueue pos buf \<Longrightarrow>
      length (mq_contents (sy_queue (fn_sys f))) < PoolSize (sy_pool (fn_sys f))"
  using assms given_back_bounds [of f] sub_frees_held [of "sub_at (fn_sys f)" b]
    worker_frees_held [of "worker_at (fn_sys f)" b]
  by (auto simp: fine_inv_def buffers_counted_def places_def calls_ok_def)

lemma calls_ok_pool:
  assumes "calls_ok f" and "same_place (sy_pool (fn_sys f)) p"
  shows "alloc_pc_ok p (fn_alloc f)" "dealloc_pc_ok p (fn_drop f)" "dealloc_pc_ok p (fn_free f)"
  using assms alloc_pc_ok_cong [of p "sy_pool (fn_sys f)" "fn_alloc f"]
    dealloc_pc_ok_cong [of p "sy_pool (fn_sys f)"]
  by (auto simp: calls_ok_def same_place_def)

lemma same_place_refl [simp]: "same_place p p"
  by (simp add: same_place_def)

lemma subscriber_moves:
  assumes "subscriber_step ar (fn_sys f) s" and "sub_at (fn_sys f) \<noteq> S_Idle"
    and "sub_frees (sub_at (fn_sys f)) = None" and "fine_inv f"
  shows "fine_inv (f\<lparr>fn_sys := s\<rparr>)"
proof -
  let ?s = "fn_sys f"
  have mem: "memory_ok ?s" and calls: "calls_ok f" and count: "buffers_counted f"
    using assms(4) by (simp_all add: fine_inv_def)
  have idle: "fn_alloc f = A_Idle" "fn_drop f = D_Idle" using calls assms(2,3) by (auto simp: calls_ok_def)
  have room: "length (mq_contents (sy_queue ?s)) < mq_capacity (sy_queue ?s)"
    if "sub_at ?s = S_Enqueue pos buf" for pos buf
    using fine_counts(4) [OF assms(4) that] mem by (simp add: memory_ok_def)
  have "memory_ok s \<and> same_place (sy_pool ?s) (sy_pool s) \<and> worker_at s = worker_at ?s
      \<and> length (places s) = length (places ?s) \<and> PoolSize (sy_pool s) = PoolSize (sy_pool ?s)
      \<and> free_count (sy_pool s) = free_count (sy_pool ?s)"
    using assms(1)
  proof cases
    case (s_copy t d pos buf)
    then show ?thesis using mem by (auto simp: memory_ok_def places_def)
  next
    case (s_enqueue pos buf q)
    have q: "mq_inv (sy_queue ?s)" using mem by (simp add: memory_ok_def)
    show ?thesis
      using mem s_enqueue mq_enqueue_pair [OF q s_enqueue(3)]
      by (auto simp: memory_ok_def places_def)
  next
    case (s_full pos buf q)
    have q: "mq_inv (sy_queue ?s)" "buf \<noteq> nullptr"
      using mem s_full(2) pool_ptrs_not_null by (auto simp: memory_ok_def list_ok_def places_def)
    then show ?thesis
      using mq_enqueue_pair(4) [OF q(1) s_full(3)] room [OF s_full(2)] by simp
  qed (use assms(2,3) mem in \<open>auto simp: memory_ok_def places_def\<close>)
  then show ?thesis
    using calls count idle calls_ok_pool [OF calls]
    by (auto simp: fine_inv_def buffers_counted_def calls_ok_def)
qed

lemma worker_moves:
  assumes "worker_step (fn_sys f) s" and "worker_frees (worker_at (fn_sys f)) = None" and "fine_inv f"
  shows "fine_inv (f\<lparr>fn_sys := s\<rparr>)"
proof -
  let ?s = "fn_sys f"
  have mem: "memory_ok ?s" and calls: "calls_ok f" and count: "buffers_counted f"
    using assms(3) by (simp_all add: fine_inv_def)
  have idle: "fn_free f = D_Idle" using calls assms(2) by (auto simp: calls_ok_def)
  have q: "mq_inv (sy_queue ?s)" using mem by (simp add: memory_ok_def)
  have "memory_ok s \<and> same_place (sy_pool ?s) (sy_pool s) \<and> sub_at s = sub_at ?s
      \<and> length (places s) = length (places ?s) \<and> PoolSize (sy_pool s) = PoolSize (sy_pool ?s)
      \<and> free_count (sy_pool s) = free_count (sy_pool ?s)"
    using assms(1)
  proof cases
    case (w_dequeue buf r)
    then show ?thesis
      using mem mq_dequeue_pair [OF q w_dequeue(3)]
      by (cases "mq_contents (sy_queue ?s)") (auto simp: memory_ok_def places_def)
  next
    case (w_empty r)
    then show ?thesis
      using mem mq_dequeue_pair [OF q w_empty(3)]
      by (cases "mq_contents (sy_queue ?s)") (auto simp: memory_ok_def places_def)
  qed (use assms(2) mem in \<open>auto simp: memory_ok_def places_def\<close>)
  then show ?thesis
    using calls count idle calls_ok_pool [OF calls]
    by (auto simp: fine_inv_def buffers_counted_def calls_ok_def)
qed

text \<open>An access of the pool that the thread of a call makes.\<close>

lemma memory_ok_pool:
  "memory_ok s \<Longrightarrow> same_place (sy_pool s) p \<Longrightarrow> memory_ok (s\<lparr>sy_pool := p\<rparr>)"
  by (auto simp: memory_ok_def same_place_def places_def)

lemma alloc_moves:
  assumes "alloc_step (alloc_view f) v" and "sub_at (fn_sys f) = S_Idle" and "fine_inv f"
  shows "same_place (sy_pool (fn_sys f)) (pool v)" "alloc_pc_ok (pool v) (allocator v)"
    "set (handed v) \<subseteq> pool_ptrs (sy_pool (fn_sys f))"
    "free_count (pool v) + alloc_transit (allocator v) + length (handed v)
      = free_count (sy_pool (fn_sys f)) + alloc_transit (fn_alloc f)"
  using alloc_access_ok [OF assms(1)] assms(3) fine_counts(1) [OF assms(3)]
  by (simp_all add: fine_inv_def memory_ok_def calls_ok_def)

lemma free_moves:
  assumes "free_access b (sy_pool (fn_sys f), pc) (p, pd)" and "fine_inv f"
    and "sub_frees (sub_at (fn_sys f)) = Some b \<and> pc = fn_drop f
      \<or> worker_frees (worker_at (fn_sys f)) = Some b \<and> pc = fn_free f"
  shows "same_place (sy_pool (fn_sys f)) p \<and> dealloc_pc_ok p pd \<and> pd \<noteq> D_Overflow
    \<and> (if pd = D_Idle then free_count p = free_count (sy_pool (fn_sys f)) \<and> given_back pc = 1
       else free_count p + given_back pc = free_count (sy_pool (fn_sys f)) + given_back pd)"
proof -
  have mem: "memory_ok (fn_sys f)" and calls: "calls_ok f" using assms(2) by (simp_all add: fine_inv_def)
  have "b \<in> pool_ptrs (sy_pool (fn_sys f))" "dealloc_pc_ok (sy_pool (fn_sys f)) pc"
    "given_back pc = 0 \<Longrightarrow> free_count (sy_pool (fn_sys f)) < PoolSize (sy_pool (fn_sys f))"
    using assms(3) mem calls fine_counts(2,3) [OF assms(2), of b]
    by (auto simp: memory_ok_def calls_ok_def places_def dest: sub_frees_held worker_frees_held)
  then have "same_place (sy_pool (fn_sys f)) p \<and> dealloc_pc_ok p pd
    \<and> (if pd = D_Idle then free_count p = free_count (sy_pool (fn_sys f)) \<and> given_back pc = 1
       else free_count p + given_back pc = free_count (sy_pool (fn_sys f)) + given_back pd)"
    using mem by (intro free_access_ok [OF assms(1)]) (simp_all add: memory_ok_def)
  then show ?thesis by auto
qed

lemma fine_step_inv:
  assumes "fine_step ar f g" and "fine_inv f"
  shows "fine_inv g"
  using assms
proof (induction rule: fine_step.induct)
  case (f_subscriber f s)
  then show ?case by (rule subscriber_moves)
next
  case (f_worker f s)
  then show ?case by (rule worker_moves)
next
  case (f_allocate f v)
  note v = alloc_moves [OF f_allocate(2,1,5)]
  show ?case
    using f_allocate v memory_ok_pool [OF _ v(1)] calls_ok_pool [OF _ v(1)]
    by (auto simp: fine_inv_def calls_ok_def buffers_counted_def places_def same_place_def)
next
  case (f_allocated f v buf t d pos)
  note v = alloc_moves [OF f_allocated(2,1,4)]
  have pc: "allocator v = A_Idle" using f_allocated(2,3) by cases auto
  show ?case
    using f_allocated v pc memory_ok_pool [OF _ v(1)] calls_ok_pool [OF _ v(1)]
    by (auto simp: fine_inv_def calls_ok_def buffers_counted_def places_def same_place_def memory_ok_def)
next
  case (f_exhausted f v)
  note v = alloc_moves [OF f_exhausted(2,1,4)]
  have "handed v = []" using f_exhausted(2,3) by cases auto
  then show ?case
    using f_exhausted v memory_ok_pool [OF _ v(1)] calls_ok_pool [OF _ v(1)]
    by (auto simp: fine_inv_def calls_ok_def buffers_counted_def places_def same_place_def memory_ok_def)
next
  case (f_drop f b p pc)
  have v: "same_place (sy_pool (fn_sys f)) p" "dealloc_pc_ok p pc"
    "free_count p + given_back (fn_drop f) = free_count (sy_pool (fn_sys f)) + given_back pc"
    using free_moves [OF f_drop(2,4)] f_drop(1,3) by (simp_all add: returned_def)
  show ?case
    using f_drop v memory_ok_pool [OF _ v(1)] calls_ok_pool [OF _ v(1)]
    by (auto simp: fine_inv_def calls_ok_def buffers_counted_def places_def same_place_def)
next
  case (f_dropped f b p pc)
  have v: "same_place (sy_pool (fn_sys f)) p" "free_count p = free_count (sy_pool (fn_sys f))"
    "given_back (fn_drop f) = 1"
    using free_moves [OF f_dropped(2,4)] f_dropped(1,3) by (auto simp: returned_def)
  then show ?case
    using f_dropped memory_ok_pool [OF _ v(1)] calls_ok_pool [OF _ v(1)]
    by (cases "sub_at (fn_sys f)")
       (auto simp: fine_inv_def calls_ok_def buffers_counted_def places_def same_place_def memory_ok_def
          sub_returns_def)
next
  case (f_free f b p pc)
  have v: "same_place (sy_pool (fn_sys f)) p" "dealloc_pc_ok p pc"
    "free_count p + given_back (fn_free f) = free_count (sy_pool (fn_sys f)) + given_back pc"
    using free_moves [OF f_free(2,4)] f_free(1,3) by (simp_all add: returned_def)
  show ?case
    using f_free v memory_ok_pool [OF _ v(1)] calls_ok_pool [OF _ v(1)]
    by (auto simp: fine_inv_def calls_ok_def buffers_counted_def places_def same_place_def)
next
  case (f_freed f b p pc)
  have v: "same_place (sy_pool (fn_sys f)) p" "free_count p = free_count (sy_pool (fn_sys f))"
    "given_back (fn_free f) = 1"
    using free_moves [OF f_freed(2,4)] f_freed(1,3) by (auto simp: returned_def)
  then show ?case
    using f_freed memory_ok_pool [OF _ v(1)] calls_ok_pool [OF _ v(1)]
    by (cases "worker_at (fn_sys f)")
       (auto simp: fine_inv_def calls_ok_def buffers_counted_def places_def same_place_def memory_ok_def
          worker_returns_def)
qed

lemma fine_reachable_inv: "fine_reachable ar f g \<Longrightarrow> fine_inv f \<Longrightarrow> fine_inv g"
  by (induction rule: rtranclp_induct) (auto intro: fine_step_inv)

section \<open>Whole calls\<close>

text \<open>A call of \<open>allocate\<close> that is not disturbed, from any state of the pool, is the operation of the
  same name.\<close>

lemma fine_idle [simp]:
  "fn_alloc f = A_Idle \<Longrightarrow> f\<lparr>fn_alloc := A_Idle\<rparr> = f"
  "fn_alloc f = A_Idle \<Longrightarrow> f\<lparr>fn_sys := s, fn_alloc := A_Idle\<rparr> = f\<lparr>fn_sys := s\<rparr>"
  "fn_drop f = D_Idle \<Longrightarrow> f\<lparr>fn_sys := s, fn_drop := D_Idle\<rparr> = f\<lparr>fn_sys := s\<rparr>"
  "fn_free f = D_Idle \<Longrightarrow> f\<lparr>fn_sys := s, fn_free := D_Idle\<rparr> = f\<lparr>fn_sys := s\<rparr>"
  by (cases f; simp)+

lemma allocate_accesses:
  assumes idle: "sub_at (fn_sys f) = S_Idle" "fn_alloc f = A_Idle"
    and count: "free_count (sy_pool (fn_sys f)) = Suc c"
  shows "fine_reachable ar f (f\<lparr>fn_sys := (fn_sys f)
    \<lparr>sy_pool := snd (allocate (sy_pool (fn_sys f))),
     sub_at := S_Copy t d pos (free_list (sy_pool (fn_sys f)) ! c)\<rparr>\<rparr>)"
proof -
  let ?s = "fn_sys f" and ?p = "sy_pool (fn_sys f)"
  let ?b = "free_list ?p ! c"
  define p1 where "p1 = ?p\<lparr>free_count := c\<rparr>"
  define p2 where "p2 = store p1 ?b ((deref p1 ?b)\<lparr>in_use := True\<rparr>)"
  define p3 where "p3 = store p2 ?b (reset (deref p2 ?b))"
  define pt where "pt p pc = f\<lparr>fn_sys := ?s\<lparr>sy_pool := p\<rparr>, fn_alloc := pc\<rparr>" for p pc
  have alloc: "snd (allocate ?p) = p3\<lparr>total_allocations := total_allocations p3 + 1\<rparr>"
    using count by (simp add: allocate_def Let_def p1_def p2_def p3_def)
  have step: "fine_step ar (pt p pc) (pt (pool v) (allocator v))"
    if "alloc_step \<lparr>pool = p, allocator = pc, deallocator = D_Idle, handed = []\<rparr> v" "handed v = []" "pc \<noteq> A_Fail"
    for p pc v
    using f_allocate [of "pt p pc" v] that idle(1) by (simp add: pt_def)
  have "fine_step ar f (pt ?p (A_Cas (Suc c)))"
    using step [of ?p A_Idle, OF a_load] idle(2) count by (simp add: pt_def)
  moreover have "fine_step ar (pt ?p (A_Cas (Suc c))) (pt p1 (A_Pop c))"
    using step [of ?p "A_Cas (Suc c)", OF a_cas] count by (simp add: p1_def)
  moreover have "fine_step ar (pt p1 (A_Pop c)) (pt p1 (A_Mark ?b))"
    using step [of p1 "A_Pop c", OF a_pop] by (simp add: p1_def)
  moreover have "fine_step ar (pt p1 (A_Mark ?b)) (pt p2 (A_Reset ?b))"
    using step [of p1 "A_Mark ?b", OF a_mark] by (simp add: p2_def)
  moreover have "fine_step ar (pt p2 (A_Reset ?b)) (pt p3 (A_Count ?b))"
    using step [of p2 "A_Reset ?b", OF a_reset] by (simp add: p3_def)
  moreover have "fine_step ar (pt p3 (A_Count ?b))
      (f\<lparr>fn_sys := ?s\<lparr>sy_pool := snd (allocate ?p), sub_at := S_Copy t d pos ?b\<rparr>\<rparr>)"
    using f_allocated [OF _ a_count, of "pt p3 (A_Count ?b)" ?b ?b] idle by (simp add: pt_def alloc)
  ultimately show ?thesis by (meson converse_rtranclp_into_rtranclp rtranclp.rtrancl_refl)
qed

lemma exhausted_accesses:
  assumes idle: "sub_at (fn_sys f) = S_Idle" "fn_alloc f = A_Idle"
    and count: "free_count (sy_pool (fn_sys f)) = 0"
  shows "fine_reachable ar f (f\<lparr>fn_sys := (fn_sys f)
    \<lparr>sy_pool := snd (allocate (sy_pool (fn_sys f))),
     sy_sub := (sy_sub (fn_sys f))\<lparr>zc_buffer_allocation_failures :=
       zc_buffer_allocation_failures (sy_sub (fn_sys f)) + 1\<rparr>\<rparr>\<rparr>)"
    (is "fine_reachable ar f ?g")
proof -
  have "fine_step ar f (f\<lparr>fn_alloc := A_Cas 0\<rparr>)"
    using f_allocate [OF idle(1) a_load] idle(2) count by simp
  moreover have "fine_step ar (f\<lparr>fn_alloc := A_Cas 0\<rparr>) (f\<lparr>fn_alloc := A_Fail\<rparr>)"
    using f_allocate [OF _ a_exhausted, of "f\<lparr>fn_alloc := A_Cas 0\<rparr>"] idle(1) by simp
  moreover have "fine_step ar (f\<lparr>fn_alloc := A_Fail\<rparr>) ?g"
    using f_exhausted [OF _ a_fail, of "f\<lparr>fn_alloc := A_Fail\<rparr>"] idle count by (simp add: allocate_exhausted)
  ultimately show ?thesis by (meson converse_rtranclp_into_rtranclp rtranclp.rtrancl_refl)
qed

text \<open>A call of \<open>deallocate\<close> up to the access in which it returns, in two parts: it claims a slot of the
  free list, and it fills the slot.\<close>

definition pending :: "ptr \<Rightarrow> BufferPool \<times> dealloc_pc \<Rightarrow> BufferPool \<times> dealloc_pc \<Rightarrow> bool" where
  "pending b x y \<longleftrightarrow> free_access b x y \<and> \<not> returned (snd y)"

definition claimed :: "BufferPool \<Rightarrow> ptr \<Rightarrow> BufferPool" where
  "claimed p b = (store p b ((deref p b)\<lparr>in_use := False\<rparr>))\<lparr>free_count := free_count p + 1\<rparr>"

lemma claim_accesses:
  assumes "0 < pool_base p" and "b \<in> pool_ptrs p" and "free_count p < PoolSize p"
  shows "(pending b)\<^sup>*\<^sup>* (p, D_Idle) (claimed p b, D_Push b (free_count p))"
proof -
  let ?q = "store p b ((deref p b)\<lparr>in_use := False\<rparr>)"
  have "pending b (p, D_Idle) (p, D_Unmark b)"
    using free_step [OF d_call, where b = b and ?b1 = b] assms(2) isValidBuffer_pool_ptrs [OF assms(2)]
      pool_ptrs_not_null [OF assms(1,2)] by (simp add: pending_def returned_def)
  moreover have "pending b (p, D_Unmark b) (?q, D_Load b)"
    using free_step [OF d_unmark, where b = b and ?b1 = b] by (simp add: pending_def returned_def)
  moreover have "pending b (?q, D_Load b) (?q, D_Cas b (free_count p))"
    using free_step [OF d_load, where b = b and ?b1 = b and p = ?q] assms(3) by (simp add: pending_def returned_def)
  moreover have "pending b (?q, D_Cas b (free_count p)) (claimed p b, D_Push b (free_count p))"
    using free_step [OF d_cas, where b = b and ?b1 = b and p = ?q] by (simp add: pending_def returned_def claimed_def)
  ultimately show ?thesis by (meson converse_rtranclp_into_rtranclp rtranclp.rtrancl_refl)
qed

lemma push_access: "pending b (p, D_Push b c) (p\<lparr>free_list := (free_list p)[c := b]\<rparr>, D_Count)"
  using free_step [OF d_push, where b = b and ?b1 = b] by (simp add: pending_def returned_def)

lemma return_access:
  "free_access b (p, D_Count) (p\<lparr>total_deallocations := total_deallocations p + 1\<rparr>, D_Idle)"
  using free_step [OF d_count, where b = b] by simp

lemma sub_pending:
  "(pending b)\<^sup>*\<^sup>* x y \<Longrightarrow> x = (sy_pool (fn_sys f), fn_drop f) \<Longrightarrow> sub_frees (sub_at (fn_sys f)) = Some b \<Longrightarrow>
   fine_reachable ar f (f\<lparr>fn_sys := (fn_sys f)\<lparr>sy_pool := fst y\<rparr>, fn_drop := snd y\<rparr>)"
proof (induction rule: rtranclp_induct)
  case base
  then show ?case by simp
next
  case (step y z)
  let ?g = "f\<lparr>fn_sys := (fn_sys f)\<lparr>sy_pool := fst y\<rparr>, fn_drop := snd y\<rparr>"
  have "fine_step ar ?g (f\<lparr>fn_sys := (fn_sys f)\<lparr>sy_pool := fst z\<rparr>, fn_drop := snd z\<rparr>)"
    using f_drop [of ?g b "fst z" "snd z" ar] step.hyps(2) step.prems(2) by (simp add: pending_def)
  with step.IH [OF step.prems] show ?case by simp
qed

lemma worker_pending:
  "(pending b)\<^sup>*\<^sup>* x y \<Longrightarrow> x = (sy_pool (fn_sys f), fn_free f) \<Longrightarrow>
   worker_frees (worker_at (fn_sys f)) = Some b \<Longrightarrow>
   fine_reachable ar f (f\<lparr>fn_sys := (fn_sys f)\<lparr>sy_pool := fst y\<rparr>, fn_free := snd y\<rparr>)"
proof (induction rule: rtranclp_induct)
  case base
  then show ?case by simp
next
  case (step y z)
  let ?g = "f\<lparr>fn_sys := (fn_sys f)\<lparr>sy_pool := fst y\<rparr>, fn_free := snd y\<rparr>"
  have "fine_step ar ?g (f\<lparr>fn_sys := (fn_sys f)\<lparr>sy_pool := fst z\<rparr>, fn_free := snd z\<rparr>)"
    using f_free [of ?g b "fst z" "snd z" ar] step.hyps(2) step.prems(2) by (simp add: pending_def)
  with step.IH [OF step.prems] show ?case by simp
qed

text \<open>Whole calls of \<open>deallocate\<close>, undisturbed, by either thread.\<close>

lemma deallocate_accesses:
  assumes "pool_inv p" and "b \<in> owned p"
  shows "\<exists>x. (pending b)\<^sup>*\<^sup>* (p, D_Idle) x \<and> free_access b x (deallocate p b, D_Idle)"
proof -
  have list: "0 < pool_base p" "b \<in> pool_ptrs p" "free_count p < PoolSize p"
    using assms owned_room [OF assms] by (simp_all add: pool_inv_def)
  let ?q = "(claimed p b)\<lparr>free_list := (free_list p)[free_count p := b]\<rparr>"
  have "(pending b)\<^sup>*\<^sup>* (p, D_Idle) (?q, D_Count)"
    using claim_accesses [OF list] push_access [of b "claimed p b" "free_count p"]
    by (simp add: claimed_def)
  moreover have "free_access b (?q, D_Count) (deallocate p b, D_Idle)"
    using return_access [of b ?q] by (simp add: deallocate_owned_eq [OF assms] claimed_def)
  ultimately show ?thesis by blast
qed

lemma sub_deallocates:
  assumes "pool_inv (sy_pool (fn_sys f))" and "b \<in> owned (sy_pool (fn_sys f))"
    and "fn_drop f = D_Idle" and frees: "sub_frees (sub_at (fn_sys f)) = Some b"
  shows "fine_reachable ar f
    (f\<lparr>fn_sys := sub_returns ((fn_sys f)\<lparr>sy_pool := deallocate (sy_pool (fn_sys f)) b\<rparr>)\<rparr>)"
proof -
  obtain p pc where x: "(pending b)\<^sup>*\<^sup>* (sy_pool (fn_sys f), D_Idle) (p, pc)"
      "free_access b (p, pc) (deallocate (sy_pool (fn_sys f)) b, D_Idle)"
    using deallocate_accesses [OF assms(1,2)] by auto
  let ?g = "f\<lparr>fn_sys := (fn_sys f)\<lparr>sy_pool := p\<rparr>, fn_drop := pc\<rparr>"
  have "fine_reachable ar f ?g"
    using sub_pending [OF x(1) _ frees] assms(3) by simp
  moreover have "fine_step ar ?g
      (f\<lparr>fn_sys := sub_returns ((fn_sys f)\<lparr>sy_pool := deallocate (sy_pool (fn_sys f)) b\<rparr>)\<rparr>)"
    using f_dropped [of ?g b "deallocate (sy_pool (fn_sys f)) b" D_Idle ar] x(2) frees assms(3)
    by (simp add: returned_def)
  ultimately show ?thesis by (rule rtranclp.rtrancl_into_rtrancl)
qed

lemma worker_deallocates:
  assumes "pool_inv (sy_pool (fn_sys f))" and "b \<in> owned (sy_pool (fn_sys f))"
    and "fn_free f = D_Idle" and frees: "worker_frees (worker_at (fn_sys f)) = Some b"
  shows "fine_reachable ar f
    (f\<lparr>fn_sys := worker_returns ((fn_sys f)\<lparr>sy_pool := deallocate (sy_pool (fn_sys f)) b\<rparr>)\<rparr>)"
proof -
  obtain p pc where x: "(pending b)\<^sup>*\<^sup>* (sy_pool (fn_sys f), D_Idle) (p, pc)"
      "free_access b (p, pc) (deallocate (sy_pool (fn_sys f)) b, D_Idle)"
    using deallocate_accesses [OF assms(1,2)] by auto
  let ?g = "f\<lparr>fn_sys := (fn_sys f)\<lparr>sy_pool := p\<rparr>, fn_free := pc\<rparr>"
  have "fine_reachable ar f ?g"
    using worker_pending [OF x(1) _ frees] assms(3) by simp
  moreover have "fine_step ar ?g
      (f\<lparr>fn_sys := worker_returns ((fn_sys f)\<lparr>sy_pool := deallocate (sy_pool (fn_sys f)) b\<rparr>)\<rparr>)"
    using f_freed [of ?g b "deallocate (sy_pool (fn_sys f)) b" D_Idle ar] x(2) frees assms(3)
    by (simp add: returned_def)
  ultimately show ?thesis by (rule rtranclp.rtrancl_into_rtrancl)
qed

section \<open>The coarse steps are runs of the fine ones\<close>

lemma fine_of_simps [simp]:
  "fn_sys (fine_of s) = s" "fn_alloc (fine_of s) = A_Idle" "fn_drop (fine_of s) = D_Idle"
  "fn_free (fine_of s) = D_Idle" "(fine_of s)\<lparr>fn_sys := t\<rparr> = fine_of t"
  by (simp_all add: fine_of_def)

lemma subscriber_step_fine:
  assumes "subscriber_step ar s t" and "resources_ok s"
  shows "fine_reachable ar (fine_of s) (fine_of t)"
proof -
  have inv: "pool_inv (sy_pool s)" using assms(2) by (simp add: resources_ok_def)
  from assms(1) show ?thesis
  proof cases
    case (s_allocate buf p t' d pos)
    then obtain c where c: "free_count (sy_pool s) = Suc c"
      using allocate_null_iff [OF inv] by (cases "free_count (sy_pool s)") auto
    then have "free_list (sy_pool s) ! c = buf"
      using s_allocate(3) by (auto simp: allocate_def Let_def)
    then show ?thesis
      using allocate_accesses [of "fine_of s" c ar t' d pos] s_allocate c by simp
  next
    case (s_exhausted buf p)
    then have "free_count (sy_pool s) = 0"
      using allocate_null_iff [OF inv] by simp
    then show ?thesis
      using exhausted_accesses [of "fine_of s" ar] s_exhausted by simp
  next
    case (s_drop_duplicate buf)
    then show ?thesis
      using sub_deallocates [of "fine_of s" buf ar] sub_held_owned [OF assms(2), of buf]
      by (simp add: sub_returns_def)
  next
    case (s_drop_full buf)
    then show ?thesis
      using sub_deallocates [of "fine_of s" buf ar] sub_held_owned [OF assms(2), of buf]
      by (simp add: sub_returns_def)
  qed (use f_subscriber [of ar "fine_of s" t] assms(1) in auto)
qed

lemma worker_step_fine:
  assumes "worker_step s t" and "resources_ok s"
  shows "fine_reachable ar (fine_of s) (fine_of t)"
  using assms(1)
proof cases
  case (w_release buf)
  then show ?thesis
    using worker_deallocates [of "fine_of s" buf ar] worker_held_owned [OF assms(2), of buf]
    by (simp add: worker_returns_def)
next
  case (w_drop_duplicate buf)
  then show ?thesis
    using worker_deallocates [of "fine_of s" buf ar] worker_held_owned [OF assms(2), of buf]
    by (simp add: worker_returns_def)
qed (use f_worker [of "fine_of s" t ar] assms(1) in auto)

lemma zc_step_fine:
  assumes "zc_step ar s t" and "zc_inv s"
  shows "fine_reachable ar (fine_of s) (fine_of t)" and "zc_inv t"
proof -
  have ok: "resources_ok s" using assms(2) by (simp add: zc_inv_def)
  from assms(1) subscriber_step_fine [OF _ ok] worker_step_fine [OF _ ok]
  show "fine_reachable ar (fine_of s) (fine_of t)" by blast
  from assms(1) have "zc_reachable ar s t" by (auto simp: zc_reachable_steps)
  then show "zc_inv t" using assms(2) by (rule zc_reachable_inv)
qed

interpretation pool_accesses: simulation "zc_step ar" "fine_step ar" "\<lambda>s f. zc_inv s \<and> f = fine_of s" for ar
  by unfold_locales (use zc_step_fine in blast)

lemma zc_reachable_fine:
  assumes "zc_reachable ar s0 s" and "zc_inv s0"
  shows "fine_reachable ar (fine_of s0) (fine_of s)"
  using pool_accesses.run_matched [of ar s0 s "fine_of s0"] assms by (auto simp: zc_reachable_steps)

section \<open>The window between the claim and the store\<close>

lemma claimed_simps [simp]:
  "free_count (claimed p b) = Suc (free_count p)" "free_list (claimed p b) = free_list p"
  "pool_ptrs (claimed p b) = pool_ptrs p" "pool_base (claimed p b) = pool_base p"
  by (simp_all add: claimed_def)

text \<open>What an allocation from any pool leaves in the buffer that it hands out.\<close>

lemma allocate_any:
  assumes "free_count p = Suc c" and "b = free_list p ! c" and "b \<in> pool_ptrs p"
  shows "header (deref (snd (allocate p)) b) = zero_header" "pool_ptrs (snd (allocate p)) = pool_ptrs p"
proof -
  define p2 where "p2 = store (p\<lparr>free_count := c\<rparr>) b ((deref p b)\<lparr>in_use := True\<rparr>)"
  have al: "snd (allocate p) = (store p2 b (reset (deref p2 b)))\<lparr>total_allocations := total_allocations p + 1\<rparr>"
    using assms(1,2) by (simp add: allocate_def Let_def p2_def)
  have b: "b \<in> pool_ptrs p2" using assms(3) by (simp add: p2_def)
  show "header (deref (snd (allocate p)) b) = zero_header"
    by (simp add: al deref_store(1) [OF b] reset_def)
  show "pool_ptrs (snd (allocate p)) = pool_ptrs p"
    by (simp add: al) (simp add: p2_def)
qed

text \<open>The subscriber's own part of a call, from the buffer in its hand to the end, with the other
  thread where it is.\<close>

lemma accept_from_copy:
  assumes at: "sub_at (fn_sys f) = S_Copy t d pos b" and b: "b \<in> pool_ptrs (sy_pool (fn_sys f))" "b \<noteq> nullptr"
    and zero: "header (buf_of (fn_sys f) b) = zero_header"
    and new: "\<not> isDuplicate (sy_sub (fn_sys f)) (number_of d)"
    and q: "mq_inv (sy_queue (fn_sys f))"
      "length (mq_contents (sy_queue (fn_sys f))) < mq_capacity (sy_queue (fn_sys f))"
  shows "\<exists>s m. fine_reachable ar f (f\<lparr>fn_sys := s\<rparr>) \<and> sub_at s = S_Idle
    \<and> worker_at s = worker_at (fn_sys f) \<and> taken s = taken (fn_sys f)
    \<and> accepted s = accepted (fn_sys f) @ [m] \<and> seq_of m = number_of d
    \<and> mq_contents (sy_queue s) = mq_contents (sy_queue (fn_sys f)) @ [b]
    \<and> sy_pool s = store (sy_pool (fn_sys f)) b m"
proof -
  let ?s = "fn_sys f"
  define m where "m = received_buffer (buf_of ?s b) d t"
  have n: "seq_of m = number_of d"
    by (simp add: m_def header_received_buffer [OF zero])
  define s1 where "s1 = ?s\<lparr>sy_pool := store (sy_pool ?s) b m, sub_at := S_Track pos b\<rparr>"
  define s2 where "s2 = s1\<lparr>sy_sub := tracked ar (seq_of (buf_of s1 b)) (sy_sub s1), sub_at := S_Enqueue pos b\<rparr>"
  define s3 where "s3 = s2\<lparr>sy_queue := snd (mq_enqueue (sy_queue s2) b),
    accepted := accepted s2 @ [buf_of s2 b], sub_at := S_Record pos b\<rparr>"
  define s4 where "s4 = s3\<lparr>sy_sub := recordReception 0 (seq_of (buf_of s3 b)) pos (sy_sub s3), sub_at := S_Idle\<rparr>"
  have m: "buf_of s1 b = m" "buf_of s2 b = m" using b(1) by (simp_all add: s2_def s1_def)
  have ok: "fst (mq_enqueue (sy_queue s2) b)"
    using mq_enqueue_accepts [OF q(1), of b] q(2) b(2) by (simp add: s2_def s1_def)
  have "subscriber_step ar ?s s1" unfolding s1_def m_def by (rule s_copy [OF at])
  then have "fine_step ar f (f\<lparr>fn_sys := s1\<rparr>)" by (rule f_subscriber) (simp_all add: at)
  moreover have "subscriber_step ar s1 s2"
    unfolding s2_def by (rule s_track) (use new in \<open>simp_all add: m n\<close>, simp_all add: s1_def)
  then have "fine_step ar (f\<lparr>fn_sys := s1\<rparr>) (f\<lparr>fn_sys := s2\<rparr>)"
    using f_subscriber [of ar "f\<lparr>fn_sys := s1\<rparr>" s2] by (simp add: s1_def)
  moreover have "subscriber_step ar s2 s3"
    unfolding s3_def using ok by (intro s_enqueue) (simp_all add: s2_def prod_eq_iff)
  then have "fine_step ar (f\<lparr>fn_sys := s2\<rparr>) (f\<lparr>fn_sys := s3\<rparr>)"
    using f_subscriber [of ar "f\<lparr>fn_sys := s2\<rparr>" s3] by (simp add: s2_def)
  moreover have "subscriber_step ar s3 s4"
    unfolding s4_def by (rule s_record) (simp add: s3_def)
  then have "fine_step ar (f\<lparr>fn_sys := s3\<rparr>) (f\<lparr>fn_sys := s4\<rparr>)"
    using f_subscriber [of ar "f\<lparr>fn_sys := s3\<rparr>" s4] by (simp add: s3_def)
  ultimately have "fine_reachable ar f (f\<lparr>fn_sys := s4\<rparr>)"
    by (meson converse_rtranclp_into_rtranclp rtranclp.rtrancl_refl)
  moreover have "mq_contents (sy_queue s4) = mq_contents (sy_queue ?s) @ [b]"
    using mq_enqueue_contents [OF q(1), of b] ok by (simp add: s4_def s3_def) (simp add: s2_def s1_def)
  moreover have "sub_at s4 = S_Idle \<and> worker_at s4 = worker_at ?s \<and> taken s4 = taken ?s
      \<and> accepted s4 = accepted ?s @ [m] \<and> sy_pool s4 = store (sy_pool ?s) b m"
    by (simp add: s4_def s3_def m) (simp add: s2_def s1_def)
  ultimately show ?thesis using n by blast
qed

text \<open>The worker has claimed the slot and not yet filled it; the subscriber's allocation finds what the
  slot held before. When that is a buffer in the queue, the next message is written over one that
  waits there.\<close>

lemma stale_slot_run:
  assumes inv: "zc_inv s" and idle: "sub_at s = S_Idle" and rel: "worker_at s = W_Release a"
    and b: "b = free_list (sy_pool s) ! free_count (sy_pool s)" "b \<in> set (mq_contents (sy_queue s))"
    and new: "\<not> isDuplicate (sy_sub s) (number_of d)"
  shows "\<exists>u m. fine_reachable ar (fine_of s) (fine_of u) \<and> sub_at u = S_Idle \<and> worker_at u = W_Idle
    \<and> taken u = taken s \<and> accepted u = accepted s @ [m] \<and> seq_of m = number_of d
    \<and> mq_contents (sy_queue u) = mq_contents (sy_queue s) @ [b] \<and> buf_of u b = m"
proof -
  let ?p = "sy_pool s" and ?c = "free_count (sy_pool s)"
  have res: "resources_ok s" using inv by (simp add: zc_inv_def)
  then have pool: "pool_inv ?p" "a \<in> owned ?p" using worker_held_owned [of s a] rel by simp_all
  have bp: "b \<in> pool_ptrs ?p" "b \<noteq> nullptr"
    using queue_not_held(1,2) [OF res b(2)] owned_room(3) [OF pool(1)] by simp_all
  define p1 where "p1 = claimed ?p a"
  define p2 where "p2 = snd (allocate p1)"
  note any = allocate_any [of p1 ?c b, folded p2_def]
  define f1 where "f1 = (fine_of s)\<lparr>fn_sys := s\<lparr>sy_pool := p1\<rparr>, fn_free := D_Push a ?c\<rparr>"
  have claim: "(pending a)\<^sup>*\<^sup>* (?p, D_Idle) (p1, D_Push a ?c)"
    unfolding p1_def
    by (rule claim_accesses) (use pool owned_room [OF pool] in \<open>simp_all add: pool_inv_def\<close>)
  have r1: "fine_reachable ar (fine_of s) f1"
    using worker_pending [OF claim, of "fine_of s" ar] rel by (simp add: f1_def)
  define f2 where "f2 = f1\<lparr>fn_sys := s\<lparr>sy_pool := p2, sub_at := S_Copy 0 d 0 b\<rparr>\<rparr>"
  have r2: "fine_reachable ar f1 f2"
  proof -
    have "fn_sys f1 = s\<lparr>sy_pool := p1\<rparr>" "fn_alloc f1 = A_Idle" by (simp_all add: f1_def)
    moreover have "free_count p1 = Suc ?c" "free_list p1 ! ?c = b" by (simp_all add: p1_def b(1))
    ultimately show ?thesis
      using allocate_accesses [of f1 ?c ar 0 d 0] idle by (simp add: f2_def p2_def)
  qed
  have "length (mq_contents (sy_queue s)) < length (places s)" using rel by (simp add: places_def)
  also have "\<dots> \<le> mq_capacity (sy_queue s)" using places_length [OF res] res unfolding resources_ok_def by linarith
  finally have room: "length (mq_contents (sy_queue s)) < mq_capacity (sy_queue s)" .
  obtain v m where v: "fine_reachable ar f2 (f2\<lparr>fn_sys := v\<rparr>)" "sub_at v = S_Idle" "worker_at v = W_Release a"
      "taken v = taken s" "accepted v = accepted s @ [m]" "seq_of m = number_of d"
      "mq_contents (sy_queue v) = mq_contents (sy_queue s) @ [b]" "sy_pool v = store p2 b m"
    using accept_from_copy [of f2 0 d 0 b ar] any b(1) bp new res room rel
    by (auto simp: f2_def p1_def resources_ok_def)
  let ?p3 = "sy_pool v"
  define p4 where "p4 = ?p3\<lparr>free_list := (free_list ?p3)[?c := a]\<rparr>"
  define p5 where "p5 = p4\<lparr>total_deallocations := total_deallocations p4 + 1\<rparr>"
  define f3 where "f3 = (fine_of v)\<lparr>fn_free := D_Push a ?c\<rparr>"
  define f4 where "f4 = (fine_of v)\<lparr>fn_sys := v\<lparr>sy_pool := p4\<rparr>, fn_free := D_Count\<rparr>"
  define u where "u = worker_returns (v\<lparr>sy_pool := p5\<rparr>)"
  have "f2\<lparr>fn_sys := v\<rparr> = f3" by (simp add: f2_def f1_def f3_def fine_of_def)
  with v(1) have r3: "fine_reachable ar f2 f3" by simp
  have r4: "fine_step ar f3 f4"
    using f_free [of f3 a p4 D_Count ar] push_access [of a ?p3 ?c] v(3)
    by (simp add: f3_def f4_def p4_def pending_def)
  have r5: "fine_step ar f4 (fine_of u)"
    using f_freed [of f4 a p5 D_Idle ar] return_access [of a p4] v(3)
    by (simp add: f4_def p5_def returned_def u_def) (simp add: fine_of_def)
  have "fine_reachable ar (fine_of s) (fine_of u)"
    using r1 r2 r3 r4 r5 by (meson rtranclp_trans rtranclp.rtrancl_into_rtrancl)
  moreover have "b \<in> pool_ptrs p2" using any(2) b(1) bp(1) by (simp add: p1_def)
  then have "buf_of u b = m" using v(8) v(3) by (simp add: u_def worker_returns_def p5_def p4_def)
  moreover have "sub_at u = S_Idle" "worker_at u = W_Idle" "taken u = taken v" "accepted u = accepted v"
    "mq_contents (sy_queue u) = mq_contents (sy_queue v)"
    using v(2,3) by (simp_all add: u_def worker_returns_def)
  ultimately show ?thesis using v(4-7) by auto
qed

section \<open>The system of \<open>main\<close>\<close>

lemma fine_step_size:
  assumes "fine_step ar f g" and "fine_inv f"
  shows "PoolSize (sy_pool (fn_sys g)) = PoolSize (sy_pool (fn_sys f))"
  using assms
proof (induction rule: fine_step.induct)
  case (f_subscriber f s)
  from f_subscriber(1) show ?case
    by cases (use f_subscriber in simp_all)
next
  case (f_worker f s)
  from f_worker(1) show ?case
    by cases (use f_worker in simp_all)
next
  case (f_dropped f b p pc)
  then show ?case
    using free_moves [OF f_dropped(2,4)]
    by (cases "sub_at (fn_sys f)") (simp_all add: sub_returns_def same_place_def)
next
  case (f_freed f b p pc)
  then show ?case
    using free_moves [OF f_freed(2,4)]
    by (cases "worker_at (fn_sys f)") (simp_all add: worker_returns_def same_place_def)
next
  case (f_exhausted f v)
  then show ?case
    using alloc_moves(1) [OF f_exhausted(2,1,4)] by (simp add: same_place_def)
qed (auto dest: alloc_moves(1) free_moves simp: same_place_def)

lemma fine_reachable_ok:
  "fine_reachable ar f g \<Longrightarrow> fine_inv f \<Longrightarrow>
     fine_inv g \<and> PoolSize (sy_pool (fn_sys g)) = PoolSize (sy_pool (fn_sys f))"
  by (induction rule: rtranclp_induct) (auto intro: fine_step_inv dest: fine_step_size)

lemma main_fine_inv:
  assumes mem: "main_memory base junk" and "zc_queue_full_failures sb = 0"
  shows "fine_inv (fine_of (main_system base junk sb k))"
    and "PoolSize (sy_pool (main_system base junk sb k)) = 1024"
proof -
  let ?p = "new_BufferPool base junk"
  have m: "0 < base" "length junk = 1024" "\<forall>j \<in> set junk. length j = MAX_PAYLOAD_SIZE"
    using mem by (simp_all add: main_memory_def)
  have size: "PoolSize ?p = 1024" "free_count ?p = 1024"
    using m by (simp_all add: new_BufferPool_def PoolSize_def)
  have "pool_inv ?p" using new_BufferPool_inv(1) [of base junk] m by (simp add: pool_size_ok_def)
  then have "list_ok ?p"
    using size by (auto simp: pool_inv_def list_ok_def free_ptrs_def)
  moreover have "size_is_pow2 4096" by (simp add: size_is_pow2_def)
  then have "mq_inv (new_MessageQueue 4096)" "mq_contents (new_MessageQueue 4096) = []"
    "mq_capacity (new_MessageQueue 4096) = 4095"
    by (simp_all add: mq_new_inv) (simp add: mq_capacity_def mq_Size_def new_MessageQueue_def)
  ultimately show "fine_inv (fine_of (main_system base junk sb k))"
    using size assms(2)
    by (simp add: fine_inv_def memory_ok_def calls_ok_def buffers_counted_def places_def main_system_def
        zc_system_init_def)
  show "PoolSize (sy_pool (main_system base junk sb k)) = 1024"
    using size by (simp add: main_system_def zc_system_init_def)
qed

lemma main_fine_ok:
  assumes "main_memory base junk" and "new_AeronSubscriber cfg = Inr sb"
    and "fine_reachable ar (fine_of (main_system base junk (sb\<lparr>sub_checkpoint := cp\<rparr>) k)) f"
  shows "fine_inv f" "PoolSize (sy_pool (fn_sys f)) = 1024"
proof -
  have "zc_queue_full_failures sb = 0"
    using main_system_ok [OF assms(1,2)] by (simp add: system_ok_def main_system_def zc_system_init_def)
  then show "fine_inv f" "PoolSize (sy_pool (fn_sys f)) = 1024"
    using fine_reachable_ok [OF assms(3)]
      main_fine_inv [OF assms(1), of "sb\<lparr>sub_checkpoint := cp\<rparr>"] by simp_all
qed

text \<open>An example: the subscriber accepts two messages and the worker is about to release the first.\<close>

lemma main_not_duplicate:
  assumes "zc_reachable ar example_main s" and "sub_at s = S_Idle"
    and "n \<notin> set (map seq_of (accepted s))" and "n \<noteq> - 1"
  shows "\<not> isDuplicate (sy_sub s) n"
proof -
  let ?init = "initial_window default_SubscriberConfig"
  have init: "?init = replicate 1000 (- 1)"
    by (simp add: initial_window_def default_SubscriberConfig_def)
  then have rem: "dedup.remembers ?init (map seq_of (accepted s)) (sy_sub s)"
    using main_reachable_ok [OF example_memory_ok example_new assms(1) [unfolded example_main_eq]] assms(2)
    by (simp add: system_ok_def numbers_def)
  have "set (drop k (?init @ map seq_of (accepted s))) \<subseteq> set (?init @ map seq_of (accepted s))" for k
    by (rule set_drop_subset)
  then have "n \<notin> set (drop (length (map seq_of (accepted s))) (?init @ map seq_of (accepted s)))"
    using assms(3,4) init by auto
  then show ?thesis
    using rem unfolding dedup.remembers_def by (metis isDuplicate_iff)
qed

lemma main_accepts:
  assumes reach: "zc_reachable example_archive example_main s" and idle: "sub_at s = S_Idle"
    and new: "n \<notin> set (map seq_of (accepted s))" "n \<noteq> - 1" and free: "free_count (sy_pool s) = Suc c"
  shows "\<exists>u m. zc_reachable example_archive example_main u \<and> sub_at u = S_Idle
    \<and> worker_at u = worker_at s \<and> sy_worker u = sy_worker s \<and> taken u = taken s
    \<and> accepted u = accepted s @ [m] \<and> seq_of m = n
    \<and> mq_contents (sy_queue u) = mq_contents (sy_queue s) @ [free_list (sy_pool s) ! c]
    \<and> free_count (sy_pool u) = c \<and> free_list (sy_pool u) = free_list (sy_pool s)"
proof -
  let ?w = "world_of s" and ?d = "example_message n" and ?b = "next_free (sy_pool s)"
  have inv: "zc_inv s" by (rule zc_reachable_inv [OF reach example_main_inv])
  have pool: "pool_inv (sy_pool s)" "mq_inv (sy_queue s)" using inv by (simp_all add: zc_inv_def resources_ok_def)
  have acc: "fast_path_outcome ?w ?d = Accepted"
    using idle_not_full [OF inv idle, of ?d] main_not_duplicate [OF reach idle new] free
    by (simp add: fast_path_outcome_def split: if_splits)
  obtain u where u: "zc_reachable example_archive example_main u" "sub_at u = S_Idle" "worker_at u = worker_at s"
      "sy_worker u = sy_worker s" "taken u = taken s" "accepted u = accepted s @ [buf_of u ?b]"
      "world_of u = handleMessageFastPath example_archive 9 10 ?d 4096 ?w"
    using message_call [OF reach inv idle, of 9 10 ?d 4096] acc by auto
  have w: "sy_pool u = receive_into ?d 9 (sy_pool s)" "sy_queue u = snd (mq_enqueue (sy_queue s) ?b)"
    using u(7) fast_path_accepted [of ?w ?d example_archive 9 10 4096] pool acc by (simp_all add: world_of_def)
  have "seq_of (buf_of u ?b) = n"
    using header_receive_into [OF pool(1), of ?d 9] free
    by (simp add: w(1))
  moreover have "?b = free_list (sy_pool s) ! c" by (simp add: next_free_def free)
  moreover have "mq_contents (sy_queue u) = mq_contents (sy_queue s) @ [?b]"
    using fast_path_taken [OF world_of_inv [OF inv] acc, of example_archive 9 10 4096]
    unfolding u(7) [symmetric] Let_def by simp
  moreover have "free_count (sy_pool u) = c" "free_list (sy_pool u) = free_list (sy_pool s)"
    using pool(1) free by (simp_all add: w(1) receive_into_eq)
  ultimately show ?thesis using u(1-6) by auto
qed

lemma zc_reachable_worker:
  "worker_step\<^sup>*\<^sup>* s t \<Longrightarrow> zc_reachable ar s0 s \<Longrightarrow> zc_reachable ar s0 t"
  by (induction rule: rtranclp_induct) (auto intro: zc_worker)

lemma race_example:
  "\<exists>s a m n. zc_reachable example_archive example_main s \<and> sub_at s = S_Idle \<and> worker_at s = W_Release a
    \<and> accepted s = [m, n] \<and> seq_of m = 5 \<and> seq_of n = 6 \<and> taken s = [m]
    \<and> mq_contents (sy_queue s) = [free_list (sy_pool s) ! free_count (sy_pool s)]"
proof -
  have s0: "sub_at example_main = S_Idle" "worker_at example_main = W_Idle" "accepted example_main = []"
    "taken example_main = []" "seen_sequences (sy_worker example_main) = {}"
    "free_count (sy_pool example_main) = Suc 1023" "mq_contents (sy_queue example_main) = []"
    by (simp_all add: example_main_def main_system_def zc_system_init_def new_MessageWorker_def
        new_BufferPool_def example_memory_def)
  obtain s1 m where s1: "zc_reachable example_archive example_main s1" "sub_at s1 = S_Idle" "worker_at s1 = W_Idle"
    "seen_sequences (sy_worker s1) = {}" "taken s1 = []" "accepted s1 = [m]" "seq_of m = 5"
    "mq_contents (sy_queue s1) = [free_list (sy_pool example_main) ! 1023]"
    "free_count (sy_pool s1) = Suc 1022" "free_list (sy_pool s1) = free_list (sy_pool example_main)"
    using main_accepts [OF zc_start s0(1) _ _ s0(6), of 5] s0 by auto
  obtain s2 n where s2: "zc_reachable example_archive example_main s2" "sub_at s2 = S_Idle" "worker_at s2 = W_Idle"
    "seen_sequences (sy_worker s2) = {}" "taken s2 = []" "accepted s2 = [m, n]" "seq_of n = 6"
    "mq_contents (sy_queue s2) = [free_list (sy_pool example_main) ! 1023, free_list (sy_pool example_main) ! 1022]"
    "free_count (sy_pool s2) = 1022" "free_list (sy_pool s2) = free_list (sy_pool example_main)"
    using main_accepts [OF s1(1,2) _ _ s1(9), of 6] s1 by auto
  have inv: "resources_ok s2" "data_ok s2"
    using zc_reachable_inv [OF s2(1) example_main_inv] by (simp_all add: zc_inv_def)
  have m: "buf_of s2 (free_list (sy_pool example_main) ! 1023) = m"
    using inv(2) s2(5,6,8) by (simp add: data_ok_def)
  obtain t where t: "worker_step\<^sup>*\<^sup>* s2 t" "worker_at t = W_Release (free_list (sy_pool example_main) ! 1023)"
    "mq_contents (sy_queue t) = [free_list (sy_pool example_main) ! 1022]" "taken t = [m]"
    "sub_at t = sub_at s2" "accepted t = accepted s2" "free_list (sy_pool t) = free_list (sy_pool s2)"
    "free_count (sy_pool t) = free_count (sy_pool s2)"
    using worker_takes [OF s2(3) inv(1) s2(8)] s2(4,5) m by auto
  have "zc_reachable example_archive example_main t" by (rule zc_reachable_worker [OF t(1) s2(1)])
  then show ?thesis
    using t s2 s1(7)
    by (intro exI [of _ t] exI [of _ "free_list (sy_pool example_main) ! 1023"] exI [of _ m] exI [of _ n]) simp
qed

section \<open>Properties\<close>

text \<open>What the pipeline keeps when the accesses of \<open>allocate\<close> and \<open>deallocate\<close> interleave with everything
  else the two threads do: every buffer of the pool is counted once, as free, in the queue, with a
  thread or in transit; every pointer in the free list, in the queue and with a thread is a buffer of
  the pool, and each access goes to a slot of the free list; the overflow branch of \<open>deallocate\<close> is never
  taken; and the queue is never full when the subscriber enqueues, so its failure counter stays zero.\<close>

theorem pipeline_accesses_safe:
  assumes "main_memory base junk" and "new_AeronSubscriber cfg = Inr sb"
    and "fine_reachable ar (fine_of (main_system base junk (sb\<lparr>sub_checkpoint := cp\<rparr>) k)) f"
  shows "free_count (sy_pool (fn_sys f)) + length (places (fn_sys f)) + alloc_transit (fn_alloc f)
       = 1024 + given_back (fn_drop f) + given_back (fn_free f)
     \<and> set (places (fn_sys f)) \<union> set (free_list (sy_pool (fn_sys f))) \<subseteq> pool_ptrs (sy_pool (fn_sys f))
     \<and> alloc_pc_ok (sy_pool (fn_sys f)) (fn_alloc f)
     \<and> dealloc_pc_ok (sy_pool (fn_sys f)) (fn_drop f) \<and> dealloc_pc_ok (sy_pool (fn_sys f)) (fn_free f)
     \<and> fn_drop f \<noteq> D_Overflow \<and> fn_free f \<noteq> D_Overflow
     \<and> \<not> (sub_at (fn_sys f) = S_Enqueue pos buf \<and> mq_full (sy_queue (fn_sys f)))
     \<and> zc_queue_full_failures (sy_sub (fn_sys f)) = 0"
proof -
  have ok: "fine_inv f" "PoolSize (sy_pool (fn_sys f)) = 1024" using main_fine_ok [OF assms] by simp_all
  have mem: "memory_ok (fn_sys f)" and calls: "calls_ok f" and count: "buffers_counted f"
    using ok(1) by (simp_all add: fine_inv_def)
  have "\<not> (sub_at (fn_sys f) = S_Enqueue pos buf \<and> mq_full (sy_queue (fn_sys f)))"
    using fine_counts(4) [OF ok(1), of pos buf] mem mq_full_iff [of "sy_queue (fn_sys f)"]
    by (auto simp: memory_ok_def)
  moreover have "fn_drop f \<noteq> D_Overflow" "fn_free f \<noteq> D_Overflow"
    using calls by (auto simp: calls_ok_def)
  ultimately show ?thesis
    using mem calls count ok(2) by (simp add: memory_ok_def calls_ok_def buffers_counted_def list_ok_def)
qed

theorem pipeline_accesses_safe_witness:
  "\<exists>f. fine_reachable example_archive (fine_of example_main) f \<and> length (accepted (fn_sys f)) = 1
     \<and> free_count (sy_pool (fn_sys f)) + length (places (fn_sys f)) = 1024"
proof -
  obtain u where u: "zc_reachable example_archive example_main u" "length (accepted u) = 1"
    using example_run by auto
  have "fine_reachable example_archive (fine_of example_main) (fine_of u)"
    by (rule zc_reachable_fine [OF u(1) example_main_inv])
  from pipeline_accesses_safe [OF example_memory_ok example_new this [unfolded example_main_eq]]
    this u(2) show ?thesis
    by (intro exI [of _ "fine_of u"]) simp
qed

text \<open>C21: Accepted messages can be overwritten in the queue. Whenever the worker is about to release a
  buffer while the first slot above the free count still holds a buffer that waits in the queue, the
  accesses of the two threads can interleave so that the next new message is received into that
  waiting buffer: it is accepted, the queue holds the buffer twice, and what the queue delivers is no
  longer what was accepted.\<close>

theorem pipeline_race_overwrites:
  assumes "main_memory base junk" and "new_AeronSubscriber cfg = Inr sb"
    and "zc_reachable ar (main_system base junk (sb\<lparr>sub_checkpoint := cp\<rparr>) k) s"
    and "sub_at s = S_Idle" and "worker_at s = W_Release a"
    and "b = free_list (sy_pool s) ! free_count (sy_pool s)" and "b \<in> set (mq_contents (sy_queue s))"
    and "\<not> isDuplicate (sy_sub s) (number_of d)" and "number_of d \<noteq> seq_of (buf_of s b)"
  shows "\<exists>u m. fine_reachable ar (fine_of (main_system base junk (sb\<lparr>sub_checkpoint := cp\<rparr>) k)) (fine_of u)
     \<and> accepted u = accepted s @ [m] \<and> seq_of m = number_of d \<and> taken u = taken s
     \<and> mq_contents (sy_queue u) = mq_contents (sy_queue s) @ [b] \<and> buf_of u b = m
     \<and> \<not> distinct (places u) \<and> accepted u \<noteq> taken u @ map (buf_of u) (mq_contents (sy_queue u))"
proof -
  have inv: "zc_inv (main_system base junk (sb\<lparr>sub_checkpoint := cp\<rparr>) k)" "zc_inv s"
    using main_system_ok [OF assms(1,2)] main_reachable_ok [OF assms(1-3)] by (simp_all add: system_ok_def)
  obtain u m where u: "fine_reachable ar (fine_of s) (fine_of u)" "taken u = taken s"
      "accepted u = accepted s @ [m]" "seq_of m = number_of d"
      "mq_contents (sy_queue u) = mq_contents (sy_queue s) @ [b]" "buf_of u b = m"
    using stale_slot_run [OF inv(2) assms(4-8), of ar] by blast
  have "accepted u \<noteq> taken u @ map (buf_of u) (mq_contents (sy_queue u))"
  proof
    assume "accepted u = taken u @ map (buf_of u) (mq_contents (sy_queue u))"
    then have "map (buf_of s) (mq_contents (sy_queue s)) = map (buf_of u) (mq_contents (sy_queue s))"
      using inv(2) u by (simp add: zc_inv_def data_ok_def)
    then have "buf_of s b = m" using assms(7) u(6) by auto
    then show False using assms(9) u(4) by simp
  qed
  moreover have "\<not> distinct (places u)" using assms(7) u(5) by (simp add: places_def)
  moreover have "fine_reachable ar (fine_of (main_system base junk (sb\<lparr>sub_checkpoint := cp\<rparr>) k)) (fine_of u)"
    using zc_reachable_fine [OF assms(3) inv(1)] u(1) by (rule rtranclp_trans)
  ultimately show ?thesis using u by blast
qed

theorem pipeline_race_overwrites_witness:
  "\<exists>u. fine_reachable example_archive (fine_of example_main) (fine_of u)
     \<and> map seq_of (accepted u) = [5, 6, 7] \<and> map seq_of (taken u) = [5]
     \<and> map (\<lambda>b. seq_of (buf_of u b)) (mq_contents (sy_queue u)) = [7, 7]"
proof -
  obtain s a m n where s: "zc_reachable example_archive example_main s" "sub_at s = S_Idle"
      "worker_at s = W_Release a" "accepted s = [m, n]" "seq_of m = 5" "seq_of n = 6" "taken s = [m]"
      "mq_contents (sy_queue s) = [free_list (sy_pool s) ! free_count (sy_pool s)]"
    using race_example by blast
  have "buf_of s (free_list (sy_pool s) ! free_count (sy_pool s)) = n"
    using zc_reachable_inv [OF s(1) example_main_inv] s(4,7,8) by (simp add: zc_inv_def data_ok_def)
  moreover have "\<not> isDuplicate (sy_sub s) 7" by (rule main_not_duplicate [OF s(1,2)]) (simp_all add: s)
  ultimately obtain u x where "fine_reachable example_archive (fine_of example_main) (fine_of u)"
      "accepted u = [m, n, x]" "seq_of x = 7" "taken u = [m]"
      "mq_contents (sy_queue u) = [free_list (sy_pool s) ! free_count (sy_pool s),
         free_list (sy_pool s) ! free_count (sy_pool s)]"
      "buf_of u (free_list (sy_pool s) ! free_count (sy_pool s)) = x"
    using pipeline_race_overwrites [OF example_memory_ok example_new s(1) [unfolded example_main_eq] s(2,3) refl,
        of "example_message 7"] s(4,6,7,8)
    by (auto simp flip: example_main_eq)
  then show ?thesis using s(5,6) by (intro exI [of _ u]) simp
qed

end
