(* ===== verification/Pipeline_Queue.thy ===== *)
theory Pipeline_Queue
  imports Message_Queue_Steps Zero_Copy_System Simulation
begin

text \<open>
  The zero-copy pipeline with the message queue at the grain of its accesses to shared memory:
  the call of \<open>enqueue\<close> in \<open>handleMessageFastPath\<close> and that of \<open>dequeue\<close> in \<open>workerThreadMain\<close> run through
  the program points of \<open>Message_Queue_Steps\<close>, and the other thread may move between any two of
  them. Every such run is a run of \<open>Zero_Copy_System\<close>, so what is proved there of the whole
  operations holds of their accesses as well.
\<close>

section \<open>State\<close>

record queue_system =
  qs_sys :: zc_system
  qs_prod :: producer_pc
  qs_cons :: consumer_pc

definition queue_of :: "zc_system \<Rightarrow> queue_system" where
  "queue_of s = \<lparr>qs_sys = s, qs_prod = P_Idle, qs_cons = C_Idle\<rparr>"

text \<open>The two calls as \<open>Message_Queue_Steps\<close> has them.\<close>

definition calls_view :: "queue_system \<Rightarrow> mq_threads" where
  "calls_view f =
     \<lparr>ring = sy_queue (qs_sys f), producer = qs_prod f, consumer = qs_cons f, sent = [], received = []\<rparr>"

section \<open>Steps\<close>

text \<open>An access of the two calls. A call begins with the subscriber's own buffer; what it publishes is recorded as accepted, and what
  the worker's call takes out as taken.\<close>

inductive queue_access :: "queue_system \<Rightarrow> queue_system \<Rightarrow> bool" where
  q_null: "sub_at (qs_sys f) = S_Enqueue pos nullptr \<Longrightarrow> qs_prod f = P_Idle \<Longrightarrow>
     queue_access f (f\<lparr>qs_sys := (qs_sys f)\<lparr>sub_at := S_Drop_full nullptr\<rparr>\<rparr>)"
| q_enqueue: "sub_at (qs_sys f) = S_Enqueue pos buf \<Longrightarrow> producer_step (calls_view f) v \<Longrightarrow>
     (qs_prod f = P_Idle \<longrightarrow> (\<exists>t n. producer v = P_LoadHead buf t n)) \<Longrightarrow> producer v \<noteq> P_Idle \<Longrightarrow>
     queue_access f
       (f\<lparr>qs_sys := (qs_sys f)
            \<lparr>sy_queue := ring v, accepted := accepted (qs_sys f) @ map (buf_of (qs_sys f)) (sent v)\<rparr>,
          qs_prod := producer v\<rparr>)"
| q_enqueued: "sub_at (qs_sys f) = S_Enqueue pos buf \<Longrightarrow> qs_prod f = P_Count \<Longrightarrow>
     producer_step (calls_view f) v \<Longrightarrow>
     queue_access f
       (f\<lparr>qs_sys := (qs_sys f)\<lparr>sy_queue := ring v, sub_at := S_Record pos buf\<rparr>, qs_prod := P_Idle\<rparr>)"
| q_full: "sub_at (qs_sys f) = S_Enqueue pos buf \<Longrightarrow> qs_prod f = P_Fail \<Longrightarrow>
     producer_step (calls_view f) v \<Longrightarrow>
     queue_access f
       (f\<lparr>qs_sys := (qs_sys f)\<lparr>sy_queue := ring v, sub_at := S_Drop_full buf\<rparr>, qs_prod := P_Idle\<rparr>)"
| q_dequeue: "worker_at (qs_sys f) = W_Dequeue \<Longrightarrow> consumer_step (calls_view f) v \<Longrightarrow> consumer v \<noteq> C_Idle \<Longrightarrow>
     queue_access f
       (f\<lparr>qs_sys := (qs_sys f)
            \<lparr>sy_queue := ring v, taken := taken (qs_sys f) @ map (buf_of (qs_sys f)) (received v)\<rparr>,
          qs_cons := consumer v\<rparr>)"
| q_dequeued: "worker_at (qs_sys f) = W_Dequeue \<Longrightarrow> qs_cons f = C_Count buf \<Longrightarrow>
     consumer_step (calls_view f) v \<Longrightarrow>
     queue_access f
       (f\<lparr>qs_sys := (qs_sys f)\<lparr>sy_queue := ring v, worker_at := W_Stamp buf\<rparr>, qs_cons := C_Idle\<rparr>)"
| q_empty: "worker_at (qs_sys f) = W_Dequeue \<Longrightarrow> qs_cons f = C_LoadTail h \<Longrightarrow>
     consumer_step (calls_view f) v \<Longrightarrow> consumer v = C_Idle \<Longrightarrow>
     queue_access f
       (f\<lparr>qs_sys := (qs_sys f)
            \<lparr>sy_queue := ring v,
             sy_worker := (sy_worker (qs_sys f))
               \<lparr>queue_empty_count := queue_empty_count (sy_worker (qs_sys f)) + 1\<rparr>,
             worker_at := W_Idle\<rparr>,
          qs_cons := C_Idle\<rparr>)"

inductive queue_step :: "archive_client \<Rightarrow> queue_system \<Rightarrow> queue_system \<Rightarrow> bool" for ar where
  q_subscriber: "subscriber_step ar (qs_sys f) s \<Longrightarrow> (\<And>pos buf. sub_at (qs_sys f) \<noteq> S_Enqueue pos buf) \<Longrightarrow>
     queue_step ar f (f\<lparr>qs_sys := s\<rparr>)"
| q_worker: "worker_step (qs_sys f) s \<Longrightarrow> worker_at (qs_sys f) \<noteq> W_Dequeue \<Longrightarrow>
     queue_step ar f (f\<lparr>qs_sys := s\<rparr>)"
| q_access: "queue_access f g \<Longrightarrow> queue_step ar f g"

abbreviation queue_reachable :: "archive_client \<Rightarrow> queue_system \<Rightarrow> queue_system \<Rightarrow> bool" where
  "queue_reachable ar \<equiv> (queue_step ar)\<^sup>*\<^sup>*"

section \<open>What a call has done so far\<close>

text \<open>An \<open>enqueue\<close> counts as done when the tail has moved, or when the ring was found full; a \<open>dequeue\<close>
  when the head has moved, or when the ring was found empty.\<close>

fun sub_done :: "producer_pc \<Rightarrow> sub_pc \<Rightarrow> sub_pc" where
  "sub_done P_Count (S_Enqueue pos buf) = S_Record pos buf"
| "sub_done P_Fail (S_Enqueue pos buf) = S_Drop_full buf"
| "sub_done _ pc = pc"

fun worker_done :: "consumer_pc \<Rightarrow> worker_pc \<Rightarrow> worker_pc" where
  "worker_done (C_Count buf) W_Dequeue = W_Stamp buf"
| "worker_done _ pc = pc"

definition queue_matches :: "MessageQueue \<Rightarrow> producer_pc \<Rightarrow> consumer_pc \<Rightarrow> MessageQueue \<Rightarrow> bool" where
  "queue_matches r p c q \<longleftrightarrow>
     mq_threads_inv (mq_Size q) \<lparr>ring = r, producer = p, consumer = c, sent = mq_contents q, received = []\<rparr>
     \<and> mq_inv q \<and> mq_head q = mq_head r \<and> mq_tail q = mq_tail r
     \<and> total_enqueued q = total_enqueued r + of_bool (p = P_Count)
     \<and> total_dequeued q = total_dequeued r + of_bool (\<exists>buf. c = C_Count buf)
     \<and> enqueue_failures q = enqueue_failures r + of_bool (p = P_Fail)"

fun producer_buffer :: "producer_pc \<Rightarrow> ptr \<Rightarrow> bool" where
  "producer_buffer (P_LoadHead b t n) buf = (b = buf)"
| "producer_buffer (P_Store b t n) buf = (b = buf)"
| "producer_buffer (P_Publish b n) buf = (b = buf)"
| "producer_buffer _ buf = True"

definition calls_placed :: "queue_system \<Rightarrow> bool" where
  "calls_placed f \<longleftrightarrow>
     (qs_prod f \<noteq> P_Idle \<longrightarrow> (\<exists>pos buf. sub_at (qs_sys f) = S_Enqueue pos buf \<and> producer_buffer (qs_prod f) buf))
     \<and> (qs_cons f \<noteq> C_Idle \<longrightarrow> worker_at (qs_sys f) = W_Dequeue)"

definition coarse :: "queue_system \<Rightarrow> MessageQueue \<Rightarrow> zc_system" where
  "coarse f q =
     (qs_sys f)\<lparr>sy_queue := q, sub_at := sub_done (qs_prod f) (sub_at (qs_sys f)),
       worker_at := worker_done (qs_cons f) (worker_at (qs_sys f))\<rparr>"

definition matches_coarse :: "queue_system \<Rightarrow> zc_system \<Rightarrow> bool" where
  "matches_coarse f c \<longleftrightarrow>
     calls_placed f \<and> (\<exists>q. c = coarse f q \<and> queue_matches (sy_queue (qs_sys f)) (qs_prod f) (qs_cons f) q)"


section \<open>One access against the whole operation\<close>

lemma mq_threads_inv_pending:
  assumes "mq_threads_inv n v" and "sent v = received v @ xs"
  shows "mq_threads_inv n \<lparr>ring = ring v, producer = producer v, consumer = consumer v, sent = xs, received = []\<rparr>"
  using assms by (auto simp: mq_threads_inv_def pending_ok_def)

lemma queue_matchesD:
  assumes "queue_matches r p c q"
  shows "mq_inv r" "mq_inv q" "mq_Size r = mq_Size q" "producer_ok r p" "consumer_ok r (mq_contents q) c"
    "ring_holds r c (mq_contents q)" "mq_head q = mq_head r" "mq_tail q = mq_tail r" "mq_next q = mq_next r"
    "nullptr \<notin> set (mq_contents q)"
  using assms
  by (auto simp: queue_matches_def mq_threads_inv_def pending_ok_def mq_next_def fun_eq_iff)

text \<open>A step of a call, seen with all the pointers in the queue as sent and none as received.\<close>

lemma view_producer:
  assumes "producer_step \<lparr>ring = r, producer = p, consumer = c, sent = [], received = []\<rparr> v"
  shows "producer_step \<lparr>ring = r, producer = p, consumer = c, sent = xs, received = []\<rparr>
      (v\<lparr>sent := xs @ sent v\<rparr>)"
    and "consumer v = c" "received v = []"
  using assms by (auto simp: producer_step.simps)

lemma view_consumer:
  assumes "consumer_step \<lparr>ring = r, producer = p, consumer = c, sent = [], received = []\<rparr> v"
  shows "consumer_step \<lparr>ring = r, producer = p, consumer = c, sent = xs, received = []\<rparr> (v\<lparr>sent := xs\<rparr>)"
    and "producer v = p" "sent v = []"
  using assms by (auto simp: consumer_step.simps)

lemma enqueue_access:
  assumes m: "queue_matches r p c q"
    and step: "producer_step \<lparr>ring = r, producer = p, consumer = c, sent = [], received = []\<rparr> v"
  shows "\<exists>q'. queue_matches (ring v) (producer v) c q'
    \<and> (case producer v of
         P_Count \<Rightarrow> \<exists>buf. sent v = [buf] \<and> producer_buffer p buf \<and> mq_enqueue q buf = (True, q')
       | P_Fail \<Rightarrow> sent v = [] \<and> (\<forall>buf. producer_buffer p buf \<longrightarrow> mq_enqueue q buf = (False, q'))
       | _ \<Rightarrow> sent v = [] \<and> q' = q)"
proof -
  note d = queue_matchesD [OF m]
  let ?v = "v\<lparr>sent := mq_contents q @ sent v\<rparr>"
  have inv: "mq_threads_inv (mq_Size q) ?v"
    using producer_step_inv [OF view_producer(1) [OF step]] m by (simp add: queue_matches_def)
  from step show ?thesis
  proof cases
    case (p_full buf t n)
    have b: "buf \<noteq> nullptr" "n = mq_head r" "n = mq_next r (mq_tail r)" using p_full d(4) by auto
    define q' where "q' = q\<lparr>enqueue_failures := enqueue_failures q + 1\<rparr>"
    have "mq_enqueue q buf = (False, q')"
      using b d(7-9) by (simp add: mq_enqueue_def Let_def q'_def)
    moreover have "queue_matches (ring v) (producer v) c q'"
      using inv m p_full by (simp add: queue_matches_def q'_def)
    ultimately show ?thesis using p_full by auto
  next
    case (p_publish buf n)
    have b: "buf \<noteq> nullptr" "n \<noteq> mq_head r" "n = mq_next r (mq_tail r)" using p_publish d(4) by auto
    define q' where "q' = q\<lparr>mq_buffer := (mq_buffer q)[unat (mq_tail q) := buf], mq_tail := n,
      total_enqueued := total_enqueued q + 1\<rparr>"
    have e: "mq_enqueue q buf = (True, q')"
      using b d(7-9) by (simp add: mq_enqueue_def Let_def q'_def)
    have "mq_contents q' = mq_contents q @ [buf]" "mq_inv q'" "mq_Size q' = mq_Size q"
      using mq_enqueue_pair [OF d(2) e] by simp_all (simp add: q'_def)
    then have "queue_matches (ring v) (producer v) c q'"
      using inv m p_publish by (simp add: queue_matches_def) (simp add: q'_def)
    then show ?thesis using p_publish e by auto
  qed (use inv m in \<open>auto simp: queue_matches_def\<close>)
qed

lemma dequeue_access:
  assumes m: "queue_matches r p c q"
    and step: "consumer_step \<lparr>ring = r, producer = p, consumer = c, sent = [], received = []\<rparr> v"
  shows "\<exists>q'. queue_matches (ring v) p (consumer v) q'
    \<and> (case consumer v of
         C_Count buf \<Rightarrow> received v = [buf] \<and> mq_dequeue q = (Some buf, q')
       | C_Idle \<Rightarrow> received v = [] \<and> q' = q \<and> ((\<exists>h. c = C_LoadTail h) \<longrightarrow> mq_dequeue q = (None, q))
       | _ \<Rightarrow> received v = [] \<and> q' = q)"
proof -
  note d = queue_matchesD [OF m]
  let ?v = "v\<lparr>sent := mq_contents q\<rparr>"
  have inv: "mq_threads_inv (mq_Size q) ?v"
    using consumer_step_inv [OF view_consumer(1) [OF step]] m by (simp add: queue_matches_def)
  from step show ?thesis
  proof cases
    case (c_empty h)
    have "mq_head q = mq_tail q" using c_empty d(5,7,8) by simp
    then have "mq_dequeue q = (None, q)" by (simp add: mq_dequeue_def)
    then show ?thesis
      using inv m c_empty by (intro exI [of _ q]) (simp add: queue_matches_def)
  next
    case (c_publish buf h)
    have b: "h = mq_head r" "h \<noteq> mq_tail r" "buf = hd (mq_contents q)" using c_publish d(5) by auto
    then have "mq_contents q \<noteq> []" "hd (mq_contents q) = mq_buffer q ! unat (mq_head q)"
      using advance_head_contents [OF d(2)] d(7,8) by auto
    define q' where "q' = q\<lparr>mq_buffer := (mq_buffer q)[unat (mq_head q) := nullptr],
      mq_head := mq_next q (mq_head q), total_dequeued := total_dequeued q + 1\<rparr>"
    have e: "mq_dequeue q = (Some buf, q')"
      using b d(7,8) \<open>hd (mq_contents q) = _\<close> by (simp add: mq_dequeue_def Let_def q'_def)
    have q': "mq_contents q' = tl (mq_contents q)" "mq_inv q'" "mq_Size q' = mq_Size q"
      using mq_dequeue_pair [OF d(2) e] by simp_all (simp add: q'_def)
    have "mq_contents q = [buf] @ mq_contents q'"
      using q'(1) b(3) \<open>mq_contents q \<noteq> []\<close> by simp
    then have "mq_threads_inv (mq_Size q) \<lparr>ring = ring v, producer = p, consumer = consumer v,
        sent = mq_contents q', received = []\<rparr>"
      using mq_threads_inv_pending [OF inv, of "mq_contents q'"] c_publish by simp
    then have "queue_matches (ring v) p (consumer v) q'"
      using m c_publish q' d(9) b(1) by (simp add: queue_matches_def) (simp add: q'_def)
    then show ?thesis using c_publish e by auto
  qed (use inv m in \<open>auto simp: queue_matches_def\<close>)
qed


section \<open>Steps that do not use the queue\<close>

lemma subscriber_step_keeps:
  assumes "subscriber_step ar s t" and "\<And>pos buf. sub_at s \<noteq> S_Enqueue pos buf"
  shows "sy_queue t = sy_queue s \<and> worker_at t = worker_at s"
  using assms by cases auto

lemma subscriber_step_queue:
  assumes "subscriber_step ar s t" and "\<And>pos buf. sub_at s \<noteq> S_Enqueue pos buf"
  shows "subscriber_step ar (s\<lparr>sy_queue := q, worker_at := w\<rparr>) (t\<lparr>sy_queue := q, worker_at := w\<rparr>)"
proof -
  let ?s = "s\<lparr>sy_queue := q, worker_at := w\<rparr>"
  from assms(1) show ?thesis
  proof cases
    case (s_allocate buf p tm d pos)
    then show ?thesis using subscriber_step.s_allocate [of ?s buf p ar tm d pos] by (cases s) simp
  next
    case (s_exhausted buf p)
    then show ?thesis using subscriber_step.s_exhausted [of ?s buf p ar] by (cases s) simp
  next
    case (s_copy tm d pos buf)
    then show ?thesis using subscriber_step.s_copy [of ?s tm d pos buf ar] by (cases s) simp
  next
    case (s_duplicate pos buf)
    then show ?thesis using subscriber_step.s_duplicate [of ?s pos buf ar] by (cases s) simp
  next
    case (s_track pos buf)
    then show ?thesis using subscriber_step.s_track [of ?s pos buf ar] by (cases s) simp
  next
    case (s_drop_duplicate buf)
    then show ?thesis using subscriber_step.s_drop_duplicate [of ?s buf ar] by (cases s) simp
  next
    case (s_drop_full buf)
    then show ?thesis using subscriber_step.s_drop_full [of ?s buf ar] by (cases s) simp
  next
    case (s_record pos buf now)
    then show ?thesis using subscriber_step.s_record [of ?s pos buf ar now] by (cases s) simp
  qed (use assms(2) in auto)
qed

lemma worker_step_keeps:
  assumes "worker_step s t" and "worker_at s \<noteq> W_Dequeue"
  shows "sy_queue t = sy_queue s \<and> sub_at t = sub_at s"
  using assms by cases auto

lemma worker_step_queue:
  assumes "worker_step s t" and "worker_at s \<noteq> W_Dequeue" and "mq_size q = mq_size (sy_queue s)"
  shows "worker_step (s\<lparr>sy_queue := q, sub_at := p\<rparr>) (t\<lparr>sy_queue := q, sub_at := p\<rparr>)"
proof -
  let ?s = "s\<lparr>sy_queue := q, sub_at := p\<rparr>"
  from assms(1) show ?thesis
  proof cases
    case w_sample
    then show ?thesis using worker_step.w_sample [of ?s] assms(3) by (cases s) simp
  next
    case (w_stamp buf now)
    then show ?thesis using worker_step.w_stamp [of ?s buf now] by (cases s) simp
  next
    case (w_duplicate buf k)
    then show ?thesis using worker_step.w_duplicate [of ?s buf k] by (cases s) simp
  next
    case (w_new buf k)
    then show ?thesis using worker_step.w_new [of ?s buf k] by (cases s) simp
  next
    case (w_process buf elapsed)
    then show ?thesis using worker_step.w_process [of ?s buf elapsed] by (cases s) (simp cong: if_cong)
  next
    case (w_monitor buf)
    then show ?thesis using worker_step.w_monitor [of ?s buf] by (cases s) simp
  next
    case (w_release buf)
    then show ?thesis using worker_step.w_release [of ?s buf] by (cases s) simp
  next
    case (w_drop_duplicate buf)
    then show ?thesis using worker_step.w_drop_duplicate [of ?s buf] by (cases s) simp
  qed (use assms(2) in simp_all)
qed


section \<open>The accesses refine the operations\<close>

text \<open>One whole operation on the queue.\<close>

definition queue_op :: "archive_client \<Rightarrow> zc_system \<Rightarrow> zc_system \<Rightarrow> bool" where
  "queue_op ar c c' \<longleftrightarrow>
     subscriber_step ar c c' \<and> (\<exists>pos buf. sub_at c = S_Enqueue pos buf) \<or> worker_step c c' \<and> worker_at c = W_Dequeue"

lemma matched_once:
  "zc_step ar c c' \<Longrightarrow> matches_coarse g c' \<Longrightarrow> \<exists>c'. (zc_step ar)\<^sup>*\<^sup>* c c' \<and> matches_coarse g c'"
  by blast

lemma matched_enqueue:
  "subscriber_step ar c c' \<Longrightarrow> matches_coarse g c' \<Longrightarrow> sub_at c = S_Enqueue pos buf \<Longrightarrow>
    \<exists>c'. (queue_op ar)\<^sup>=\<^sup>= c c' \<and> matches_coarse g c'"
  unfolding queue_op_def by blast

lemma matched_dequeue:
  "worker_step c c' \<Longrightarrow> matches_coarse g c' \<Longrightarrow> worker_at c = W_Dequeue \<Longrightarrow>
    \<exists>c'. (queue_op ar)\<^sup>=\<^sup>= c c' \<and> matches_coarse g c'"
  unfolding queue_op_def by blast

lemma matches_coarseI:
  "calls_placed f \<Longrightarrow> queue_matches (sy_queue (qs_sys f)) (qs_prod f) (qs_cons f) q \<Longrightarrow> coarse f q = c \<Longrightarrow>
    matches_coarse f c"
  by (auto simp: matches_coarse_def)

lemma stutter:
  "coarse g q = c \<Longrightarrow> matches_coarse g (coarse g q) \<Longrightarrow>
    \<exists>c'. (queue_op ar)\<^sup>=\<^sup>= c c' \<and> matches_coarse g c'"
  by blast

lemma sub_done_id: "p \<noteq> P_Count \<Longrightarrow> p \<noteq> P_Fail \<Longrightarrow> sub_done p pc = pc"
  by (cases p) auto

lemma sub_done_other: "(\<And>pos buf. pc \<noteq> S_Enqueue pos buf) \<Longrightarrow> sub_done p pc = pc"
  by (cases p; cases pc) auto

lemma worker_done_id: "\<nexists>buf. c = C_Count buf \<Longrightarrow> worker_done c pc = pc"
  by (cases c) auto

lemma worker_done_other: "pc \<noteq> W_Dequeue \<Longrightarrow> worker_done c pc = pc"
  by (cases c; cases pc) auto

lemma queue_matches_size: "queue_matches r p c q \<Longrightarrow> mq_size q = mq_size r"
  by (frule queue_matchesD(3), frule queue_matchesD(7), frule queue_matchesD(8)) (simp add: mq_size_def)

lemma coarse_subscriber:
  assumes step: "subscriber_step ar (qs_sys f) s" and other: "\<And>pos buf. sub_at (qs_sys f) \<noteq> S_Enqueue pos buf"
    and m: "matches_coarse f c"
  shows "\<exists>c'. (zc_step ar)\<^sup>*\<^sup>* c c' \<and> matches_coarse (f\<lparr>qs_sys := s\<rparr>) c'"
proof -
  obtain q where q: "c = coarse f q" "queue_matches (sy_queue (qs_sys f)) (qs_prod f) (qs_cons f) q"
    and placed: "calls_placed f" using m by (auto simp: matches_coarse_def)
  note keeps = subscriber_step_keeps [OF step other]
  have idle: "qs_prod f = P_Idle" using placed other by (auto simp: calls_placed_def)
  have "subscriber_step ar (coarse f q) (coarse (f\<lparr>qs_sys := s\<rparr>) q)"
    using subscriber_step_queue [OF step other, where q = q and w = "worker_done (qs_cons f) (worker_at (qs_sys f))"] keeps idle
    by (simp add: coarse_def sub_done_id)
  moreover have "matches_coarse (f\<lparr>qs_sys := s\<rparr>) (coarse (f\<lparr>qs_sys := s\<rparr>) q)"
    using q(2) placed keeps idle by (auto simp: matches_coarse_def calls_placed_def)
  ultimately show ?thesis unfolding q(1) by (blast intro: matched_once)
qed

lemma coarse_worker:
  assumes step: "worker_step (qs_sys f) s" and other: "worker_at (qs_sys f) \<noteq> W_Dequeue"
    and m: "matches_coarse f c"
  shows "\<exists>c'. (zc_step ar)\<^sup>*\<^sup>* c c' \<and> matches_coarse (f\<lparr>qs_sys := s\<rparr>) c'"
proof -
  obtain q where q: "c = coarse f q" "queue_matches (sy_queue (qs_sys f)) (qs_prod f) (qs_cons f) q"
    and placed: "calls_placed f" using m by (auto simp: matches_coarse_def)
  note keeps = worker_step_keeps [OF step other]
  have idle: "qs_cons f = C_Idle" using placed other by (auto simp: calls_placed_def)
  have "worker_step (coarse f q) (coarse (f\<lparr>qs_sys := s\<rparr>) q)"
    using worker_step_queue [OF step other queue_matches_size [OF q(2)],
        where p = "sub_done (qs_prod f) (sub_at (qs_sys f))"] keeps idle
    by (cases s) (simp add: coarse_def worker_done_id)
  moreover have "matches_coarse (f\<lparr>qs_sys := s\<rparr>) (coarse (f\<lparr>qs_sys := s\<rparr>) q)"
    using q(2) placed keeps idle by (auto simp: matches_coarse_def calls_placed_def)
  ultimately show ?thesis unfolding q(1) by (blast intro: matched_once)
qed


lemma producer_step_placed:
  assumes "producer_step x v" and "producer v \<noteq> P_Idle"
  shows "producer x \<noteq> P_Count \<and> producer x \<noteq> P_Fail
    \<and> (producer x \<noteq> P_Idle \<longrightarrow> producer_buffer (producer x) buf \<longrightarrow> producer_buffer (producer v) buf)"
  using assms by cases auto

lemma coarse_enqueue:
  assumes pc: "sub_at (qs_sys f) = S_Enqueue pos buf" and step: "producer_step (calls_view f) v"
    and starts: "qs_prod f = P_Idle \<longrightarrow> (\<exists>t n. producer v = P_LoadHead buf t n)"
    and busy: "producer v \<noteq> P_Idle" and m: "matches_coarse f c"
  shows "\<exists>c'. (queue_op ar)\<^sup>=\<^sup>= c c' \<and> matches_coarse (f\<lparr>qs_sys := (qs_sys f)\<lparr>sy_queue := ring v,
      accepted := accepted (qs_sys f) @ map (buf_of (qs_sys f)) (sent v)\<rparr>, qs_prod := producer v\<rparr>) c'"
    (is "\<exists>c'. _ \<and> matches_coarse ?f c'")
proof -
  obtain q where q: "c = coarse f q" "queue_matches (sy_queue (qs_sys f)) (qs_prod f) (qs_cons f) q"
    and placed: "calls_placed f" using m by (auto simp: matches_coarse_def)
  obtain q' where q': "queue_matches (ring v) (producer v) (qs_cons f) q'"
    and does: "case producer v of
         P_Count \<Rightarrow> \<exists>buf. sent v = [buf] \<and> producer_buffer (qs_prod f) buf \<and> mq_enqueue q buf = (True, q')
       | P_Fail \<Rightarrow> sent v = [] \<and> (\<forall>buf. producer_buffer (qs_prod f) buf \<longrightarrow> mq_enqueue q buf = (False, q'))
       | _ \<Rightarrow> sent v = [] \<and> q' = q"
    using enqueue_access [OF q(2) step [unfolded calls_view_def]] by blast
  note next_pc = producer_step_placed [OF step busy, of buf]
  have here: "qs_prod f \<noteq> P_Idle \<longrightarrow> producer_buffer (qs_prod f) buf"
    using placed pc by (auto simp: calls_placed_def)
  have placed': "calls_placed ?f"
    using placed pc next_pc starts here by (auto simp: calls_placed_def calls_view_def)
  have matched: "matches_coarse ?f (coarse ?f q')"
    using placed' q' by (auto simp: matches_coarse_def)
  have c: "c = (qs_sys f)\<lparr>sy_queue := q, worker_at := worker_done (qs_cons f) (worker_at (qs_sys f))\<rparr>"
    using q(1) next_pc pc by (simp add: coarse_def calls_view_def sub_done_id)
  consider (P_Count) "producer v = P_Count" | (P_Fail) "producer v = P_Fail" | (stay) "coarse ?f q' = c"
    using does busy c pc by (cases "producer v"; cases "qs_sys f") (auto simp: coarse_def)
  then show ?thesis
  proof cases
    case P_Count
    then obtain b where b: "sent v = [b]" "producer_buffer (qs_prod f) b" "mq_enqueue q b = (True, q')"
      using does by auto
    have "b = buf" using step b P_Count here starts by cases (auto simp: calls_view_def)
    then have "subscriber_step ar c (coarse ?f q')"
      using s_enqueue [of c pos buf q' ar] c pc b P_Count by (cases "qs_sys f") (simp add: coarse_def)
    then show ?thesis using matched by (rule matched_enqueue [where pos = pos and buf = buf]) (simp add: c pc)
  next
    case P_Fail
    then have e: "sent v = []" "mq_enqueue q buf = (False, q')" using does here starts by auto
    then have "subscriber_step ar c (coarse ?f q')"
      using s_full [of c pos buf q' ar] c pc P_Fail e by (cases "qs_sys f") (simp add: coarse_def)
    then show ?thesis using matched by (rule matched_enqueue [where pos = pos and buf = buf]) (simp add: c pc)
  qed (use does busy matched c pc in \<open>auto simp: coarse_def\<close>)
qed


lemma coarse_enqueue_end:
  assumes pc: "sub_at (qs_sys f) = S_Enqueue pos buf" and at_end: "qs_prod f = P_Count \<or> qs_prod f = P_Fail"
    and step: "producer_step (calls_view f) v" and m: "matches_coarse f c"
  shows "matches_coarse (f\<lparr>qs_sys := (qs_sys f)\<lparr>sy_queue := ring v,
      sub_at := sub_done (qs_prod f) (sub_at (qs_sys f))\<rparr>, qs_prod := P_Idle\<rparr>) c"
    (is "matches_coarse ?f c")
proof -
  obtain q where q: "c = coarse f q" "queue_matches (sy_queue (qs_sys f)) (qs_prod f) (qs_cons f) q"
    and placed: "calls_placed f" using m by (auto simp: matches_coarse_def)
  have idle: "producer v = P_Idle" using step at_end by cases (auto simp: calls_view_def)
  then have "queue_matches (ring v) P_Idle (qs_cons f) q"
    using enqueue_access [OF q(2) step [unfolded calls_view_def]] by auto
  moreover have "calls_placed ?f" using placed by (simp add: calls_placed_def)
  moreover have "coarse ?f q = coarse f q" by (cases "qs_sys f") (simp add: coarse_def)
  ultimately show ?thesis using q(1) by (intro matches_coarseI [of _ q]) simp_all
qed

lemma coarse_null:
  assumes pc: "sub_at (qs_sys f) = S_Enqueue pos nullptr" and idle: "qs_prod f = P_Idle"
    and m: "matches_coarse f c"
  shows "\<exists>c'. (queue_op ar)\<^sup>=\<^sup>= c c'
    \<and> matches_coarse (f\<lparr>qs_sys := (qs_sys f)\<lparr>sub_at := S_Drop_full nullptr\<rparr>\<rparr>) c'"
    (is "\<exists>c'. _ \<and> matches_coarse ?f c'")
proof -
  obtain q where q: "c = coarse f q" "queue_matches (sy_queue (qs_sys f)) (qs_prod f) (qs_cons f) q"
    and placed: "calls_placed f" using m by (auto simp: matches_coarse_def)
  have "mq_enqueue q nullptr = (False, q)" by (simp add: mq_enqueue_def)
  then have "subscriber_step ar c (coarse ?f q)"
    using s_full [of c pos nullptr q ar] q(1) pc idle by (cases "qs_sys f") (simp add: coarse_def)
  moreover have "matches_coarse ?f (coarse ?f q)"
    using placed q(2) idle by (auto simp: matches_coarse_def calls_placed_def)
  ultimately show ?thesis by (intro matched_enqueue [where pos = pos and buf = nullptr]) (simp_all add: q(1) coarse_def pc idle)
qed

lemma consumer_step_pc:
  assumes "consumer_step x v"
  shows "(\<exists>buf. consumer x = C_Count buf) \<longrightarrow> consumer v = C_Idle"
    and "consumer v = C_Idle \<longrightarrow> (\<exists>h. consumer x = C_LoadTail h) \<or> (\<exists>buf. consumer x = C_Count buf)"
  using assms by (cases; auto)+

lemma coarse_dequeue:
  assumes pc: "worker_at (qs_sys f) = W_Dequeue" and step: "consumer_step (calls_view f) v"
    and busy: "consumer v \<noteq> C_Idle" and m: "matches_coarse f c"
  shows "\<exists>c'. (queue_op ar)\<^sup>=\<^sup>= c c' \<and> matches_coarse (f\<lparr>qs_sys := (qs_sys f)\<lparr>sy_queue := ring v,
      taken := taken (qs_sys f) @ map (buf_of (qs_sys f)) (received v)\<rparr>, qs_cons := consumer v\<rparr>) c'"
    (is "\<exists>c'. _ \<and> matches_coarse ?f c'")
proof -
  obtain q where q: "c = coarse f q" "queue_matches (sy_queue (qs_sys f)) (qs_prod f) (qs_cons f) q"
    and placed: "calls_placed f" using m by (auto simp: matches_coarse_def)
  obtain q' where q': "queue_matches (ring v) (qs_prod f) (consumer v) q'"
    and does: "case consumer v of
         C_Count buf \<Rightarrow> received v = [buf] \<and> mq_dequeue q = (Some buf, q')
       | C_Idle \<Rightarrow> received v = [] \<and> q' = q \<and> ((\<exists>h. qs_cons f = C_LoadTail h) \<longrightarrow> mq_dequeue q = (None, q))
       | _ \<Rightarrow> received v = [] \<and> q' = q"
    using dequeue_access [OF q(2) step [unfolded calls_view_def]] by blast
  have matched: "matches_coarse ?f (coarse ?f q')"
    using placed pc q' by (auto simp: matches_coarse_def calls_placed_def)
  have "\<nexists>buf. qs_cons f = C_Count buf" using consumer_step_pc(1) [OF step] busy by (auto simp: calls_view_def)
  then have c: "c = (qs_sys f)\<lparr>sy_queue := q, sub_at := sub_done (qs_prod f) (sub_at (qs_sys f))\<rparr>"
    using q(1) by (cases "qs_sys f") (simp add: coarse_def worker_done_id)
  consider (C_Count) b where "consumer v = C_Count b" | (stay) "coarse ?f q' = c"
    using does busy c pc by (cases "consumer v"; cases "qs_sys f") (auto simp: coarse_def)
  then show ?thesis
  proof cases
    case (C_Count b)
    then have "worker_step c (coarse ?f q')"
      using w_dequeue [of c b q'] c pc does by (cases "qs_sys f") (simp add: coarse_def)
    then show ?thesis using matched by (rule matched_dequeue) (simp add: c pc)
  next
    case stay
    then show ?thesis using matched by (rule stutter)
  qed
qed

lemma coarse_dequeue_end:
  assumes pc: "worker_at (qs_sys f) = W_Dequeue" and at_end: "qs_cons f = C_Count buf"
    and step: "consumer_step (calls_view f) v" and m: "matches_coarse f c"
  shows "matches_coarse (f\<lparr>qs_sys := (qs_sys f)\<lparr>sy_queue := ring v, worker_at := W_Stamp buf\<rparr>,
      qs_cons := C_Idle\<rparr>) c"
    (is "matches_coarse ?f c")
proof -
  obtain q where q: "c = coarse f q" "queue_matches (sy_queue (qs_sys f)) (qs_prod f) (qs_cons f) q"
    and placed: "calls_placed f" using m by (auto simp: matches_coarse_def)
  have idle: "consumer v = C_Idle" using consumer_step_pc(1) [OF step] at_end by (simp add: calls_view_def)
  then have "queue_matches (ring v) (qs_prod f) C_Idle q"
    using dequeue_access [OF q(2) step [unfolded calls_view_def]] by auto
  moreover have "calls_placed ?f" using placed by (simp add: calls_placed_def)
  moreover have "coarse ?f q = coarse f q" using pc at_end by (cases "qs_sys f") (simp add: coarse_def)
  ultimately show ?thesis using q(1) by (intro matches_coarseI [of _ q]) simp_all
qed

lemma coarse_empty:
  assumes pc: "worker_at (qs_sys f) = W_Dequeue" and load: "qs_cons f = C_LoadTail h"
    and step: "consumer_step (calls_view f) v" and idle: "consumer v = C_Idle" and m: "matches_coarse f c"
  shows "\<exists>c'. (queue_op ar)\<^sup>=\<^sup>= c c' \<and> matches_coarse (f\<lparr>qs_sys := (qs_sys f)\<lparr>sy_queue := ring v,
      sy_worker := (sy_worker (qs_sys f))\<lparr>queue_empty_count := queue_empty_count (sy_worker (qs_sys f)) + 1\<rparr>,
      worker_at := W_Idle\<rparr>, qs_cons := C_Idle\<rparr>) c'"
    (is "\<exists>c'. _ \<and> matches_coarse ?f c'")
proof -
  obtain q where q: "c = coarse f q" "queue_matches (sy_queue (qs_sys f)) (qs_prod f) (qs_cons f) q"
    and placed: "calls_placed f" using m by (auto simp: matches_coarse_def)
  have q': "queue_matches (ring v) (qs_prod f) C_Idle q" "mq_dequeue q = (None, q)"
    using dequeue_access [OF q(2) step [unfolded calls_view_def]] idle load by auto
  then have "worker_step c (coarse ?f q)"
    using w_empty [of c q] q(1) pc load by (cases "qs_sys f") (simp add: coarse_def)
  moreover have "matches_coarse ?f (coarse ?f q)"
    using placed q' by (auto simp: matches_coarse_def calls_placed_def)
  ultimately show ?thesis by (intro matched_dequeue) (simp_all add: q(1) coarse_def pc load)
qed

lemma queue_access_matched:
  assumes m: "matches_coarse f c" and step: "queue_access f f'"
  shows "\<exists>c'. (queue_op ar)\<^sup>=\<^sup>= c c' \<and> matches_coarse f' c'"
  using step
proof cases
  case (q_null pos)
  then show ?thesis using coarse_null m by blast
next
  case (q_enqueue pos buf v)
  then show ?thesis using coarse_enqueue m by blast
next
  case (q_enqueued pos buf v)
  then have "matches_coarse f' c" using coarse_enqueue_end [of f pos buf v c] m by simp
  then show ?thesis by blast
next
  case (q_full pos buf v)
  then have "matches_coarse f' c" using coarse_enqueue_end [of f pos buf v c] m by simp
  then show ?thesis by blast
next
  case (q_dequeue v)
  then show ?thesis using coarse_dequeue m by blast
next
  case (q_dequeued buf v)
  then have "matches_coarse f' c" using coarse_dequeue_end [of f buf v c] m by simp
  then show ?thesis by blast
next
  case (q_empty h v)
  then show ?thesis using coarse_empty m by blast
qed

lemma queue_step_matched:
  assumes m: "matches_coarse f c" and step: "queue_step ar f f'"
  shows "\<exists>c'. (zc_step ar)\<^sup>*\<^sup>* c c' \<and> matches_coarse f' c'"
  using step
proof cases
  case (q_subscriber s)
  then show ?thesis using coarse_subscriber m by blast
next
  case (q_worker s)
  then show ?thesis using coarse_worker m by blast
next
  case q_access
  then obtain c' where "(queue_op ar)\<^sup>=\<^sup>= c c'" "matches_coarse f' c'" using queue_access_matched [OF m] by blast
  then show ?thesis by (auto simp: queue_op_def intro: matched_once)
qed

interpretation queue_accesses: simulation "queue_step ar" "zc_step ar" matches_coarse for ar
  by unfold_locales (rule queue_step_matched)


section \<open>Whole calls are runs of accesses\<close>

lemma queue_of_simps [simp]:
  "qs_sys (queue_of s) = s" "qs_prod (queue_of s) = P_Idle" "qs_cons (queue_of s) = C_Idle"
  by (simp_all add: queue_of_def)

lemma enqueue_begins:
  assumes pc: "sub_at s = S_Enqueue pos buf" and buf: "buf \<noteq> nullptr"
  shows "queue_access (queue_of s) \<lparr>qs_sys = s,
      qs_prod = P_LoadHead buf (mq_tail (sy_queue s)) (mq_next (sy_queue s) (mq_tail (sy_queue s))), qs_cons = C_Idle\<rparr>"
  using q_enqueue [of "queue_of s" pos buf, OF _ p_load_tail [of "calls_view (queue_of s)" buf]] pc buf
  by (cases s) (simp add: calls_view_def queue_of_def)

lemma enqueue_stores:
  assumes pc: "sub_at s = S_Enqueue pos buf" and n: "n \<noteq> mq_head (sy_queue s)"
  shows "queue_access\<^sup>*\<^sup>* (\<lparr>qs_sys = s, qs_prod = P_LoadHead buf t n, qs_cons = c\<rparr>)
    (\<lparr>qs_sys = s\<lparr>sy_queue := (sy_queue s)\<lparr>mq_buffer := (mq_buffer (sy_queue s))[unat t := buf], mq_tail := n\<rparr>,
        accepted := accepted s @ [buf_of s buf]\<rparr>, qs_prod = P_Count, qs_cons = c\<rparr>)"
proof -
  let ?f = "\<lambda>s p. \<lparr>qs_sys = s, qs_prod = p, qs_cons = c\<rparr>"
  let ?t = "s\<lparr>sy_queue := (sy_queue s)\<lparr>mq_buffer := (mq_buffer (sy_queue s))[unat t := buf]\<rparr>\<rparr>"
  have "queue_access (?f s (P_LoadHead buf t n)) (?f s (P_Store buf t n))"
    using q_enqueue [of "?f s (P_LoadHead buf t n)" pos buf, OF _ p_room [of "calls_view (?f s (P_LoadHead buf t n))" buf t n]]
      pc n by (simp add: calls_view_def)
  moreover have "queue_access (?f s (P_Store buf t n)) (?f ?t (P_Publish buf n))"
    using q_enqueue [of "?f s (P_Store buf t n)" pos buf, OF _ p_store [of "calls_view (?f s (P_Store buf t n))" buf t n]]
      pc by (simp add: calls_view_def)
  moreover have "queue_access (?f ?t (P_Publish buf n))
      (?f (?t\<lparr>sy_queue := (sy_queue ?t)\<lparr>mq_tail := n\<rparr>, accepted := accepted ?t @ [buf_of ?t buf]\<rparr>) P_Count)"
    using q_enqueue [of "?f ?t (P_Publish buf n)" pos buf, OF _ p_publish [of "calls_view (?f ?t (P_Publish buf n))" buf n]]
      pc by (simp add: calls_view_def)
  ultimately show ?thesis by simp
qed

lemma enqueue_run:
  assumes pc: "sub_at s = S_Enqueue pos buf" and enq: "mq_enqueue (sy_queue s) buf = (True, q)"
  shows "queue_access\<^sup>*\<^sup>* (queue_of s)
    (queue_of (s\<lparr>sy_queue := q, accepted := accepted s @ [buf_of s buf], sub_at := S_Record pos buf\<rparr>))"
proof -
  let ?n = "mq_next (sy_queue s) (mq_tail (sy_queue s))"
  have buf: "buf \<noteq> nullptr" and n: "?n \<noteq> mq_head (sy_queue s)"
    and q: "q = (sy_queue s)\<lparr>mq_buffer := (mq_buffer (sy_queue s))[unat (mq_tail (sy_queue s)) := buf],
      mq_tail := ?n, total_enqueued := total_enqueued (sy_queue s) + 1\<rparr>"
    using enq by (auto simp: mq_enqueue_def Let_def split: if_splits)
  let ?f = "\<lparr>qs_sys = s\<lparr>sy_queue := (sy_queue s)\<lparr>mq_buffer := (mq_buffer (sy_queue s))[unat (mq_tail (sy_queue s)) := buf],
      mq_tail := ?n\<rparr>, accepted := accepted s @ [buf_of s buf]\<rparr>, qs_prod = P_Count, qs_cons = C_Idle\<rparr>"
  have "queue_access ?f
      (queue_of (s\<lparr>sy_queue := q, accepted := accepted s @ [buf_of s buf], sub_at := S_Record pos buf\<rparr>))"
    using q_enqueued [of ?f pos buf, OF _ _ p_count [of "calls_view ?f"]] pc
    by (cases s) (simp add: calls_view_def queue_of_def q)
  with enqueue_begins [OF pc buf] enqueue_stores [OF pc n] show ?thesis
    by (meson converse_rtranclp_into_rtranclp rtranclp.rtrancl_into_rtrancl)
qed

lemma full_run:
  assumes pc: "sub_at s = S_Enqueue pos buf" and enq: "mq_enqueue (sy_queue s) buf = (False, q)"
  shows "queue_access\<^sup>*\<^sup>* (queue_of s) (queue_of (s\<lparr>sy_queue := q, sub_at := S_Drop_full buf\<rparr>))"
proof (cases "buf = nullptr")
  case True
  then have "q = sy_queue s" using enq by (simp add: mq_enqueue_def)
  then have "queue_access (queue_of s) (queue_of (s\<lparr>sy_queue := q, sub_at := S_Drop_full buf\<rparr>))"
    using q_null [of "queue_of s" pos] pc True by (cases s) (simp add: queue_of_def)
  then show ?thesis by blast
next
  case False
  let ?n = "mq_next (sy_queue s) (mq_tail (sy_queue s))"
  let ?f = "\<lambda>p. \<lparr>qs_sys = s, qs_prod = p, qs_cons = C_Idle\<rparr>"
  have n: "?n = mq_head (sy_queue s)"
    and q: "q = (sy_queue s)\<lparr>enqueue_failures := enqueue_failures (sy_queue s) + 1\<rparr>"
    using enq False by (auto simp: mq_enqueue_def Let_def split: if_splits)
  have "queue_access (?f (P_LoadHead buf (mq_tail (sy_queue s)) ?n)) (?f P_Fail)"
    using q_enqueue [of "?f (P_LoadHead buf (mq_tail (sy_queue s)) ?n)" pos buf, OF _
        p_full [of "calls_view (?f (P_LoadHead buf (mq_tail (sy_queue s)) ?n))"]] pc n
    by (cases s) (simp add: calls_view_def)
  moreover have "queue_access (?f P_Fail) (queue_of (s\<lparr>sy_queue := q, sub_at := S_Drop_full buf\<rparr>))"
    using q_full [of "?f P_Fail" pos buf, OF _ _ p_fail [of "calls_view (?f P_Fail)"]] pc
    by (cases s) (simp add: calls_view_def queue_of_def q)
  ultimately show ?thesis using enqueue_begins [OF pc False]
    by (meson converse_rtranclp_into_rtranclp rtranclp.rtrancl_refl)
qed

lemma dequeue_begins:
  assumes pc: "worker_at s = W_Dequeue"
  shows "queue_access (queue_of s) \<lparr>qs_sys = s, qs_prod = P_Idle, qs_cons = C_LoadTail (mq_head (sy_queue s))\<rparr>"
  using q_dequeue [of "queue_of s", OF _ c_load_head [of "calls_view (queue_of s)"]] pc
  by (cases s) (simp add: calls_view_def queue_of_def)

lemma empty_run:
  assumes pc: "worker_at s = W_Dequeue" and deq: "mq_dequeue (sy_queue s) = (None, q)"
  shows "queue_access\<^sup>*\<^sup>* (queue_of s)
    (queue_of (s\<lparr>sy_queue := q,
       sy_worker := (sy_worker s)\<lparr>queue_empty_count := queue_empty_count (sy_worker s) + 1\<rparr>, worker_at := W_Idle\<rparr>))"
    (is "queue_access\<^sup>*\<^sup>* _ (queue_of ?t)")
proof -
  let ?f = "\<lparr>qs_sys = s, qs_prod = P_Idle, qs_cons = C_LoadTail (mq_head (sy_queue s))\<rparr>"
  have q: "q = sy_queue s" and e: "mq_head (sy_queue s) = mq_tail (sy_queue s)"
    using deq by (auto simp: mq_dequeue_def Let_def split: if_splits)
  have "queue_access ?f (queue_of ?t)"
    using q_empty [of ?f, OF _ _ c_empty [of "calls_view ?f" "mq_head (sy_queue s)"]] pc e
    by (cases s) (simp add: calls_view_def queue_of_def q)
  with dequeue_begins [OF pc] show ?thesis
    by (meson converse_rtranclp_into_rtranclp rtranclp.rtrancl_refl)
qed

lemma dequeue_reads:
  assumes pc: "worker_at s = W_Dequeue" and h: "h \<noteq> mq_tail (sy_queue s)"
    and buf: "buf = mq_buffer (sy_queue s) ! unat h"
  shows "queue_access\<^sup>*\<^sup>* \<lparr>qs_sys = s, qs_prod = p, qs_cons = C_LoadTail h\<rparr>
    \<lparr>qs_sys = s\<lparr>sy_queue := (sy_queue s)\<lparr>mq_buffer := (mq_buffer (sy_queue s))[unat h := nullptr]\<rparr>\<rparr>, qs_prod = p,
       qs_cons = C_Publish buf h\<rparr>"
proof -
  let ?f = "\<lambda>s c. \<lparr>qs_sys = s, qs_prod = p, qs_cons = c\<rparr>"
  have "queue_access (?f s (C_LoadTail h)) (?f s (C_Read h))"
    using q_dequeue [of "?f s (C_LoadTail h)", OF _ c_some [of "calls_view (?f s (C_LoadTail h))" h]] pc h
    by (simp add: calls_view_def)
  moreover have "queue_access (?f s (C_Read h)) (?f s (C_Clear buf h))"
    using q_dequeue [of "?f s (C_Read h)", OF _ c_read [of "calls_view (?f s (C_Read h))" h]] pc buf
    by (simp add: calls_view_def)
  moreover have "queue_access (?f s (C_Clear buf h))
      (?f (s\<lparr>sy_queue := (sy_queue s)\<lparr>mq_buffer := (mq_buffer (sy_queue s))[unat h := nullptr]\<rparr>\<rparr>) (C_Publish buf h))"
    using q_dequeue [of "?f s (C_Clear buf h)", OF _ c_clear [of "calls_view (?f s (C_Clear buf h))" buf h]] pc
    by (simp add: calls_view_def)
  ultimately show ?thesis by simp
qed

lemma dequeue_publishes:
  assumes pc: "worker_at s = W_Dequeue"
  shows "queue_access\<^sup>*\<^sup>* \<lparr>qs_sys = s, qs_prod = P_Idle, qs_cons = C_Publish buf h\<rparr>
    (queue_of (s\<lparr>sy_queue := (sy_queue s)\<lparr>mq_head := mq_next (sy_queue s) h,
        total_dequeued := total_dequeued (sy_queue s) + 1\<rparr>,
       taken := taken s @ [buf_of s buf], worker_at := W_Stamp buf\<rparr>))"
    (is "queue_access\<^sup>*\<^sup>* ?f (queue_of ?t)")
proof -
  let ?g = "\<lparr>qs_sys = s\<lparr>sy_queue := (sy_queue s)\<lparr>mq_head := mq_next (sy_queue s) h\<rparr>,
      taken := taken s @ [buf_of s buf]\<rparr>, qs_prod = P_Idle, qs_cons = C_Count buf\<rparr>"
  have "queue_access ?f ?g"
    using q_dequeue [of ?f, OF _ c_publish [of "calls_view ?f" buf h]] pc by (simp add: calls_view_def)
  moreover have "queue_access ?g (queue_of ?t)"
    using q_dequeued [of ?g buf, OF _ _ c_count [of "calls_view ?g" buf]] pc
    by (cases s) (simp add: calls_view_def queue_of_def)
  ultimately show ?thesis by (meson converse_rtranclp_into_rtranclp rtranclp.rtrancl_refl)
qed

lemma dequeue_run:
  assumes pc: "worker_at s = W_Dequeue" and deq: "mq_dequeue (sy_queue s) = (Some buf, q)"
  shows "queue_access\<^sup>*\<^sup>* (queue_of s)
    (queue_of (s\<lparr>sy_queue := q, taken := taken s @ [buf_of s buf], worker_at := W_Stamp buf\<rparr>))"
proof -
  let ?h = "mq_head (sy_queue s)"
  have h: "?h \<noteq> mq_tail (sy_queue s)" and buf: "buf = mq_buffer (sy_queue s) ! unat ?h"
    and q: "q = (sy_queue s)\<lparr>mq_buffer := (mq_buffer (sy_queue s))[unat ?h := nullptr],
      mq_head := mq_next (sy_queue s) ?h, total_dequeued := total_dequeued (sy_queue s) + 1\<rparr>"
    using deq by (auto simp: mq_dequeue_def Let_def split: if_splits)
  let ?s = "s\<lparr>sy_queue := (sy_queue s)\<lparr>mq_buffer := (mq_buffer (sy_queue s))[unat ?h := nullptr]\<rparr>\<rparr>"
  have "queue_access\<^sup>*\<^sup>* \<lparr>qs_sys = ?s, qs_prod = P_Idle, qs_cons = C_Publish buf ?h\<rparr>
    (queue_of (s\<lparr>sy_queue := q, taken := taken s @ [buf_of s buf], worker_at := W_Stamp buf\<rparr>))"
    using dequeue_publishes [of ?s buf ?h] pc by (simp add: q mq_next_def)
  with dequeue_begins [OF pc] dequeue_reads [OF pc h buf] show ?thesis
    by (meson converse_rtranclp_into_rtranclp rtranclp_trans)
qed

lemma queue_op_accesses:
  assumes "queue_op ar s t"
  shows "queue_access\<^sup>*\<^sup>* (queue_of s) (queue_of t)"
  using assms unfolding queue_op_def
proof (elim disjE conjE exE)
  fix pos buf
  assume "subscriber_step ar s t" "sub_at s = S_Enqueue pos buf"
  then show ?thesis by cases (auto intro: enqueue_run full_run)
next
  assume "worker_step s t" "worker_at s = W_Dequeue"
  then show ?thesis by cases (auto intro: dequeue_run empty_run)
qed

lemma queue_accesses_reachable: "queue_access\<^sup>*\<^sup>* f g \<Longrightarrow> queue_reachable ar f g"
  by (rule rtranclp_mono [THEN predicate2D]) (auto intro: q_access)

lemma zc_step_queue:
  assumes "zc_step ar s t"
  shows "queue_reachable ar (queue_of s) (queue_of t)"
proof (cases "queue_op ar s t")
  case True
  then show ?thesis by (intro queue_accesses_reachable queue_op_accesses)
next
  case False
  then have "queue_step ar (queue_of s) (queue_of t)"
    using q_subscriber [of ar "queue_of s" t] q_worker [of "queue_of s" t ar] assms
    by (auto simp: queue_of_def queue_op_def)
  then show ?thesis by blast
qed

interpretation queue_operations: simulation "zc_step ar" "queue_step ar" "\<lambda>s f. f = queue_of s" for ar
  by unfold_locales (use zc_step_queue in blast)

section \<open>The system of \<open>main\<close>\<close>

lemma queue_of_matches:
  assumes "mq_inv (sy_queue s)" and "nullptr \<notin> set (mq_contents (sy_queue s))"
  shows "matches_coarse (queue_of s) s"
  using assms
  by (intro matches_coarseI [of _ "sy_queue s"])
     (simp_all add: calls_placed_def coarse_def queue_matches_def mq_threads_inv_def pending_ok_def ring_holds_def)

lemma main_queue_matches:
  assumes "main_memory base junk" and "new_AeronSubscriber cfg = Inr sb"
  shows "matches_coarse (queue_of (main_system base junk (sb\<lparr>sub_checkpoint := cp\<rparr>) k))
    (main_system base junk (sb\<lparr>sub_checkpoint := cp\<rparr>) k)" (is "matches_coarse (queue_of ?s) ?s")
proof -
  have "mq_inv (sy_queue ?s)"
    using main_system_ok [OF assms] by (simp add: system_ok_def zc_inv_def resources_ok_def)
  then show ?thesis
    by (rule queue_of_matches) (simp add: main_system_def zc_system_init_def)
qed

text \<open>An example: a message waits in the queue and the worker is about to call \<open>dequeue\<close>.\<close>

lemma example_dequeues:
  "\<exists>v. zc_reachable example_archive example_main v \<and> length (accepted v) = 1 \<and> taken v = []
     \<and> worker_at v = W_Dequeue"
proof -
  have idle: "sub_at example_main = S_Idle" "worker_at example_main = W_Idle" "accepted example_main = []"
    "taken example_main = []"
    by (simp_all add: example_main_def main_system_def zc_system_init_def)
  then obtain u where u: "zc_reachable example_archive example_main u" "worker_at u = W_Idle"
    "length (accepted u) = 1" "taken u = []"
    using message_call [OF zc_start example_main_inv idle(1), of example_archive 9 10 "example_message 5" 4096]
      example_main_outcome by auto
  from zc_worker [OF u(1) w_sample [OF u(2)]] show ?thesis
    using u(3,4) by (intro exI conjI) (assumption, simp_all)
qed

section \<open>Properties\<close>

text \<open>C9: The accesses to the queue refine the operations. Whatever interleaving of the loads and stores of
  \<open>enqueue\<close> and \<open>dequeue\<close> the running subscriber goes through, some run of whole operations reaches the
  same subscriber, pool, worker, statistics, handler calls, accepted and taken messages; where no call is
  under way it is at the same program points, and the queue holds the same pointers. So the worker is
  still given exactly the accepted messages, in their order, and no \<open>enqueue\<close> finds the ring full.
  Conversely every run of whole operations is one of accesses.\<close>

theorem queue_accesses_refine:
  assumes "main_memory base junk" and "new_AeronSubscriber cfg = Inr sb"
    and "queue_reachable ar (queue_of (main_system base junk (sb\<lparr>sub_checkpoint := cp\<rparr>) k)) f"
  shows "(\<exists>q p w. zc_reachable ar (main_system base junk (sb\<lparr>sub_checkpoint := cp\<rparr>) k)
          ((qs_sys f)\<lparr>sy_queue := q, sub_at := p, worker_at := w\<rparr>)
        \<and> (qs_prod f = P_Idle \<longrightarrow> p = sub_at (qs_sys f)) \<and> (qs_cons f = C_Idle \<longrightarrow> w = worker_at (qs_sys f))
        \<and> ((\<forall>buf h. qs_cons f \<noteq> C_Publish buf h) \<longrightarrow> mq_contents (sy_queue (qs_sys f)) = mq_contents q)
        \<and> accepted (qs_sys f) = taken (qs_sys f) @ map (buf_of (qs_sys f)) (mq_contents q))
     \<and> qs_prod f \<noteq> P_Fail
     \<and> (\<forall>c. zc_reachable ar (main_system base junk (sb\<lparr>sub_checkpoint := cp\<rparr>) k) c \<longrightarrow>
          queue_reachable ar (queue_of (main_system base junk (sb\<lparr>sub_checkpoint := cp\<rparr>) k)) (queue_of c))"
    (is "?refines \<and> _ \<and> ?implements")
proof -
  let ?s = "main_system base junk (sb\<lparr>sub_checkpoint := cp\<rparr>) k"
  obtain c where c: "(zc_step ar)\<^sup>*\<^sup>* ?s c" "matches_coarse f c"
    using queue_accesses.run_matched [OF assms(3) main_queue_matches [OF assms(1,2)]] by blast
  then obtain q where q: "c = coarse f q" "queue_matches (sy_queue (qs_sys f)) (qs_prod f) (qs_cons f) q"
    and placed: "calls_placed f" by (auto simp: matches_coarse_def)
  have reach: "zc_reachable ar ?s (coarse f q)" using c(1) q(1) by (simp add: zc_reachable_steps)
  have inv: "data_ok (coarse f q)" "record_ok (sub_at (coarse f q)) (coarse f q)"
    using main_reachable_ok [OF assms(1,2) reach] by (simp_all add: system_ok_def zc_inv_def)
  have "qs_prod f \<noteq> P_Fail" using inv(2) placed by (auto simp: calls_placed_def coarse_def)
  moreover have "mq_contents (sy_queue (qs_sys f)) = mq_contents q" if "\<forall>buf h. qs_cons f \<noteq> C_Publish buf h"
    using queue_matchesD(6) [OF q(2)] ring_holds_other [of "qs_cons f"] that by blast
  then have ?refines
    using reach inv(1)
    by (intro exI [of _ q] exI [of _ "sub_done (qs_prod f) (sub_at (qs_sys f))"]
          exI [of _ "worker_done (qs_cons f) (worker_at (qs_sys f))"])
       (auto simp: coarse_def data_ok_def sub_done_id worker_done_id)
  moreover have ?implements
    using queue_operations.run_matched [of ar ?s _ "queue_of ?s"] by (auto simp: zc_reachable_steps)
  ultimately show ?thesis by blast
qed

theorem queue_accesses_refine_witness:
  "\<exists>f q. queue_reachable example_archive (queue_of example_main) f \<and> length (accepted (qs_sys f)) = 1
     \<and> (\<exists>h. qs_cons f = C_LoadTail h) \<and> accepted (qs_sys f) = map (buf_of (qs_sys f)) (mq_contents q)"
proof -
  obtain v where v: "zc_reachable example_archive example_main v" "length (accepted v) = 1" "taken v = []"
    "worker_at v = W_Dequeue" using example_dequeues by blast
  let ?f = "\<lparr>qs_sys = v, qs_prod = P_Idle, qs_cons = C_LoadTail (mq_head (sy_queue v))\<rparr>"
  have "queue_reachable example_archive (queue_of example_main) (queue_of v)"
    using queue_operations.run_matched [of example_archive example_main v] v(1) by (simp add: zc_reachable_steps)
  moreover have "queue_step example_archive (queue_of v) ?f"
    by (rule q_access, rule dequeue_begins) (rule v(4))
  ultimately have f: "queue_reachable example_archive (queue_of example_main) ?f" by simp
  obtain q where "accepted v = taken v @ map (buf_of v) (mq_contents q)"
    using queue_accesses_refine [OF example_memory_ok example_new f [unfolded example_main_eq]] by auto
  then show ?thesis using f v(2,3) by (intro exI [of _ ?f] exI [of _ q]) simp
qed

end
