(* ===== verification/Pipeline_Accesses.thy ===== *)
theory Pipeline_Accesses
  imports Pipeline_Race Pipeline_Queue
begin

text \<open>
  The zero-copy pipeline with every access to shared memory as a step of its own: the calls of
  \<open>allocate\<close> and \<open>deallocate\<close> as in \<open>Pipeline_Race\<close>, and those of \<open>enqueue\<close> and \<open>dequeue\<close> as in
  \<open>Pipeline_Queue\<close>. Its runs refine those of \<open>Pipeline_Race\<close>, so the pool keeps what it keeps there.
\<close>

section \<open>State\<close>

record access_system =
  ac_fine :: fine_system
  ac_prod :: producer_pc
  ac_cons :: consumer_pc

definition accesses_of :: "fine_system \<Rightarrow> access_system" where
  "accesses_of f = \<lparr>ac_fine = f, ac_prod = P_Idle, ac_cons = C_Idle\<rparr>"

definition queue_part :: "access_system \<Rightarrow> queue_system" where
  "queue_part a = \<lparr>qs_sys = fn_sys (ac_fine a), qs_prod = ac_prod a, qs_cons = ac_cons a\<rparr>"

definition with_queue :: "access_system \<Rightarrow> queue_system \<Rightarrow> access_system" where
  "with_queue a g = \<lparr>ac_fine = (ac_fine a)\<lparr>fn_sys := qs_sys g\<rparr>, ac_prod = qs_prod g, ac_cons = qs_cons g\<rparr>"

lemma queue_part_simps [simp]:
  "qs_sys (queue_part a) = fn_sys (ac_fine a)" "qs_prod (queue_part a) = ac_prod a"
  "qs_cons (queue_part a) = ac_cons a" "queue_part (with_queue a g) = g"
  "with_queue (with_queue a g) h = with_queue a h" "with_queue a (queue_part a) = a"
  "queue_part (accesses_of f) = queue_of (fn_sys f)" "ac_fine (with_queue a g) = (ac_fine a)\<lparr>fn_sys := qs_sys g\<rparr>"
  "ac_fine (accesses_of f) = f" "ac_prod (accesses_of f) = P_Idle" "ac_cons (accesses_of f) = C_Idle"
  by (simp_all add: queue_part_def with_queue_def accesses_of_def queue_of_def)

section \<open>Steps\<close>

text \<open>A whole call of \<open>enqueue\<close> or \<open>dequeue\<close> is not a step; every other step of \<open>Pipeline_Race\<close> is one.\<close>

definition whole_queue_call :: "zc_system \<Rightarrow> zc_system \<Rightarrow> bool" where
  "whole_queue_call s t \<longleftrightarrow>
     (\<exists>pos buf. sub_at s = S_Enqueue pos buf) \<and> sub_at t \<noteq> sub_at s
     \<or> worker_at s = W_Dequeue \<and> worker_at t \<noteq> worker_at s"

inductive access_step :: "archive_client \<Rightarrow> access_system \<Rightarrow> access_system \<Rightarrow> bool" for ar where
  a_queue: "queue_access (queue_part a) g \<Longrightarrow> access_step ar a (with_queue a g)"
| a_other: "fine_step ar (ac_fine a) f \<Longrightarrow> \<not> whole_queue_call (fn_sys (ac_fine a)) (fn_sys f) \<Longrightarrow>
     access_step ar a (a\<lparr>ac_fine := f\<rparr>)"

abbreviation access_reachable :: "archive_client \<Rightarrow> access_system \<Rightarrow> access_system \<Rightarrow> bool" where
  "access_reachable ar \<equiv> (access_step ar)\<^sup>*\<^sup>*"

section \<open>The accesses to the queue refine its operations\<close>

definition matches_fine :: "access_system \<Rightarrow> fine_system \<Rightarrow> bool" where
  "matches_fine a f \<longleftrightarrow> f = (ac_fine a)\<lparr>fn_sys := fn_sys f\<rparr> \<and> matches_coarse (queue_part a) (fn_sys f)"

lemma enqueue_leaves:
  "subscriber_step ar s t \<Longrightarrow> sub_at s = S_Enqueue pos buf \<Longrightarrow> sub_at t \<noteq> sub_at s"
  by (cases rule: subscriber_step.cases) auto

lemma dequeue_leaves: "worker_step s t \<Longrightarrow> worker_at s = W_Dequeue \<Longrightarrow> worker_at t \<noteq> worker_at s"
  by (cases rule: worker_step.cases) auto

text \<open>A whole operation on the queue is a step of \<open>Pipeline_Race\<close>.\<close>

lemma queue_op_fine:
  assumes "queue_op ar (fn_sys f) t"
  shows "fine_step ar f (f\<lparr>fn_sys := t\<rparr>)"
  using assms f_subscriber [of ar f t] f_worker [of f t ar] by (auto simp: queue_op_def)

lemma access_queue_matched:
  assumes m: "matches_fine a f" and step: "queue_access (queue_part a) g"
  shows "\<exists>f'. fine_reachable ar f f' \<and> matches_fine (with_queue a g) f'"
proof -
  obtain c where c: "(queue_op ar)\<^sup>=\<^sup>= (fn_sys f) c" "matches_coarse g c"
    using queue_access_matched [OF _ step] m by (auto simp: matches_fine_def)
  let ?f = "f\<lparr>fn_sys := c\<rparr>"
  have "fine_reachable ar f ?f" using c(1) queue_op_fine [of ar f c] by auto
  moreover have "matches_fine (with_queue a g) ?f"
  proof -
    have "f = (ac_fine a)\<lparr>fn_sys := fn_sys f\<rparr>" using m by (simp add: matches_fine_def)
    then have "?f = (ac_fine a)\<lparr>fn_sys := c\<rparr>" by (metis fine_system.surjective fine_system.update_convs(1))
    then show ?thesis using c(2) by (simp add: matches_fine_def)
  qed
  ultimately show ?thesis by blast
qed

text \<open>What \<open>coarse\<close> makes of the two program points, and what it leaves.\<close>

lemma coarse_simps [simp]:
  "sy_sub (coarse g q) = sy_sub (qs_sys g)" "sy_pool (coarse g q) = sy_pool (qs_sys g)"
  "sy_queue (coarse g q) = q" "sub_at (coarse g q) = sub_done (qs_prod g) (sub_at (qs_sys g))"
  "worker_at (coarse g q) = worker_done (qs_cons g) (worker_at (qs_sys g))"
  by (simp_all add: coarse_def)

text \<open>A step of \<open>Pipeline_Race\<close> that is no whole call leaves the queue, and can be taken with the queue as the calls
  under way will have made it.\<close>

definition over :: "MessageQueue \<Rightarrow> producer_pc \<Rightarrow> consumer_pc \<Rightarrow> fine_system \<Rightarrow> fine_system" where
  "over q p c f = f\<lparr>fn_sys := coarse \<lparr>qs_sys = fn_sys f, qs_prod = p, qs_cons = c\<rparr> q\<rparr>"

lemma over_simps [simp]:
  "fn_sys (over q p c f) = coarse \<lparr>qs_sys = fn_sys f, qs_prod = p, qs_cons = c\<rparr> q"
  "fn_alloc (over q p c f) = fn_alloc f" "fn_drop (over q p c f) = fn_drop f" "fn_free (over q p c f) = fn_free f"
  by (simp_all add: over_def)

lemma no_enqueue:
  "subscriber_step ar s t \<Longrightarrow> \<not> whole_queue_call s t \<Longrightarrow> sub_at s \<noteq> S_Enqueue pos buf"
  using enqueue_leaves by (auto simp: whole_queue_call_def)

lemma no_dequeue: "worker_step s t \<Longrightarrow> \<not> whole_queue_call s t \<Longrightarrow> worker_at s \<noteq> W_Dequeue"
  using dequeue_leaves by (auto simp: whole_queue_call_def)

lemma fine_step_queue:
  assumes "fine_step ar f g" and "\<not> whole_queue_call (fn_sys f) (fn_sys g)"
  shows "sy_queue (fn_sys g) = sy_queue (fn_sys f)"
  using assms(1)
proof cases
  case (f_subscriber s)
  then show ?thesis using subscriber_step_keeps [of ar "fn_sys f" s] no_enqueue [of ar "fn_sys f" s] assms(2) by simp
next
  case (f_worker s)
  then show ?thesis using worker_step_keeps [of "fn_sys f" s] no_dequeue [of "fn_sys f" s] assms(2) by simp
qed (auto simp: sub_returns_def worker_returns_def split: sub_pc.split worker_pc.split)

lemma over_subscriber:
  assumes "sub_at (fn_sys f) \<noteq> S_Enqueue pos buf" and "p = P_Idle"
  shows "over q p c f = f\<lparr>fn_sys := (fn_sys f)\<lparr>sy_queue := q, worker_at := worker_done c (worker_at (fn_sys f))\<rparr>\<rparr>"
  using assms by (simp add: over_def coarse_def)

lemma over_worker:
  assumes "c = C_Idle"
  shows "over q p c f = f\<lparr>fn_sys := (fn_sys f)\<lparr>sy_queue := q, sub_at := sub_done p (sub_at (fn_sys f))\<rparr>\<rparr>"
  using assms by (cases f; cases "fn_sys f") (simp add: over_def coarse_def)

lemma fine_step_over:
  assumes step: "fine_step ar f g" and other: "\<not> whole_queue_call (fn_sys f) (fn_sys g)"
    and sub: "p \<noteq> P_Idle \<longrightarrow> (\<exists>pos buf. sub_at (fn_sys f) = S_Enqueue pos buf)"
    and worker: "c \<noteq> C_Idle \<longrightarrow> worker_at (fn_sys f) = W_Dequeue"
    and size: "mq_size q = mq_size (sy_queue (fn_sys f))"
  shows "fine_step ar (over q p c f) (over q p c g)"
  using step
proof cases
  case (f_subscriber s)
  note no = no_enqueue [OF f_subscriber(2) other [unfolded f_subscriber(1), simplified]]
  have p: "p = P_Idle" using sub no by blast
  have "subscriber_step ar (fn_sys (over q p c f)) (fn_sys (over q p c g))"
    using subscriber_step_queue [OF f_subscriber(2) no, where q = q and w = "worker_done c (worker_at (fn_sys f))"]
      subscriber_step_keeps [OF f_subscriber(2) no] f_subscriber(1) p by (simp add: coarse_def)
  then show ?thesis
    using fine_step.f_subscriber [of ar "over q p c f" "fn_sys (over q p c g)"] f_subscriber p
    by (simp add: over_def)
next
  case (f_worker s)
  note no = no_dequeue [OF f_worker(2) other [unfolded f_worker(1), simplified]]
  have c: "c = C_Idle" using worker no by blast
  have "worker_step (fn_sys (over q p c f)) (fn_sys (over q p c g))"
    using worker_step_queue [OF f_worker(2) no size, where p = "sub_done p (sub_at (fn_sys f))"]
      worker_step_keeps [OF f_worker(2) no] f_worker(1) c
    by (cases "fn_sys f"; cases s) (simp add: coarse_def)
  then show ?thesis
    using fine_step.f_worker [of "over q p c f" "fn_sys (over q p c g)" ar] f_worker c
    by (simp add: over_def)
next
  case (f_allocate v)
  then have p: "p = P_Idle" using sub by auto
  show ?thesis
    using fine_step.f_allocate [of "over q p c f" v ar] f_allocate p
    by (cases f; cases "fn_sys f") (simp add: over_def coarse_def)
next
  case (f_allocated v buf t d pos)
  then have p: "p = P_Idle" using sub by auto
  show ?thesis
    using fine_step.f_allocated [of "over q p c f" v buf ar t d pos] f_allocated p
    by (cases f; cases "fn_sys f") (simp add: over_def coarse_def)
next
  case (f_exhausted v)
  then have p: "p = P_Idle" using sub by auto
  show ?thesis
    using fine_step.f_exhausted [of "over q p c f" v ar] f_exhausted p
    by (cases f; cases "fn_sys f") (simp add: over_def coarse_def)
next
  case (f_drop b pl pc)
  then have p: "p = P_Idle" using sub by auto
  show ?thesis
    using fine_step.f_drop [of "over q p c f" b pl pc ar] f_drop p
    by (cases f; cases "fn_sys f") (simp add: over_def coarse_def)
next
  case (f_dropped b pl pc)
  then have p: "p = P_Idle" using sub by auto
  show ?thesis
    using fine_step.f_dropped [of "over q p c f" b pl pc ar] f_dropped p
    by (cases f; cases "fn_sys f"; cases "sub_at (fn_sys f)") (simp_all add: over_def coarse_def sub_returns_def)
next
  case (f_free b pl pc)
  then have c: "c = C_Idle" using worker by auto
  show ?thesis
    using fine_step.f_free [of "over q p c f" b pl pc ar] f_free c
    by (cases f; cases "fn_sys f") (simp add: over_def coarse_def)
next
  case (f_freed b pl pc)
  then have c: "c = C_Idle" using worker by auto
  show ?thesis
    using fine_step.f_freed [of "over q p c f" b pl pc ar] f_freed c
    by (cases f; cases "fn_sys f"; cases "worker_at (fn_sys f)")
       (simp_all add: over_def coarse_def worker_returns_def)
qed

lemma access_step_matched:
  assumes m: "matches_fine a f" and step: "access_step ar a b"
  shows "\<exists>f'. fine_reachable ar f f' \<and> matches_fine b f'"
  using step
proof cases
  case (a_queue g)
  then show ?thesis using access_queue_matched [OF m] by blast
next
  case (a_other g)
  obtain q where f: "f = over q (ac_prod a) (ac_cons a) (ac_fine a)"
    and q: "queue_matches (sy_queue (fn_sys (ac_fine a))) (ac_prod a) (ac_cons a) q"
    and placed: "calls_placed (queue_part a)"
    using m by (auto simp: matches_fine_def matches_coarse_def over_def queue_part_def)
  have "fine_step ar f (over q (ac_prod a) (ac_cons a) g)" unfolding f
    by (rule fine_step_over [OF a_other(2,3) _ _ queue_matches_size [OF q]])
       (use placed in \<open>auto simp: calls_placed_def\<close>)
  moreover have "calls_placed (queue_part b)"
    using placed a_other by (auto simp: calls_placed_def whole_queue_call_def)
  then have "matches_coarse (queue_part b) (fn_sys (over q (ac_prod a) (ac_cons a) g))"
    using q fine_step_queue [OF a_other(2,3)] a_other(1)
    by (intro matches_coarseI [of _ q]) (simp_all add: queue_part_def)
  then have "matches_fine b (over q (ac_prod a) (ac_cons a) g)"
    using a_other(1) by (simp add: matches_fine_def over_def)
  ultimately show ?thesis by blast
qed

interpretation all_accesses: simulation "access_step ar" "fine_step ar" matches_fine for ar
  by unfold_locales (rule access_step_matched)

section \<open>Every run of whole queue operations is one of accesses\<close>

lemma with_queue_accesses:
  "queue_access\<^sup>*\<^sup>* g h \<Longrightarrow> access_reachable ar (with_queue a g) (with_queue a h)"
proof (induction rule: rtranclp_induct)
  case (step h k)
  then have "access_step ar (with_queue a h) (with_queue a k)"
    using a_queue [of "with_queue a h" k ar] by simp
  with step.IH show ?case by simp
qed simp

lemma whole_queue_step:
  assumes "fine_step ar f g" and "whole_queue_call (fn_sys f) (fn_sys g)"
  shows "queue_op ar (fn_sys f) (fn_sys g) \<and> g = f\<lparr>fn_sys := fn_sys g\<rparr>"
  using assms(1)
proof cases
  case (f_subscriber s)
  then have "\<exists>pos buf. sub_at (fn_sys f) = S_Enqueue pos buf"
    using subscriber_step_keeps [of ar "fn_sys f" s] assms(2) by (auto simp: whole_queue_call_def)
  then show ?thesis using f_subscriber by (simp add: queue_op_def)
next
  case (f_worker s)
  then have "worker_at (fn_sys f) = W_Dequeue"
    using worker_step_keeps [of "fn_sys f" s] assms(2) by (auto simp: whole_queue_call_def)
  then show ?thesis using f_worker by (simp add: queue_op_def)
qed (use assms(2) in \<open>auto simp: whole_queue_call_def sub_returns_def worker_returns_def
  split: sub_pc.splits worker_pc.splits\<close>)

lemma fine_step_accesses:
  assumes "fine_step ar f g"
  shows "access_reachable ar (accesses_of f) (accesses_of g)"
proof (cases "whole_queue_call (fn_sys f) (fn_sys g)")
  case True
  note w = whole_queue_step [OF assms True]
  have "access_reachable ar (with_queue (accesses_of f) (queue_of (fn_sys f)))
      (with_queue (accesses_of f) (queue_of (fn_sys g)))"
    using w by (intro with_queue_accesses queue_op_accesses [of ar]) simp
  moreover have "with_queue (accesses_of f) (queue_of (fn_sys f)) = accesses_of f"
    by (simp add: with_queue_def accesses_of_def)
  moreover have "with_queue (accesses_of f) (queue_of (fn_sys g)) = accesses_of g"
    using conjunct2 [OF w] by (simp add: with_queue_def accesses_of_def)
  ultimately show ?thesis by simp
next
  case False
  then have "access_step ar (accesses_of f) ((accesses_of f)\<lparr>ac_fine := g\<rparr>)"
    using a_other [of ar "accesses_of f" g] assms by simp
  then show ?thesis by (simp add: accesses_of_def)
qed

interpretation whole_calls: simulation "fine_step ar" "access_step ar" "\<lambda>f a. a = accesses_of f" for ar
  by unfold_locales (use fine_step_accesses in blast)

section \<open>The system of \<open>main\<close>\<close>

lemma main_accesses_matched:
  assumes "main_memory base junk" and "new_AeronSubscriber cfg = Inr sb"
    and "access_reachable ar (accesses_of (fine_of (main_system base junk (sb\<lparr>sub_checkpoint := cp\<rparr>) k))) a"
  shows "\<exists>f. fine_reachable ar (fine_of (main_system base junk (sb\<lparr>sub_checkpoint := cp\<rparr>) k)) f \<and> matches_fine a f"
proof (rule all_accesses.run_matched [OF assms(3)])
  let ?s = "main_system base junk (sb\<lparr>sub_checkpoint := cp\<rparr>) k"
  show "matches_fine (accesses_of (fine_of ?s)) (fine_of ?s)"
    using main_queue_matches [OF assms(1,2)] by (simp add: matches_fine_def)
qed

lemma matches_fineE:
  assumes "matches_fine a f"
  obtains q where "f = over q (ac_prod a) (ac_cons a) (ac_fine a)"
    and "queue_matches (sy_queue (fn_sys (ac_fine a))) (ac_prod a) (ac_cons a) q"
    and "ac_prod a \<noteq> P_Idle \<longrightarrow> (\<exists>pos buf. sub_at (fn_sys (ac_fine a)) = S_Enqueue pos buf)"
    and "ac_cons a \<noteq> C_Idle \<longrightarrow> worker_at (fn_sys (ac_fine a)) = W_Dequeue"
  using assms
  by (fastforce simp: matches_fine_def matches_coarse_def over_def queue_part_def calls_placed_def)

text \<open>A buffer has left the subscriber when the tail moves, and has reached the worker when the head does.\<close>

lemma sub_held_done:
  assumes "p \<noteq> P_Idle \<longrightarrow> (\<exists>pos buf. pc = S_Enqueue pos buf)" and "p \<noteq> P_Fail"
  shows "length (sub_held pc) = length (sub_held (sub_done p pc)) + of_bool (p = P_Count)"
    and "set (sub_held pc) \<subseteq> set (sub_held (sub_done p pc)) \<union> {buf. \<exists>pos. sub_done p pc = S_Record pos buf}"
  using assms by (cases p; auto)+

lemma worker_held_done:
  assumes "c \<noteq> C_Idle \<longrightarrow> pc = W_Dequeue"
  shows "length (worker_held (worker_done c pc)) = length (worker_held pc) + of_bool (\<exists>buf. c = C_Count buf)"
    and "set (worker_held pc) \<subseteq> set (worker_held (worker_done c pc))"
  using assms by (cases c; auto)+

lemma example_accesses:
  "\<exists>a. access_reachable example_archive (accesses_of (fine_of example_main)) a
     \<and> length (accepted (fn_sys (ac_fine a))) = 1 \<and> (\<exists>h. ac_cons a = C_LoadTail h) \<and> ac_prod a = P_Idle"
proof -
  obtain v where v: "zc_reachable example_archive example_main v" "length (accepted v) = 1"
    "worker_at v = W_Dequeue" using example_dequeues by blast
  let ?g = "\<lparr>qs_sys = v, qs_prod = P_Idle, qs_cons = C_LoadTail (mq_head (sy_queue v))\<rparr>"
  let ?a = "with_queue (accesses_of (fine_of v)) ?g"
  have "access_reachable example_archive (accesses_of (fine_of example_main)) (accesses_of (fine_of v))"
    using whole_calls.run_matched [OF zc_reachable_fine [OF v(1) example_main_inv]] by simp
  moreover have "access_step example_archive (accesses_of (fine_of v)) ?a"
    by (rule a_queue) (simp add: dequeue_begins [OF v(3)])
  ultimately have "access_reachable example_archive (accesses_of (fine_of example_main)) ?a" by simp
  then show ?thesis using v(2) by (intro exI [of _ ?a]) (simp add: with_queue_def)
qed

section \<open>Properties\<close>

text \<open>C12: The pipeline with every access to shared memory as a step. However the accesses of \<open>allocate\<close>,
  \<open>deallocate\<close>, \<open>enqueue\<close> and \<open>dequeue\<close> interleave: every buffer of the pool is counted once, as free, in the
  ring, with a thread or in transit; every pointer in the free list, in the ring and with a thread is a
  buffer of the pool; every access to free list and ring is in their bounds; \<open>deallocate\<close> never takes its
  overflow branch; and \<open>enqueue\<close> never finds the ring full, so the subscriber's failure counter stays zero.\<close>

theorem all_accesses_safe:
  assumes "main_memory base junk" and "new_AeronSubscriber cfg = Inr sb"
    and "access_reachable ar (accesses_of (fine_of (main_system base junk (sb\<lparr>sub_checkpoint := cp\<rparr>) k))) a"
    and "s = fn_sys (ac_fine a)"
  shows "free_count (sy_pool s) + length (mq_contents (sy_queue s)) + length (sub_held (sub_at s))
         + length (worker_held (worker_at s)) + of_bool (\<exists>buf. ac_cons a = C_Count buf)
         + alloc_transit (fn_alloc (ac_fine a))
       = 1024 + of_bool (ac_prod a = P_Count) + given_back (fn_drop (ac_fine a)) + given_back (fn_free (ac_fine a))
     \<and> set (free_list (sy_pool s)) \<union> set (sub_held (sub_at s)) \<union> set (worker_held (worker_at s))
         \<subseteq> pool_ptrs (sy_pool s)
     \<and> (set (mq_contents (sy_queue s)) \<subseteq> pool_ptrs (sy_pool s) \<or> (\<exists>buf h. ac_cons a = C_Publish buf h))
     \<and> alloc_pc_ok (sy_pool s) (fn_alloc (ac_fine a))
     \<and> dealloc_pc_ok (sy_pool s) (fn_drop (ac_fine a)) \<and> dealloc_pc_ok (sy_pool s) (fn_free (ac_fine a))
     \<and> producer_ok (sy_queue s) (ac_prod a)
     \<and> unat (mq_head (sy_queue s)) < mq_Size (sy_queue s) \<and> unat (mq_tail (sy_queue s)) < mq_Size (sy_queue s)
     \<and> fn_drop (ac_fine a) \<noteq> D_Overflow \<and> fn_free (ac_fine a) \<noteq> D_Overflow
     \<and> ac_prod a \<noteq> P_Fail \<and> zc_queue_full_failures (sy_sub s) = 0"
proof -
  obtain f where f: "fine_reachable ar (fine_of (main_system base junk (sb\<lparr>sub_checkpoint := cp\<rparr>) k)) f"
    "matches_fine a f" using main_accesses_matched [OF assms(1-3)] by blast
  obtain q where q: "f = over q (ac_prod a) (ac_cons a) (ac_fine a)"
      "queue_matches (sy_queue s) (ac_prod a) (ac_cons a) q"
    and sub: "ac_prod a \<noteq> P_Idle \<longrightarrow> (\<exists>pos buf. sub_at s = S_Enqueue pos buf)"
    and worker: "ac_cons a \<noteq> C_Idle \<longrightarrow> worker_at s = W_Dequeue"
    using matches_fineE [OF f(2)] unfolding assms(4) by blast
  note d = queue_matchesD [OF q(2)]
  have ok: "memory_ok (fn_sys f)" "calls_ok f" "buffers_counted f" "PoolSize (sy_pool (fn_sys f)) = 1024"
    using main_fine_ok [OF assms(1,2) f(1)] by (simp_all add: fine_inv_def)
  have room: "ac_prod a \<noteq> P_Fail" using ok(1) q(1) sub by (auto simp: memory_ok_def assms(4))
  note held = sub_held_done [OF sub room] worker_held_done [OF worker]
  have len: "length (mq_contents (sy_queue s)) = length (mq_contents q)"
    using d(6) by (simp add: ring_holds_def)
  have count: "free_count (sy_pool s) + length (mq_contents (sy_queue s)) + length (sub_held (sub_at s))
         + length (worker_held (worker_at s)) + of_bool (\<exists>buf. ac_cons a = C_Count buf)
         + alloc_transit (fn_alloc (ac_fine a))
       = 1024 + of_bool (ac_prod a = P_Count) + given_back (fn_drop (ac_fine a)) + given_back (fn_free (ac_fine a))"
    using ok(3,4) q(1) held(1,3) len by (simp add: buffers_counted_def places_def assms(4))
  have ptrs: "set (mq_contents q) \<union> set (sub_held (sub_at s)) \<union> set (worker_held (worker_at s)) \<subseteq> pool_ptrs (sy_pool s)"
    using ok(1) q(1) held(2,4) by (auto simp: memory_ok_def places_def assms(4))
  have ring: "mq_contents (sy_queue s) = mq_contents q \<or> (\<exists>buf h. ac_cons a = C_Publish buf h)"
    using d(6) ring_holds_other [of "ac_cons a"] by blast
  have lists: "set (free_list (sy_pool s)) \<subseteq> pool_ptrs (sy_pool s)" "zc_queue_full_failures (sy_sub s) = 0"
    using ok(1) q(1) by (simp_all add: memory_ok_def list_ok_def assms(4))
  have calls: "alloc_pc_ok (sy_pool s) (fn_alloc (ac_fine a))" "dealloc_pc_ok (sy_pool s) (fn_drop (ac_fine a))"
    "dealloc_pc_ok (sy_pool s) (fn_free (ac_fine a))"
    using ok(2) q(1) by (simp_all add: calls_ok_def assms(4))
  show ?thesis using count ptrs ring lists calls room d(1,4) by (auto simp: mq_inv_def)
qed

theorem all_accesses_safe_witness:
  "\<exists>a. access_reachable example_archive (accesses_of (fine_of example_main)) a
     \<and> length (accepted (fn_sys (ac_fine a))) = 1 \<and> (\<exists>h. ac_cons a = C_LoadTail h) \<and> ac_prod a \<noteq> P_Fail
     \<and> set (free_list (sy_pool (fn_sys (ac_fine a)))) \<subseteq> pool_ptrs (sy_pool (fn_sys (ac_fine a)))"
proof -
  obtain a where a: "access_reachable example_archive (accesses_of (fine_of example_main)) a"
    "length (accepted (fn_sys (ac_fine a))) = 1" "\<exists>h. ac_cons a = C_LoadTail h"
    using example_accesses by blast
  from all_accesses_safe [OF example_memory_ok example_new a(1) [unfolded example_main_eq] refl] a
  show ?thesis by (intro exI [of _ a]) simp
qed

text \<open>C10: The accesses to the queue refine its operations also when the pool is accessed step by step. Every
  state that the accesses reach is, up to the calls of \<open>enqueue\<close> and \<open>dequeue\<close> under way, one that is reached
  with these calls as single steps, with the same pool, subscriber, worker, messages and calls of the
  pool; and every state that is reached with whole calls is reached by accesses. In particular the run
  that overwrites an accepted message exists here as well.\<close>

theorem all_accesses_refine:
  assumes "main_memory base junk" and "new_AeronSubscriber cfg = Inr sb"
    and "access_reachable ar (accesses_of (fine_of (main_system base junk (sb\<lparr>sub_checkpoint := cp\<rparr>) k))) a"
  shows "(\<exists>q p w. fine_reachable ar (fine_of (main_system base junk (sb\<lparr>sub_checkpoint := cp\<rparr>) k))
          ((ac_fine a)\<lparr>fn_sys := (fn_sys (ac_fine a))\<lparr>sy_queue := q, sub_at := p, worker_at := w\<rparr>\<rparr>)
        \<and> (ac_prod a = P_Idle \<longrightarrow> p = sub_at (fn_sys (ac_fine a)))
        \<and> (ac_cons a = C_Idle \<longrightarrow> w = worker_at (fn_sys (ac_fine a)))
        \<and> ((\<forall>buf h. ac_cons a \<noteq> C_Publish buf h) \<longrightarrow>
             mq_contents (sy_queue (fn_sys (ac_fine a))) = mq_contents q))
     \<and> (\<forall>f. fine_reachable ar (fine_of (main_system base junk (sb\<lparr>sub_checkpoint := cp\<rparr>) k)) f \<longrightarrow>
          access_reachable ar (accesses_of (fine_of (main_system base junk (sb\<lparr>sub_checkpoint := cp\<rparr>) k)))
            (accesses_of f))"
    (is "?refines \<and> ?implements")
proof
  let ?s = "fine_of (main_system base junk (sb\<lparr>sub_checkpoint := cp\<rparr>) k)"
  obtain f where f: "fine_reachable ar ?s f" "matches_fine a f"
    using main_accesses_matched [OF assms] by blast
  obtain q where q: "f = over q (ac_prod a) (ac_cons a) (ac_fine a)"
      "queue_matches (sy_queue (fn_sys (ac_fine a))) (ac_prod a) (ac_cons a) q"
    using matches_fineE [OF f(2)] by blast
  have "mq_contents (sy_queue (fn_sys (ac_fine a))) = mq_contents q" if "\<forall>buf h. ac_cons a \<noteq> C_Publish buf h"
    using queue_matchesD(6) [OF q(2)] ring_holds_other [of "ac_cons a"] that by blast
  then show ?refines
    using f(1) unfolding q(1)
    by (intro exI [of _ q] exI [of _ "sub_done (ac_prod a) (sub_at (fn_sys (ac_fine a)))"]
          exI [of _ "worker_done (ac_cons a) (worker_at (fn_sys (ac_fine a)))"])
       (auto simp: over_def coarse_def)
  show ?implements
    using whole_calls.run_matched [of ar ?s _ "accesses_of ?s"] by auto
qed

theorem all_accesses_refine_witness:
  "\<exists>a q p. access_reachable example_archive (accesses_of (fine_of example_main)) a
     \<and> length (accepted (fn_sys (ac_fine a))) = 1 \<and> (\<exists>h. ac_cons a = C_LoadTail h)
     \<and> fine_reachable example_archive (fine_of example_main)
         ((ac_fine a)\<lparr>fn_sys := (fn_sys (ac_fine a))\<lparr>sy_queue := q, sub_at := sub_at (fn_sys (ac_fine a)), worker_at := p\<rparr>\<rparr>)"
proof -
  obtain a where a: "access_reachable example_archive (accesses_of (fine_of example_main)) a"
    "length (accepted (fn_sys (ac_fine a))) = 1" "\<exists>h. ac_cons a = C_LoadTail h" "ac_prod a = P_Idle"
    using example_accesses by blast
  from all_accesses_refine [OF example_memory_ok example_new a(1) [unfolded example_main_eq]] a(4)
  obtain q p where "fine_reachable example_archive (fine_of example_main)
      ((ac_fine a)\<lparr>fn_sys := (fn_sys (ac_fine a))\<lparr>sy_queue := q, sub_at := sub_at (fn_sys (ac_fine a)), worker_at := p\<rparr>\<rparr>)"
    unfolding example_main_eq by metis
  with a show ?thesis by blast
qed

end
