(* ===== verification/Delivery.thy ===== *)
theory Delivery
  imports Publisher_Steps Zero_Copy_System
begin

text \<open>
  The publisher and the subscriber over one stream: the frames that \<open>AeronPublisher::run\<close> offers
  (\<open>Publisher_Steps\<close>) and the running pipeline of the subscriber that is fed with them
  (\<open>Zero_Copy_System\<close>). What lies between the two is not part of the repository; of it the
  theorems assume what the transport documents: a subscriber receives a contiguous piece of the
  stream of frames that were accepted, each once and in order.
\<close>

section \<open>The stream\<close>








section \<open>What the subscriber makes of its frames\<close>
















section \<open>What the worker makes of the messages\<close>

text \<open>A message but for the time at which the worker took it.\<close>

definition stamped :: "MessageBuffer \<Rightarrow> MessageBuffer" where
  "stamped b = b\<lparr>worker_dequeue_time_ns := 0\<rparr>"





lemma stamped_stamp [simp]: "stamped (b\<lparr>worker_dequeue_time_ns := t\<rparr>) = stamped b"
  by (simp add: stamped_def)





section \<open>The fed system\<close>







section \<open>The publisher's messages\<close>













section \<open>A run\<close>









section \<open>Properties\<close>






end
