(* ===== verification/Spec2Isabelle.thy ===== *)
theory Spec2Isabelle
  imports Spsc_Queue Message_Queue_Steps Buffer_Pool_Steps Checkpoint_Steps Zero_Copy_System
    Publisher_Main Subscriber_Shutdown Settings_Print Replay_To_Live Logger
    Subscriber_Process Statistics Shutdown_Race Pipeline_Accesses Delivery
begin

text \<open>
  Verification of a messaging system on top of the Aeron transport and its archive: a publisher
  that sends numbered, checksummed messages and controls their recording, and a zero-copy
  subscriber that receives them live or replayed, filters duplicates, detects gaps, hands the
  messages to a worker thread through a pool of buffers and a queue of pointers, and keeps a
  checkpoint on disk from which it resumes.

  \<^bold>\<open>The program and its theories.\<close> Paths are relative to \<open>src/\<close>; a definition has the name of the
  function it models, with a prefix where two classes share a name or the library has it.

  \<^item> \<open>Prelude\<close>: machine words (\<open>int64_t\<close> is a 64-bit word read with \<open>sint\<close>), little-endian byte images,
    and the codec locale \<open>fixed_codec\<close> with its three instances.
  \<^item> \<open>Crc32\<close>, \<open>Message_Header\<close>, \<open>Message_Buffer\<close> (\<open>common/include/MessageBuffer.h\<close>): the table-driven CRC-32
    with its equivalence to the bitwise definition and the detection of bursts; the packed 64
    byte header and its byte image; copying, resetting and validating a buffer.
  \<^item> \<open>Ring\<close>, \<open>Spsc_Queue\<close>, \<open>Message_Queue\<close>, \<open>Message_Queue_Steps\<close> (\<open>subscriber/include/SPSCQueue.h\<close>,
    \<open>MessageQueue.h\<close>): both queues refine a bounded first-in first-out queue (locale \<open>bounded_fifo\<close>); the
    second one also access by access, for one producer and one consumer in every interleaving.
  \<^item> \<open>Buffer_Pool\<close>, \<open>Buffer_Pool_Steps\<close> (\<open>BufferPool.h\<close>): allocation and release as a whole (locale
    \<open>buffer_allocator\<close>: what is owned is never handed out again) and access by access for an allocating
    and a releasing thread, where a buffer can be handed out twice.
  \<^item> \<open>Checkpoint\<close>, \<open>Checkpoint_Steps\<close> (\<open>CheckpointManager.h\<close>, \<open>.cpp\<close>): the file format, flushing through a
    temporary file, loading; the updating and the flushing thread with a crash at any point.
  \<^item> \<open>Aeron_Config\<close>, \<open>Dedup_Window\<close>, \<open>Subscriber\<close>, \<open>Subscriber_Reception\<close> (\<open>AeronConfig.h\<close>,
    \<open>AeronSubscriber.h\<close>, \<open>.cpp\<close>): configuration, recording discovery, gap detection, the duplicate ring
    (locale \<open>sliding_window\<close>), and the fast path of a message with its four outcomes.
  \<^item> \<open>Polling\<close>: the unbounded waiting loops, and the contract of a receiver that is polled (locale
    \<open>fragment_receiver\<close>), which the two receive loops below fulfil.
  \<^item> \<open>Subscriber_Session\<close> (\<open>AeronSubscriber.cpp\<close>): connecting, starting live or with a replay merge, the
    receive loop \<open>run\<close>, shutdown. \<open>Replay_To_Live\<close> (\<open>deprecated/ReplayToLiveHandler.cpp\<close>): its predecessor.
  \<^item> \<open>Message_Worker\<close>, \<open>Zero_Copy_System\<close> (\<open>MessageWorker.cpp\<close>, \<open>main.cpp\<close>): the worker thread, and subscriber
    and worker thread together over the pool of 1024 buffers and the queue of 4096 slots,
    interleaved at every operation on what they share.
  \<^item> \<open>Simulation\<close>, \<open>Pipeline_Race\<close>, \<open>Pipeline_Queue\<close>, \<open>Pipeline_Accesses\<close>: the same pipeline with the calls of
    \<open>allocate\<close> and \<open>deallocate\<close>, with those of \<open>enqueue\<close> and \<open>dequeue\<close>, and with both, split into their accesses
    to shared memory. The locale \<open>simulation\<close> relates the grains: every run of whole operations is one of
    accesses, and every run of accesses to the queue belongs to one of whole queue operations.
  \<^item> \<open>Delivery\<close>: publisher and subscriber over one stream, the pipeline being fed with the frames that
    \<open>AeronPublisher::run\<close> offers.
  \<^item> \<open>Text\<close>, \<open>Config_Loader\<close>, \<open>Settings_Print\<close> (\<open>common/src/ConfigLoader.cpp\<close>): the library functions on texts
    that the code calls, the INI parser, settings from defaults, file and environment, their
    validation, printing and templates; numbers as texts are the locale \<open>text_number\<close>.
  \<^item> \<open>Recording_Controller\<close>, \<open>Publisher\<close>, \<open>Publisher_Steps\<close> (\<open>publisher/src/RecordingController.cpp\<close>,
    \<open>AeronPublisher.cpp\<close>): starting and stopping recordings, the message on the wire, and the
    publishing thread interleaved with the command loop.
  \<^item> \<open>Command_Line\<close>, \<open>Publisher_Main\<close>, \<open>Subscriber_Main\<close>, \<open>Subscriber_Shutdown\<close> (the two \<open>main.cpp\<close> and
    \<open>test_message_publisher.cpp\<close>): options, configuration, start, monitoring, shutdown.
  \<^item> \<open>Subscriber_Process\<close> (\<open>subscriber/src/main.cpp\<close>): the threads of the running subscriber program together,
    the pipeline, the calls of \<open>update\<close>, the flush thread and the monitoring thread, and what a crash and a
    restart make of their state.
  \<^item> \<open>Shutdown_Race\<close> (\<open>AeronSubscriber.cpp\<close>): the receive loop interleaved with \<open>shutdown\<close>.
  \<^item> \<open>Statistics\<close>: latencies, utilization, and the statistics that are printed by queue, pool, worker,
    checkpoint manager, monitoring thread and \<open>main\<close>.
  \<^item> \<open>Logger\<close> (\<open>common/include/Logger.h\<close>): levels and lines.

  \<^bold>\<open>State and interaction.\<close> Each class is a record of its members, and each operation a function from
  the state before to the result and the state after; an exception is the left side of a sum, a
  null pointer is address 0. A buffer belongs to the pool, to the subscriber, to the queue or to
  the worker. The subscriber takes it from the pool, fills it with a message and enqueues its
  address; the worker dequeues the address, handles the message and returns the buffer.
  \<open>zc_world\<close> holds subscriber, pool and queue for one thread, \<open>zc_system\<close> adds the worker and the program
  points of both threads, \<open>fine_system\<close> the calls of the pool that are under way, \<open>queue_system\<close> those of
  the queue, \<open>access_system\<close> both, \<open>process\<close> the checkpoint as the flush thread sees it and the monitoring thread; \<open>ps_reachable\<close>,
  \<open>zc_reachable\<close>, \<open>fine_reachable\<close>, \<open>queue_reachable\<close>, \<open>access_reachable\<close> and \<open>process_reachable\<close> are the states that any interleaving
  reaches, and \<open>fed\<close> relates a state of the pipeline to the frames it was handed. The
  steps of the process are those of its parts; the only step shared by two of them is the one with
  which the subscriber records a message and stores the first field of the checkpoint.

  \<^bold>\<open>What is shown.\<close> The lemmas of a component keep its invariant and give the result of each operation
  on every branch; the numbered properties are built on them.

  \<^item> The pipeline, with each operation of pool and queue as one step: no buffer is lost or held twice;
    the worker receives exactly the accepted messages, in order and unchanged; accepted numbers do
    not repeat within the duplicate window; the checkpoint names the last accepted message; the steps
    implement the sequential functions. With the accesses to the queue as the steps nothing changes:
    they refine the whole operations. With those to the pool as the steps too, every buffer is still
    counted once, every pointer is one of the pool, nothing overflows and the queue never refuses a
    message; but a buffer can be held twice, and an accepted message be overwritten.
  \<^item> From end to end: what the publisher offers is numbered without holes, valid, and arrives with
    its text; the handler of the subscriber is called with these messages at most once, in order and
    unchanged, frames are only lost to an exhausted pool and then counted, and at rest every message
    was handled; the receive loop handles every fragment once, also across the change from replay
    to live; a restart resumes from the position of the last completed flush.
  \<^item> The whole subscriber process: wherever it is killed, the restarted program has every message behind
    the loaded position delivered again, and of those before it at most 1024 were not yet handled; the
    monitoring thread counts messages that the worker took, in their order; the statistics that are
    printed are those of what happened.
  \<^item> Data: CRC-32 as specified and its detection of bursts, the byte images, round trips of
    checkpoint files, INI files and printed settings, validity of loaded settings.
  \<^item> Progress: queue operations are wait-free, a running worker empties the queue, and the publisher
    ends if and only if it reads \<open>quit\<close>; the receive loop ends within six steps of the signal.
  \<^item> Flaws of the code, as theorems about the model: a buffer handed out twice by the concurrent
    pool and the waiting message lost with it, a checkpoint that mixes two updates, messages lost when the transport refuses them or
    when the program stops, a call through a pointer that \<open>shutdown\<close> has reset, recordings that can no longer be stopped, a replay that is skipped,
    a failed merge that silently ends the reception, and others.

  \<^bold>\<open>Conventions and bounds.\<close> \<open>size_t\<close> has 64 bits and the machine is little-endian. Signed overflow, undefined
  in C++, wraps here; where a property depends on its absence, a bound is assumed (sums and
  counts below 2 to the 63). Atomic accesses are sequentially consistent; the steps of a thread
  are its accesses to shared memory. The sizes of class templates are the lengths of lists.
  A \<open>double\<close> is an exact real number, rounded where it is printed. Loops that may never end are partial functions with the value
  \<open>None\<close> (\<open>wait_for\<close>, \<open>command_loop\<close>), so that their end is itself stated and proved; loops driven by the
  environment run over the list of what the environment does, for lists of any length, and
  no fuel is used. The clock, the transport, the archive client, the file system, the environment variables and the
  results of \<open>getopt_long\<close> are arguments; nothing is assumed of them beyond what a theorem states.

  \<^bold>\<open>Not modelled.\<close> The Aeron client library and the archive, which are not part of the repository; weak memory;
  sleeping and the affinity of threads; an exception
  thrown by a poll of the client library, which ends the process; the destruction of objects beyond its effect on
  recording, checkpoint and threads; the rounding of floating-point arithmetic; progress and error messages,
  apart from settings, statistics and log lines. What is between an offer and a poll belongs to the transport:
  that it hands over a contiguous piece of the accepted frames, once and in order, is a hypothesis where \<open>Delivery\<close> needs it. The second copy of
  \<open>MessageBuffer.h\<close> under \<open>subscriber/include/\<close> is identical to the one modelled. The files under \<open>build/\<close> are
  generated by CMake; scripts, documents and sample configurations are no code of the program.
\<close>

end
